(* ===== verification/ER_Prelude.thy ===== *)
theory ER_Prelude
  imports Main "HOL-Library.Word" "HOL-Library.Monad_Syntax" "HOL-Library.Signed_Division"
begin

text \<open>
  What the component theories share: the collections their simplification and
  introduction rules go to, the type of expression widths, and generic facts on
  options, lists and integers modulo a power of two.
\<close>

named_theorems er_simps \<open>rewrite rules shared by the component proofs\<close>
named_theorems er_wf \<open>introduction rules for well-formedness\<close>
named_theorems er_sound \<open>soundness rules of the smart constructors\<close>

type_synonym width = nat

section \<open>Options\<close>

lemma bind_eq_Some_iff [simp]:
  "(Option.bind m f = Some y) \<longleftrightarrow> (\<exists>x. m = Some x \<and> f x = Some y)"
  by (cases m) auto

section \<open>Integers modulo a power of two\<close>

lemma mod_pow2_pos [simp]: "0 \<le> (a::int) mod 2 ^ w"
  by simp

lemma mod_pow2_lt [simp]: "(a::int) mod 2 ^ w < 2 ^ w"
  by simp

lemma mod_pow2_small:
  "0 \<le> (a::int) \<Longrightarrow> a < 2 ^ w \<Longrightarrow> a mod 2 ^ w = a"
  by simp

lemma bit_value_cases:
  "0 \<le> (a::int) \<Longrightarrow> a < 2 ^ 1 \<Longrightarrow> a = 0 \<or> a = 1"
  by auto

end
