(* ===== verification/ER_Constant.thy ===== *)
theory ER_Constant
  imports ER_Prelude
begin

unbundle bit_operations_syntax

text \<open>
  Constants of the expression language: the fixed-width integers that
  \<^verbatim>\<open>ConstantExpr\<close> holds, its predicates and the constant operations of
  \<^verbatim>\<open>lib/Expr/Expr.cpp\<close> (\<open>ConstantExpr_Concat\<close> to \<open>ConstantExpr_op\<close>).  A value
  of \<open>w\<close> bits is its width with its unsigned reading in \<open>[0, 2^w)\<close>; every
  operation keeps the width and wraps, and one whose precondition fails in the
  code (operands of different widths, a zero divisor) is \<open>None\<close>.  The second half
  states the arithmetic meaning \<open>bv_sem\<close> of the operators, independently of
  the bit operations, and proves that the constant operations compute it.
\<close>

section \<open>Binary kinds\<close>

text \<open>The binary kinds of \<^verbatim>\<open>Expr::Kind\<close>, from \<^verbatim>\<open>BinaryKindFirst\<close> to \<^verbatim>\<open>BinaryKindLast\<close>.\<close>

datatype bkind =
    Add | Sub | Mul | UDiv | SDiv | URem | SRem
  | And | Or | Xor | Shl | LShr | AShr
  | Eq | Ne | Ult | Ule | Ugt | Uge | Slt | Sle | Sgt | Sge

fun is_cmp :: "bkind \<Rightarrow> bool" where
  "is_cmp Eq = True" | "is_cmp Ne = True"
| "is_cmp Ult = True" | "is_cmp Ule = True" | "is_cmp Ugt = True" | "is_cmp Uge = True"
| "is_cmp Slt = True" | "is_cmp Sle = True" | "is_cmp Sgt = True" | "is_cmp Sge = True"
| "is_cmp _ = False"

fun is_div :: "bkind \<Rightarrow> bool" where
  "is_div UDiv = True" | "is_div SDiv = True" | "is_div URem = True" | "is_div SRem = True"
| "is_div _ = False"

section \<open>Fixed-width integers\<close>

datatype apint = APInt (getBitWidth: nat) (apval: int)

definition apint_of :: "width \<Rightarrow> int \<Rightarrow> apint" where
  "apint_of w v = APInt w (take_bit w v)"

definition apsigned :: "apint \<Rightarrow> int" where
  "apsigned c = signed_take_bit (getBitWidth c - 1) (apval c)"

definition wf_apint :: "apint \<Rightarrow> bool" where
  "wf_apint c \<longleftrightarrow> 0 < getBitWidth c \<and> 0 \<le> apval c \<and> apval c < 2 ^ getBitWidth c"

definition apint_bool :: "bool \<Rightarrow> apint" where
  "apint_bool b = apint_of 1 (if b then 1 else 0)"

section \<open>Predicates and unary operations of ConstantExpr\<close>

definition ConstantExpr_isZero :: "apint \<Rightarrow> bool" where
  "ConstantExpr_isZero c \<longleftrightarrow> apval c = 0"

text \<open>\<^verbatim>\<open>isOne\<close> compares the value limited to 64 bits with 1.\<close>

definition ConstantExpr_isOne :: "apint \<Rightarrow> bool" where
  "ConstantExpr_isOne c \<longleftrightarrow> min (apval c) (2 ^ 64 - 1) = 1"

definition ConstantExpr_isTrue :: "apint \<Rightarrow> bool" where
  "ConstantExpr_isTrue c \<longleftrightarrow> getBitWidth c = 1 \<and> apval c \<noteq> 0"

definition ConstantExpr_isFalse :: "apint \<Rightarrow> bool" where
  "ConstantExpr_isFalse c \<longleftrightarrow> getBitWidth c = 1 \<and> apval c = 0"

definition ConstantExpr_isAllOnes :: "apint \<Rightarrow> bool" where
  "ConstantExpr_isAllOnes c \<longleftrightarrow> apval c = mask (getBitWidth c)"

definition ConstantExpr_Concat :: "apint \<Rightarrow> apint \<Rightarrow> apint" where
  "ConstantExpr_Concat c rhs =
     (let W = getBitWidth c + getBitWidth rhs
      in apint_of W (push_bit (getBitWidth rhs) (apval c) OR apval rhs))"

text \<open>\<^verbatim>\<open>Extract\<close> shifts arithmetically and then truncates.\<close>

definition ConstantExpr_Extract :: "apint \<Rightarrow> nat \<Rightarrow> width \<Rightarrow> apint" where
  "ConstantExpr_Extract c off W =
     apint_of W (apval (apint_of (getBitWidth c) (drop_bit off (apsigned c))))"

definition ConstantExpr_ZExt :: "apint \<Rightarrow> width \<Rightarrow> apint" where
  "ConstantExpr_ZExt c W = apint_of W (apval c)"

definition ConstantExpr_SExt :: "apint \<Rightarrow> width \<Rightarrow> apint" where
  "ConstantExpr_SExt c W = apint_of W (apsigned c)"

definition ConstantExpr_Neg :: "apint \<Rightarrow> apint" where
  "ConstantExpr_Neg c = apint_of (getBitWidth c) (- apval c)"

definition ConstantExpr_Not :: "apint \<Rightarrow> apint" where
  "ConstantExpr_Not c = apint_of (getBitWidth c) (NOT (apval c))"

section \<open>Binary operations of ConstantExpr\<close>

text \<open>
  One equation per method \<^verbatim>\<open>ConstantExpr::Add\<close> to \<^verbatim>\<open>ConstantExpr::Sge\<close>.  A shift
  amount is limited to the width, so an over-wide shift gives 0, or the sign
  for \<^verbatim>\<open>AShr\<close>.
\<close>

definition shift_amount :: "apint \<Rightarrow> nat" where
  "shift_amount c = nat (min (apval c) (int (getBitWidth c)))"

fun ConstantExpr_val :: "bkind \<Rightarrow> apint \<Rightarrow> apint \<Rightarrow> apint option" where
  "ConstantExpr_val Add c d = Some (apint_of (getBitWidth c) (apval c + apval d))"
| "ConstantExpr_val Sub c d = Some (apint_of (getBitWidth c) (apval c - apval d))"
| "ConstantExpr_val Mul c d = Some (apint_of (getBitWidth c) (apval c * apval d))"
| "ConstantExpr_val UDiv c d =
     (if apval d = 0 then None else Some (apint_of (getBitWidth c) (apval c div apval d)))"
| "ConstantExpr_val SDiv c d =
     (if apval d = 0 then None
      else Some (apint_of (getBitWidth c) (apsigned c sdiv apsigned d)))"
| "ConstantExpr_val URem c d =
     (if apval d = 0 then None else Some (apint_of (getBitWidth c) (apval c mod apval d)))"
| "ConstantExpr_val SRem c d =
     (if apval d = 0 then None
      else Some (apint_of (getBitWidth c) (apsigned c smod apsigned d)))"
| "ConstantExpr_val And c d = Some (apint_of (getBitWidth c) (apval c AND apval d))"
| "ConstantExpr_val Or c d = Some (apint_of (getBitWidth c) (apval c OR apval d))"
| "ConstantExpr_val Xor c d = Some (apint_of (getBitWidth c) (apval c XOR apval d))"
| "ConstantExpr_val Shl c d =
     Some (apint_of (getBitWidth c) (push_bit (shift_amount d) (apval c)))"
| "ConstantExpr_val LShr c d =
     Some (apint_of (getBitWidth c) (drop_bit (shift_amount d) (apval c)))"
| "ConstantExpr_val AShr c d =
     Some (apint_of (getBitWidth c) (drop_bit (shift_amount d) (apsigned c)))"
| "ConstantExpr_val Eq c d = Some (apint_bool (apval c = apval d))"
| "ConstantExpr_val Ne c d = Some (apint_bool (apval c \<noteq> apval d))"
| "ConstantExpr_val Ult c d = Some (apint_bool (apval c < apval d))"
| "ConstantExpr_val Ule c d = Some (apint_bool (apval c \<le> apval d))"
| "ConstantExpr_val Ugt c d = Some (apint_bool (apval c > apval d))"
| "ConstantExpr_val Uge c d = Some (apint_bool (apval c \<ge> apval d))"
| "ConstantExpr_val Slt c d = Some (apint_bool (apsigned c < apsigned d))"
| "ConstantExpr_val Sle c d = Some (apint_bool (apsigned c \<le> apsigned d))"
| "ConstantExpr_val Sgt c d = Some (apint_bool (apsigned c > apsigned d))"
| "ConstantExpr_val Sge c d = Some (apint_bool (apsigned c \<ge> apsigned d))"

definition ConstantExpr_op :: "bkind \<Rightarrow> apint \<Rightarrow> apint \<Rightarrow> apint option" where
  "ConstantExpr_op k c d =
     (if getBitWidth c = getBitWidth d then ConstantExpr_val k c d else None)"

section \<open>Arithmetic meaning of the operators\<close>

text \<open>
  The meaning of an operator on unsigned readings at width \<open>w\<close>, by integer
  arithmetic alone: \<open>sgn_val\<close> is the two's complement reading, division
  truncates towards zero and by zero is undefined.
\<close>

definition sgn_val :: "width \<Rightarrow> int \<Rightarrow> int" where
  "sgn_val w a = (if 2 * a < 2 ^ w then a else a - 2 ^ w)"

definition trunc_div :: "int \<Rightarrow> int \<Rightarrow> int" where
  "trunc_div a b = sgn a * sgn b * (\<bar>a\<bar> div \<bar>b\<bar>)"

definition trunc_rem :: "int \<Rightarrow> int \<Rightarrow> int" where
  "trunc_rem a b = a - trunc_div a b * b"

definition bool_val :: "bool \<Rightarrow> int" where
  "bool_val b = (if b then 1 else 0)"

fun bv_sem :: "bkind \<Rightarrow> width \<Rightarrow> int \<Rightarrow> int \<Rightarrow> int option" where
  "bv_sem Add w a b = Some ((a + b) mod 2 ^ w)"
| "bv_sem Sub w a b = Some ((a - b) mod 2 ^ w)"
| "bv_sem Mul w a b = Some ((a * b) mod 2 ^ w)"
| "bv_sem UDiv w a b = (if b = 0 then None else Some (a div b))"
| "bv_sem SDiv w a b =
     (if b = 0 then None else Some (trunc_div (sgn_val w a) (sgn_val w b) mod 2 ^ w))"
| "bv_sem URem w a b = (if b = 0 then None else Some (a mod b))"
| "bv_sem SRem w a b =
     (if b = 0 then None else Some (trunc_rem (sgn_val w a) (sgn_val w b) mod 2 ^ w))"
| "bv_sem And w a b = Some (a AND b)"
| "bv_sem Or w a b = Some (a OR b)"
| "bv_sem Xor w a b = Some (a XOR b)"
| "bv_sem Shl w a b = Some (if b < int w then (a * 2 ^ nat b) mod 2 ^ w else 0)"
| "bv_sem LShr w a b = Some (if b < int w then a div 2 ^ nat b else 0)"
| "bv_sem AShr w a b =
     Some (if b < int w then (sgn_val w a div 2 ^ nat b) mod 2 ^ w
           else if 2 * a < 2 ^ w then 0 else 2 ^ w - 1)"
| "bv_sem Eq w a b = Some (bool_val (a = b))"
| "bv_sem Ne w a b = Some (bool_val (a \<noteq> b))"
| "bv_sem Ult w a b = Some (bool_val (a < b))"
| "bv_sem Ule w a b = Some (bool_val (a \<le> b))"
| "bv_sem Ugt w a b = Some (bool_val (b < a))"
| "bv_sem Uge w a b = Some (bool_val (b \<le> a))"
| "bv_sem Slt w a b = Some (bool_val (sgn_val w a < sgn_val w b))"
| "bv_sem Sle w a b = Some (bool_val (sgn_val w a \<le> sgn_val w b))"
| "bv_sem Sgt w a b = Some (bool_val (sgn_val w b < sgn_val w a))"
| "bv_sem Sge w a b = Some (bool_val (sgn_val w b \<le> sgn_val w a))"

section \<open>The constant operations compute the arithmetic meaning\<close>

lemma getBitWidth_apint_of [simp]: "getBitWidth (apint_of w v) = w"
  by (simp add: apint_of_def)

lemma apval_apint_of [simp]: "apval (apint_of w v) = v mod 2 ^ w"
  by (simp add: apint_of_def take_bit_eq_mod)

lemma getBitWidth_apint_bool [simp]: "getBitWidth (apint_bool b) = 1"
  by (simp add: apint_bool_def)

lemma apval_apint_bool [simp]: "apval (apint_bool b) = bool_val b"
  by (simp add: apint_bool_def bool_val_def)

lemma wf_apint_of [simp]: "wf_apint (apint_of w v) \<longleftrightarrow> 0 < w"
  by (simp add: wf_apint_def)

lemma wf_apint_bool [simp]: "wf_apint (apint_bool b)"
  by (simp add: wf_apint_def bool_val_def)

lemma bool_val_range [simp]: "0 \<le> bool_val b" "bool_val b < 2" "bool_val b \<le> 1"
  by (simp_all add: bool_val_def)

lemma bool_val_eq_iff [simp]:
  "bool_val b = 0 \<longleftrightarrow> \<not> b" "bool_val b = 1 \<longleftrightarrow> b" "bool_val b = bool_val c \<longleftrightarrow> b = c"
  by (auto simp: bool_val_def)

lemma wf_apintD:
  assumes "wf_apint c"
  shows "0 < getBitWidth c" "0 \<le> apval c" "apval c < 2 ^ getBitWidth c"
  using assms by (auto simp: wf_apint_def)

lemma apint_eqI:
  "getBitWidth c = getBitWidth d \<Longrightarrow> apval c = apval d \<Longrightarrow> c = d"
  by (cases c; cases d) simp

lemma signed_take_bit_sgn_val:
  assumes "0 < w" "0 \<le> a" "a < 2 ^ w"
  shows "signed_take_bit (w - 1) a = sgn_val w a"
proof -
  obtain n where w: "w = Suc n" using assms(1) by (cases w) auto
  show ?thesis
  proof (cases "a < 2 ^ n")
    case True
    have "take_bit (Suc n) (a + 2 ^ n) = a + 2 ^ n"
      using True assms by (simp add: take_bit_int_eq_self_iff)
    then show ?thesis
      using True by (simp add: w signed_take_bit_eq_take_bit_shift sgn_val_def)
  next
    case False
    have "take_bit (Suc n) (a + 2 ^ n) = take_bit (Suc n) (a - 2 ^ n)"
    proof -
      have "a + 2 ^ n = (a - 2 ^ n) + 2 ^ Suc n" by simp
      then show ?thesis by (metis add.commute mod_add_self1 take_bit_eq_mod)
    qed
    also have "\<dots> = a - 2 ^ n"
      using False assms w by (simp add: take_bit_int_eq_self_iff)
    finally show ?thesis
      using False by (simp add: w signed_take_bit_eq_take_bit_shift sgn_val_def)
  qed
qed

lemma apsigned_sgn_val [simp]:
  "wf_apint c \<Longrightarrow> apsigned c = sgn_val (getBitWidth c) (apval c)"
  using signed_take_bit_sgn_val [of "getBitWidth c" "apval c"]
  by (simp add: apsigned_def wf_apint_def)

lemma sgn_val_eq_iff:
  assumes "0 \<le> a" "a < 2 ^ w" "0 \<le> b" "b < 2 ^ w"
  shows "sgn_val w a = sgn_val w b \<longleftrightarrow> a = b"
  using assms by (auto simp: sgn_val_def)

lemma sgn_val_zero_iff [simp]:
  "0 \<le> a \<Longrightarrow> a < 2 ^ w \<Longrightarrow> sgn_val w a = 0 \<longleftrightarrow> a = 0"
  by (auto simp: sgn_val_def)

lemma sgn_val_mod [simp]: "sgn_val w a mod 2 ^ w = a mod 2 ^ w"
  by (simp add: sgn_val_def)

lemma sgn_val_bounds:
  assumes "0 < w" "0 \<le> a" "a < 2 ^ w"
  shows "- (2 ^ w) \<le> 2 * sgn_val w a" "2 * sgn_val w a < 2 ^ w"
  using assms by (auto simp: sgn_val_def)

lemma sdiv_trunc_div: "a sdiv b = trunc_div a b"
  by (simp add: signed_divide_int_def trunc_div_def)

lemma smod_trunc_rem: "a smod b = trunc_rem a b"
  by (simp add: trunc_rem_def flip: sdiv_trunc_div minus_sdiv_mult_eq_smod)

lemma bitop_bounds:
  assumes "0 \<le> a" "a < 2 ^ w" "0 \<le> b" "b < (2::int) ^ w"
  shows "(a AND b) mod 2 ^ w = a AND b" "(a OR b) mod 2 ^ w = a OR b"
    "(a XOR b) mod 2 ^ w = a XOR b"
  using assms by (simp_all add: mod_pow2_small OR_upper XOR_upper)

lemma div_bounds:
  assumes "0 \<le> a" "a < 2 ^ w" "0 \<le> b"
  shows "0 \<le> a div b" "a div b < (2::int) ^ w"
proof -
  show "0 \<le> a div b" using assms by (cases "b = 0") (simp_all add: pos_imp_zdiv_nonneg_iff)
  have "a div b \<le> a"
    using assms by (cases "b = 0") (auto intro: order_trans [OF zdiv_mono2 [of a 1 b]])
  then show "a div b < 2 ^ w" using assms by simp
qed

lemma rem_bounds:
  assumes "0 \<le> a" "0 < b" "b < (2::int) ^ w"
  shows "0 \<le> a mod b" "a mod b < 2 ^ w"
  using assms pos_mod_bound [of b a] by (auto simp del: pos_mod_bound)

lemma nat_min_shift [simp]:
  "0 \<le> b \<Longrightarrow> b < int w \<Longrightarrow> nat (min b (int w)) = nat b"
  by simp

lemma Shl_val:
  assumes "0 \<le> b"
  shows "push_bit (nat (min b (int w))) (a::int) mod 2 ^ w =
         (if b < int w then a * 2 ^ nat b mod 2 ^ w else 0)"
  using assms by (simp add: push_bit_eq_mult min_def)

lemma LShr_val:
  assumes "0 \<le> b" "0 \<le> a" "a < (2::int) ^ w"
  shows "drop_bit (nat (min b (int w))) a mod 2 ^ w = (if b < int w then a div 2 ^ nat b else 0)"
  using assms by (simp add: drop_bit_eq_div min_def mod_pow2_small div_bounds)

lemma AShr_val:
  assumes "0 < w" "0 \<le> b" "0 \<le> a" "a < (2::int) ^ w"
  shows "drop_bit (nat (min b (int w))) (sgn_val w a) mod 2 ^ w =
         (if b < int w then (sgn_val w a div 2 ^ nat b) mod 2 ^ w
          else if 2 * a < 2 ^ w then 0 else 2 ^ w - 1)"
proof (cases "b < int w")
  case True
  then show ?thesis using assms by (simp add: drop_bit_eq_div)
next
  case False
  have "(a - 2 ^ w) div 2 ^ w = -1"
    using div_mult_self1 [of "2 ^ w" a "-1"] assms by simp
  then show ?thesis
    using False assms by (auto simp: drop_bit_eq_div min_def sgn_val_def zmod_minus1)
qed

lemma ConstantExpr_op_bv_sem:
  assumes "wf_apint c" "wf_apint d" "getBitWidth c = getBitWidth d"
  shows "map_option apval (ConstantExpr_op k c d) = bv_sem k (getBitWidth c) (apval c) (apval d)"
proof -
  note c = wf_apintD [OF assms(1)] and d = wf_apintD [OF assms(2)]
  note w = assms(3)
  have d': "0 \<le> apval d" "apval d < 2 ^ getBitWidth c" using d w by simp_all
  show ?thesis
    using c d d' w assms(1,2)
    by (cases k)
      (simp_all add: ConstantExpr_op_def shift_amount_def bitop_bounds sdiv_trunc_div
        smod_trunc_rem mod_pow2_small div_bounds rem_bounds Shl_val LShr_val AShr_val)
qed

lemma ConstantExpr_op_Some:
  assumes "ConstantExpr_op k c d = Some e" "wf_apint c" "wf_apint d"
  shows "wf_apint e" "getBitWidth e = (if is_cmp k then 1 else getBitWidth c)"
  using assms wf_apintD(1) [of c]
  by (cases k; auto simp: ConstantExpr_op_def split: if_splits)+

lemma bv_sem_range:
  assumes "bv_sem k w a b = Some v" "0 < w" "0 \<le> a" "a < 2 ^ w" "0 \<le> b" "b < 2 ^ w"
  shows "0 \<le> v" "v < 2 ^ (if is_cmp k then 1 else w)"
proof -
  let ?c = "APInt w a" and ?d = "APInt w b"
  have wf: "wf_apint ?c" "wf_apint ?d" using assms by (simp_all add: wf_apint_def)
  have "map_option apval (ConstantExpr_op k ?c ?d) = Some v"
    using ConstantExpr_op_bv_sem [OF wf] assms(1) by simp
  then obtain e where e: "ConstantExpr_op k ?c ?d = Some e" "v = apval e" by auto
  from ConstantExpr_op_Some [OF e(1) wf] e(2) show "0 \<le> v" "v < 2 ^ (if is_cmp k then 1 else w)"
    by (auto simp: wf_apint_def)
qed

lemma bv_sem_None_iff: "bv_sem k w a b = None \<longleftrightarrow> is_div k \<and> b = 0"
  by (cases k) auto

section \<open>Unary constant operations\<close>

lemma apval_Concat:
  assumes "wf_apint c" "wf_apint d"
  shows "apval (ConstantExpr_Concat c d) = apval c * 2 ^ getBitWidth d + apval d"
proof -
  note c = wf_apintD [OF assms(1)] and d = wf_apintD [OF assms(2)]
  let ?m = "getBitWidth c" and ?n = "getBitWidth d"
  have "push_bit ?n (apval c) OR apval d = take_bit ?n (apval d) OR push_bit ?n (apval c)"
    using d by (simp add: take_bit_int_eq_self or.commute)
  also have "\<dots> = apval d + apval c * 2 ^ ?n"
    using concat_bit_eq [of ?n "apval d" "apval c"] d
    by (simp add: concat_bit_def take_bit_int_eq_self push_bit_eq_mult)
  finally have or: "push_bit ?n (apval c) OR apval d = apval c * 2 ^ ?n + apval d"
    by simp
  have "apval c * 2 ^ ?n + apval d < (apval c + 1) * 2 ^ ?n"
    using d by (simp add: algebra_simps)
  also have "\<dots> \<le> 2 ^ ?m * 2 ^ ?n"
    using c by (intro mult_right_mono) auto
  finally have "apval c * 2 ^ ?n + apval d < 2 ^ (?m + ?n)"
    by (simp add: power_add)
  then show ?thesis
    using c d by (simp add: ConstantExpr_Concat_def or mod_pow2_small)
qed

lemma extract_bits:
  assumes "off + W \<le> w" "(x::int) mod 2 ^ w = y mod 2 ^ w"
  shows "x div 2 ^ off mod 2 ^ W = y div 2 ^ off mod 2 ^ W"
proof -
  have le: "W + off \<le> w" using assms(1) by simp
  have "take_bit (W + off) (take_bit w x) = take_bit (W + off) (take_bit w y)"
    using assms(2) by (simp add: take_bit_eq_mod)
  then have "take_bit (W + off) x = take_bit (W + off) y"
    using le by (simp add: min_absorb1)
  then have "take_bit W (drop_bit off x) = take_bit W (drop_bit off y)"
    by (simp add: take_bit_drop_bit)
  then show ?thesis by (simp add: take_bit_eq_mod drop_bit_eq_div)
qed

lemma mod_pow2_mod: "W \<le> w \<Longrightarrow> (x::int) mod 2 ^ w mod 2 ^ W = x mod 2 ^ W"
  by (simp add: le_imp_power_dvd mod_mod_cancel)

lemma apval_Extract:
  assumes "wf_apint c" "off + W \<le> getBitWidth c"
  shows "apval (ConstantExpr_Extract c off W) = apval c div 2 ^ off mod 2 ^ W"
proof -
  have "apval (ConstantExpr_Extract c off W) =
        sgn_val (getBitWidth c) (apval c) div 2 ^ off mod 2 ^ W"
    using assms by (simp add: ConstantExpr_Extract_def drop_bit_eq_div mod_pow2_mod)
  also have "\<dots> = apval c div 2 ^ off mod 2 ^ W"
    by (rule extract_bits [OF assms(2)]) simp
  finally show ?thesis .
qed

lemma apval_ZExt:
  assumes "wf_apint c" "getBitWidth c \<le> W"
  shows "apval (ConstantExpr_ZExt c W) = apval c"
proof -
  have "(2::int) ^ getBitWidth c \<le> 2 ^ W" using assms(2) by simp
  with wf_apintD(3) [OF assms(1)] have "apval c < 2 ^ W" by linarith
  then show ?thesis
    using wf_apintD [OF assms(1)] by (simp add: ConstantExpr_ZExt_def mod_pow2_small)
qed

lemma apval_SExt:
  "wf_apint c \<Longrightarrow> apval (ConstantExpr_SExt c W) = sgn_val (getBitWidth c) (apval c) mod 2 ^ W"
  by (simp add: ConstantExpr_SExt_def)

lemma apval_Neg: "apval (ConstantExpr_Neg c) = (- apval c) mod 2 ^ getBitWidth c"
  by (simp add: ConstantExpr_Neg_def)

lemma apval_Not:
  assumes "wf_apint c"
  shows "apval (ConstantExpr_Not c) = 2 ^ getBitWidth c - 1 - apval c"
proof -
  have "(- apval c - 1) mod 2 ^ getBitWidth c = (2 ^ getBitWidth c - 1 - apval c) mod 2 ^ getBitWidth c"
    using mod_add_self2 [of "- apval c - 1" "2 ^ getBitWidth c"] by (simp add: algebra_simps)
  also have "\<dots> = 2 ^ getBitWidth c - 1 - apval c"
    using wf_apintD [OF assms] by (simp add: mod_pow2_small)
  finally show ?thesis by (simp add: ConstantExpr_Not_def not_eq_complement)
qed

lemma wf_unary [simp]:
  "0 < getBitWidth c + getBitWidth d \<Longrightarrow> wf_apint (ConstantExpr_Concat c d)"
  "0 < W \<Longrightarrow> wf_apint (ConstantExpr_Extract c off W)"
  "0 < W \<Longrightarrow> wf_apint (ConstantExpr_ZExt c W)"
  "0 < W \<Longrightarrow> wf_apint (ConstantExpr_SExt c W)"
  "wf_apint c \<Longrightarrow> wf_apint (ConstantExpr_Neg c)"
  "wf_apint c \<Longrightarrow> wf_apint (ConstantExpr_Not c)"
  by (simp_all add: ConstantExpr_Concat_def ConstantExpr_Extract_def ConstantExpr_ZExt_def
      ConstantExpr_SExt_def ConstantExpr_Neg_def ConstantExpr_Not_def Let_def wf_apintD)

lemma width_unary [simp]:
  "getBitWidth (ConstantExpr_Concat c d) = getBitWidth c + getBitWidth d"
  "getBitWidth (ConstantExpr_Extract c off W) = W"
  "getBitWidth (ConstantExpr_ZExt c W) = W"
  "getBitWidth (ConstantExpr_SExt c W) = W"
  "getBitWidth (ConstantExpr_Neg c) = getBitWidth c"
  "getBitWidth (ConstantExpr_Not c) = getBitWidth c"
  by (simp_all add: ConstantExpr_Concat_def ConstantExpr_Extract_def ConstantExpr_ZExt_def
      ConstantExpr_SExt_def ConstantExpr_Neg_def ConstantExpr_Not_def Let_def)

lemma isAllOnes_iff: "ConstantExpr_isAllOnes c \<longleftrightarrow> apval c = 2 ^ getBitWidth c - 1"
  by (simp add: ConstantExpr_isAllOnes_def mask_eq_exp_minus_1)

lemma isOne_iff: "ConstantExpr_isOne c \<longleftrightarrow> apval c = 1"
  by (auto simp: ConstantExpr_isOne_def min_def)

end
