(* ===== verification/ER_Expr.thy ===== *)
theory ER_Expr
  imports ER_Constant
begin

unbundle bit_operations_syntax

text \<open>
  The expression language of \<^verbatim>\<open>include/klee/Expr/Expr.h\<close>: arrays, update lists
  and the expression classes, their widths, and two notions the other theories
  rest on.  \<open>wf_expr\<close> is the typing discipline that the assertions of the code
  check piecemeal (equal operand widths, extracts in range, casts that widen,
  update lists over the array's domain and range).  \<open>eval\<close> is the value of an
  expression under an initial content of the arrays; \<open>None\<close> is a division
  by zero in an operand.  A select evaluates both arms: the arms are
  values of instructions that have already executed.
\<close>

section \<open>Arrays and expressions\<close>

text \<open>
  An \<^verbatim>\<open>Array\<close> is compared by address in the code; \<open>arr_id\<close> stands for that
  address.  \<open>constantValues\<close> is empty for a symbolic array.
\<close>

record array =
  arr_id :: nat
  arr_name :: string
  arr_size :: nat
  arr_domain :: width
  arr_range :: width
  constantValues :: "apint list"

definition isSymbolicArray :: "array \<Rightarrow> bool" where
  "isSymbolicArray a \<longleftrightarrow> constantValues a = []"

definition isConstantArray :: "array \<Rightarrow> bool" where
  "isConstantArray a \<longleftrightarrow> \<not> isSymbolicArray a"

text \<open>
  A \<^verbatim>\<open>ReadExpr\<close> holds an update list: the root array and the chain of update
  nodes, most recent first.  The 23 binary classes differ in their kind only.
\<close>

datatype expr =
    ConstantExpr apint
  | NotOptimizedExpr expr
  | ReadExpr array "(expr \<times> expr) list" expr
  | SelectExpr expr expr expr
  | ConcatExpr expr expr
  | ExtractExpr expr nat width
  | ZExtExpr expr width
  | SExtExpr expr width
  | NotExpr expr
  | BinaryExpr bkind expr expr

type_synonym updates = "(expr \<times> expr) list"

primrec getWidth :: "expr \<Rightarrow> width" where
  "getWidth (ConstantExpr c) = getBitWidth c"
| "getWidth (NotOptimizedExpr e) = getWidth e"
| "getWidth (ReadExpr a us i) = arr_range a"
| "getWidth (SelectExpr c t f) = getWidth t"
| "getWidth (ConcatExpr l r) = getWidth l + getWidth r"
| "getWidth (ExtractExpr e off w) = w"
| "getWidth (ZExtExpr e w) = w"
| "getWidth (SExtExpr e w) = w"
| "getWidth (NotExpr e) = getWidth e"
| "getWidth (BinaryExpr k l r) = (if is_cmp k then 1 else getWidth l)"

text \<open>The casts \<^verbatim>\<open>dyn_cast<ConstantExpr>\<close> and the test for a binary node with a constant left kid.\<close>

fun as_const :: "expr \<Rightarrow> apint option" where
  "as_const (ConstantExpr c) = Some c"
| "as_const _ = None"

fun dest_constL :: "bkind \<Rightarrow> expr \<Rightarrow> (apint \<times> expr) option" where
  "dest_constL k (BinaryExpr k' (ConstantExpr c) x) = (if k = k' then Some (c, x) else None)"
| "dest_constL k _ = None"

fun Expr_isZero :: "expr \<Rightarrow> bool" where
  "Expr_isZero (ConstantExpr c) = ConstantExpr_isZero c"
| "Expr_isZero _ = False"

lemma as_const_Some [simp]: "as_const e = Some c \<longleftrightarrow> e = ConstantExpr c"
  by (cases e) auto

lemma as_const_None: "as_const e = None \<longleftrightarrow> (\<forall>c. e \<noteq> ConstantExpr c)"
  by (cases e) auto

lemma dest_constL_Some [simp]:
  "dest_constL k e = Some p \<longleftrightarrow> e = BinaryExpr k (ConstantExpr (fst p)) (snd p)"
  by (cases p, induction k e rule: dest_constL.induct) auto

section \<open>Well-formed expressions\<close>

definition wf_array :: "array \<Rightarrow> bool" where
  "wf_array a \<longleftrightarrow>
     0 < arr_domain a \<and> arr_domain a \<le> 64 \<and> 0 < arr_range a \<and>
     (isConstantArray a \<longrightarrow> length (constantValues a) = arr_size a) \<and>
     (\<forall>c \<in> set (constantValues a). wf_apint c \<and> getBitWidth c = arr_range a)"

fun wf_expr :: "expr \<Rightarrow> bool" where
  "wf_expr (ConstantExpr c) = wf_apint c"
| "wf_expr (NotOptimizedExpr e) = wf_expr e"
| "wf_expr (ReadExpr a us i) =
     (wf_array a \<and> wf_expr i \<and> getWidth i = arr_domain a \<and>
      (\<forall>(j, v) \<in> set us. wf_expr j \<and> getWidth j = arr_domain a \<and>
                         wf_expr v \<and> getWidth v = arr_range a))"
| "wf_expr (SelectExpr c t f) =
     (wf_expr c \<and> wf_expr t \<and> wf_expr f \<and> getWidth c = 1 \<and> getWidth t = getWidth f)"
| "wf_expr (ConcatExpr l r) = (wf_expr l \<and> wf_expr r)"
| "wf_expr (ExtractExpr e off w) = (wf_expr e \<and> 0 < w \<and> off + w \<le> getWidth e)"
| "wf_expr (ZExtExpr e w) = (wf_expr e \<and> getWidth e < w)"
| "wf_expr (SExtExpr e w) = (wf_expr e \<and> getWidth e < w)"
| "wf_expr (NotExpr e) = wf_expr e"
| "wf_expr (BinaryExpr k l r) = (wf_expr l \<and> wf_expr r \<and> getWidth l = getWidth r)"

definition wf_updates :: "array \<Rightarrow> updates \<Rightarrow> bool" where
  "wf_updates a us \<longleftrightarrow>
     (\<forall>(j, v) \<in> set us. wf_expr j \<and> getWidth j = arr_domain a \<and>
                        wf_expr v \<and> getWidth v = arr_range a)"

lemma wf_updates_simps [simp]:
  "wf_updates a []"
  "wf_updates a ((j, v) # us) \<longleftrightarrow>
     wf_expr j \<and> getWidth j = arr_domain a \<and> wf_expr v \<and> getWidth v = arr_range a \<and>
     wf_updates a us"
  by (auto simp: wf_updates_def)

lemma wf_ReadExpr:
  "wf_expr (ReadExpr a us i) \<longleftrightarrow>
     wf_array a \<and> wf_expr i \<and> getWidth i = arr_domain a \<and> wf_updates a us"
  by (auto simp: wf_updates_def)

declare wf_expr.simps(3) [simp del]
declare wf_ReadExpr [simp]

lemma wf_width_pos: "wf_expr e \<Longrightarrow> 0 < getWidth e"
  by (induction e) (auto simp: wf_apint_def wf_array_def)

section \<open>The value of an expression\<close>

text \<open>
  The content of an array before any update: the constant values where the array
  has them, the environment elsewhere (also past the end of a constant array,
  as \<^verbatim>\<open>ExprEvaluator::evalRead\<close> does).
\<close>

type_synonym env = "array \<Rightarrow> int \<Rightarrow> int"

definition initial_value :: "env \<Rightarrow> array \<Rightarrow> int \<Rightarrow> int" where
  "initial_value \<sigma> a n =
     (if isConstantArray a \<and> n < int (arr_size a)
      then apval (constantValues a ! nat n) else \<sigma> a n mod 2 ^ arr_range a)"

function eval :: "env \<Rightarrow> expr \<Rightarrow> int option"
  and eval_read :: "env \<Rightarrow> array \<Rightarrow> updates \<Rightarrow> int \<Rightarrow> int option" where
  "eval \<sigma> (ConstantExpr c) = Some (apval c)"
| "eval \<sigma> (NotOptimizedExpr e) = eval \<sigma> e"
| "eval \<sigma> (ReadExpr a us i) = (case eval \<sigma> i of None \<Rightarrow> None | Some n \<Rightarrow> eval_read \<sigma> a us n)"
| "eval \<sigma> (SelectExpr c t f) =
     (case (eval \<sigma> c, eval \<sigma> t, eval \<sigma> f) of
        (Some b, Some x, Some y) \<Rightarrow> Some (if b \<noteq> 0 then x else y) | _ \<Rightarrow> None)"
| "eval \<sigma> (ConcatExpr l r) =
     (case (eval \<sigma> l, eval \<sigma> r) of
        (Some a, Some b) \<Rightarrow> Some (a * 2 ^ getWidth r + b) | _ \<Rightarrow> None)"
| "eval \<sigma> (ExtractExpr e off w) = map_option (\<lambda>a. a div 2 ^ off mod 2 ^ w) (eval \<sigma> e)"
| "eval \<sigma> (ZExtExpr e w) = eval \<sigma> e"
| "eval \<sigma> (SExtExpr e w) = map_option (\<lambda>a. sgn_val (getWidth e) a mod 2 ^ w) (eval \<sigma> e)"
| "eval \<sigma> (NotExpr e) = map_option (\<lambda>a. 2 ^ getWidth e - 1 - a) (eval \<sigma> e)"
| "eval \<sigma> (BinaryExpr k l r) =
     (case (eval \<sigma> l, eval \<sigma> r) of
        (Some a, Some b) \<Rightarrow> bv_sem k (getWidth l) a b | _ \<Rightarrow> None)"
| "eval_read \<sigma> a [] n = Some (initial_value \<sigma> a n)"
| "eval_read \<sigma> a ((j, v) # us) n =
     (case eval \<sigma> j of None \<Rightarrow> None
      | Some m \<Rightarrow> if m = n then eval \<sigma> v else eval_read \<sigma> a us n)"
  by pat_completeness auto
termination
  by (relation "measure (\<lambda>x. case x of Inl (\<sigma>, e) \<Rightarrow> size e
        | Inr (\<sigma>, a, us, n) \<Rightarrow> size_list (size_prod size size) us)")
    auto

lemma initial_value_range:
  assumes "wf_array a" "0 \<le> n"
  shows "0 \<le> initial_value \<sigma> a n" "initial_value \<sigma> a n < 2 ^ arr_range a"
proof -
  have "0 \<le> initial_value \<sigma> a n \<and> initial_value \<sigma> a n < 2 ^ arr_range a"
  proof (cases "isConstantArray a \<and> n < int (arr_size a)")
    case True
    then have "constantValues a ! nat n \<in> set (constantValues a)"
      using assms by (simp add: wf_array_def nat_less_iff)
    then show ?thesis
      using True assms(1) by (auto simp: initial_value_def wf_array_def wf_apint_def)
  next
    case False
    then show ?thesis by (auto simp: initial_value_def)
  qed
  then show "0 \<le> initial_value \<sigma> a n" "initial_value \<sigma> a n < 2 ^ arr_range a" by auto
qed

lemma sgn_val_mod_range: "0 \<le> sgn_val w a mod 2 ^ W" "sgn_val w a mod 2 ^ W < 2 ^ W"
  by simp_all

lemma concat_range:
  assumes "0 \<le> a" "a < 2 ^ m" "0 \<le> b" "b < (2::int) ^ n"
  shows "0 \<le> a * 2 ^ n + b" "a * 2 ^ n + b < 2 ^ (m + n)"
proof -
  have "a * 2 ^ n + b < (a + 1) * 2 ^ n" using assms by (simp add: algebra_simps)
  also have "\<dots> \<le> 2 ^ m * 2 ^ n" using assms by (intro mult_right_mono) auto
  finally show "a * 2 ^ n + b < 2 ^ (m + n)" by (simp add: power_add)
qed (use assms in simp)

lemma pow2_mono_less: "a < 2 ^ m \<Longrightarrow> m \<le> n \<Longrightarrow> a < (2::int) ^ n"
  by (meson less_le_trans one_le_numeral power_increasing)

lemma eval_range_aux:
  "wf_expr e \<Longrightarrow> eval \<sigma> e = Some v \<Longrightarrow> 0 \<le> v \<and> v < 2 ^ getWidth e"
  "wf_array a \<Longrightarrow> wf_updates a us \<Longrightarrow> 0 \<le> n \<Longrightarrow> eval_read \<sigma> a us n = Some v \<Longrightarrow>
     0 \<le> v \<and> v < 2 ^ arr_range a"
proof (induction \<sigma> e and \<sigma> a us n arbitrary: v and v rule: eval_eval_read.induct)
  case (1 \<sigma> c)
  then show ?case by (auto simp: wf_apint_def)
next
  case (2 \<sigma> e)
  then show ?case by simp
next
  case (3 \<sigma> a us i)
  from 3(4) obtain n where n: "eval \<sigma> i = Some n" "eval_read \<sigma> a us n = Some v"
    by (auto split: option.splits)
  from 3(1) [OF _ n(1)] 3(3) have "0 \<le> n" by simp
  with 3(2) [OF n(1) _ _ _ n(2)] 3(3) show ?case by simp
next
  case (4 \<sigma> c t f)
  from 4(5) obtain x y where xy: "eval \<sigma> t = Some x" "eval \<sigma> f = Some y" "v = x \<or> v = y"
    by (auto split: option.splits if_splits)
  from 4(2) [OF _ xy(1)] 4(3) [OF _ xy(2)] 4(4) xy(3) show ?case by auto
next
  case (5 \<sigma> l r)
  from 5(4) obtain a b where ab: "eval \<sigma> l = Some a" "eval \<sigma> r = Some b" "v = a * 2 ^ getWidth r + b"
    by (auto split: option.splits)
  from 5(1) [OF _ ab(1)] 5(2) [OF _ ab(2)] 5(3)
  have "0 \<le> a" "a < 2 ^ getWidth l" "0 \<le> b" "b < 2 ^ getWidth r" by simp_all
  from concat_range [OF this] show ?case by (simp only: ab(3) getWidth.simps)
next
  case (6 \<sigma> e off w)
  then show ?case by auto
next
  case (7 \<sigma> e w)
  then have "0 \<le> v \<and> v < 2 ^ getWidth e" and "getWidth e \<le> w" by simp_all
  then show ?case using pow2_mono_less [of v "getWidth e" w] by simp
next
  case (8 \<sigma> e w)
  then show ?case by auto
next
  case (9 \<sigma> e)
  then obtain a where "eval \<sigma> e = Some a" "v = 2 ^ getWidth e - 1 - a" by auto
  with 9 have "0 \<le> a \<and> a < 2 ^ getWidth e" by simp
  then show ?case using \<open>v = _\<close> by simp
next
  case (10 \<sigma> k l r)
  then obtain a b where ab: "eval \<sigma> l = Some a" "eval \<sigma> r = Some b"
    "bv_sem k (getWidth l) a b = Some v"
    by (auto split: option.splits)
  from 10 ab have "0 \<le> a \<and> a < 2 ^ getWidth l" "0 \<le> b \<and> b < 2 ^ getWidth l" by simp_all
  moreover from 10 have "0 < getWidth l" by (simp add: wf_width_pos)
  ultimately show ?case using bv_sem_range [OF ab(3)] by simp
next
  case (11 \<sigma> a n)
  then have v: "v = initial_value \<sigma> a n" by simp
  show ?case unfolding v using 11(1,3) by (blast intro: initial_value_range)
next
  case (12 \<sigma> a j v us n)
  then obtain m where "eval \<sigma> j = Some m" by (auto split: option.splits)
  with 12 show ?case by (simp split: if_splits)
qed

lemma eval_range:
  assumes "wf_expr e" "eval \<sigma> e = Some v"
  shows "0 \<le> v" "v < 2 ^ getWidth e"
  using eval_range_aux(1) [OF assms] by auto

lemma eval_bool:
  "wf_expr e \<Longrightarrow> eval \<sigma> e = Some v \<Longrightarrow> getWidth e = 1 \<Longrightarrow> v = 0 \<or> v = 1"
  using eval_range [of e \<sigma> v] by auto

section \<open>Refinement of expressions\<close>

text \<open>
  A rewritten expression must have the value of the original wherever the
  original has one; where the original divides by zero it may have any value.
  \<open>creates e r\<close>: a constructor call \<open>r\<close> that stands for the node \<open>e\<close> passes
  all its assertions and returns a well-formed refinement of \<open>e\<close>.
\<close>

definition refines :: "expr \<Rightarrow> expr \<Rightarrow> bool" where
  "refines e e' \<longleftrightarrow> (\<forall>\<sigma> v. eval \<sigma> e = Some v \<longrightarrow> eval \<sigma> e' = Some v)"

definition creates :: "expr \<Rightarrow> expr option \<Rightarrow> bool" where
  "creates e r \<longleftrightarrow>
     (\<exists>e'. r = Some e' \<and> wf_expr e' \<and> getWidth e' = getWidth e \<and> refines e e')"

lemma refinesI: "(\<And>\<sigma> v. eval \<sigma> e = Some v \<Longrightarrow> eval \<sigma> e' = Some v) \<Longrightarrow> refines e e'"
  by (simp add: refines_def)

lemma refinesD: "refines e e' \<Longrightarrow> eval \<sigma> e = Some v \<Longrightarrow> eval \<sigma> e' = Some v"
  by (simp add: refines_def)

lemma refines_refl [simp]: "refines e e"
  by (simp add: refines_def)

lemma refines_trans: "refines e e' \<Longrightarrow> refines e' e'' \<Longrightarrow> refines e e''"
  by (simp add: refines_def)

lemma refines_Binary:
  "refines l l' \<Longrightarrow> refines r r' \<Longrightarrow> getWidth l' = getWidth l \<Longrightarrow>
   refines (BinaryExpr k l r) (BinaryExpr k l' r')"
  by (auto simp: refines_def split: option.splits)

lemma refines_Concat:
  "refines l l' \<Longrightarrow> refines r r' \<Longrightarrow> getWidth r' = getWidth r \<Longrightarrow>
   refines (ConcatExpr l r) (ConcatExpr l' r')"
  by (auto simp: refines_def split: option.splits)

lemma refines_Select:
  "refines c c' \<Longrightarrow> refines t t' \<Longrightarrow> refines f f' \<Longrightarrow>
   refines (SelectExpr c t f) (SelectExpr c' t' f')"
  by (auto simp: refines_def split: option.splits)

lemma refines_Not:
  "refines e e' \<Longrightarrow> getWidth e' = getWidth e \<Longrightarrow> refines (NotExpr e) (NotExpr e')"
  by (auto simp: refines_def)

lemma createsI:
  "wf_expr e' \<Longrightarrow> getWidth e' = getWidth e \<Longrightarrow> refines e e' \<Longrightarrow> creates e (Some e')"
  by (simp add: creates_def)

lemma createsE:
  assumes "creates e r"
  obtains e' where "r = Some e'" "wf_expr e'" "getWidth e' = getWidth e" "refines e e'"
  using assms by (auto simp: creates_def)

lemma creates_Some: 
  "creates e (Some e') \<longleftrightarrow> wf_expr e' \<and> getWidth e' = getWidth e \<and> refines e e'"
  by (simp add: creates_def)

lemma creates_alloc [simp]: "wf_expr e \<Longrightarrow> creates e (Some e)"
  by (simp add: creates_def)

lemma creates_refines:
  "creates e' r \<Longrightarrow> refines e e' \<Longrightarrow> getWidth e' = getWidth e \<Longrightarrow> creates e r"
  by (auto simp: creates_def intro: refines_trans)

lemma creates_bind:
  assumes "creates e m"
    and "\<And>x. wf_expr x \<Longrightarrow> getWidth x = getWidth e \<Longrightarrow> refines e x \<Longrightarrow> creates e' (f x)"
  shows "creates e' (Option.bind m f)"
  using assms(1) by (rule createsE) (use assms(2) in auto)

end
