(* ===== verification/ER_ExprCreate.thy ===== *)
theory ER_ExprCreate
  imports ER_Expr
begin

unbundle bit_operations_syntax

text \<open>
  The smart constructors of \<^verbatim>\<open>lib/Expr/Expr.cpp\<close>: every \<^verbatim>\<open>X::create\<close> with the
  static helpers it dispatches to (\<^verbatim>\<open>_createPartial\<close>, \<^verbatim>\<open>_createPartialR\<close>,
  \<^verbatim>\<open>_create\<close>).  A result \<open>None\<close> is a failed assertion.  A helper that the code
  names like the class method carries the suffix \<open>_static\<close>.  The theorems say that
  each constructor, called on well-formed operands of the right widths, passes
  its assertions and returns a well-formed refinement of the plain node.
\<close>

section \<open>Constants and the dispatch macros\<close>

definition ConstantExpr_alloc :: "int \<Rightarrow> width \<Rightarrow> expr" where
  "ConstantExpr_alloc v w = ConstantExpr (apint_of w v)"

definition fold_const :: "bkind \<Rightarrow> apint \<Rightarrow> apint \<Rightarrow> expr option" where
  "fold_const k cl cr = map_option ConstantExpr (ConstantExpr_op k cl cr)"

text \<open>\<^verbatim>\<open>BCREATE_R\<close> and \<^verbatim>\<open>CMPCREATE_T\<close>: fold two constants, else hand one constant to a partial helper.\<close>

definition BCREATE_R ::
    "bkind \<Rightarrow> (expr \<Rightarrow> apint \<Rightarrow> expr option) \<Rightarrow> (apint \<Rightarrow> expr \<Rightarrow> expr option) \<Rightarrow>
     (expr \<Rightarrow> expr \<Rightarrow> expr option) \<Rightarrow> expr \<Rightarrow> expr \<Rightarrow> expr option" where
  "BCREATE_R k partialL partialR static l r =
     (if getWidth l \<noteq> getWidth r then None
      else case as_const l of
        Some cl \<Rightarrow> (case as_const r of Some cr \<Rightarrow> fold_const k cl cr | None \<Rightarrow> partialR cl r)
      | None \<Rightarrow> (case as_const r of Some cr \<Rightarrow> partialL l cr | None \<Rightarrow> static l r))"

text \<open>\<^verbatim>\<open>BCREATE\<close> and \<^verbatim>\<open>CMPCREATE\<close>: fold two constants only.\<close>

definition BCREATE ::
    "bkind \<Rightarrow> (expr \<Rightarrow> expr \<Rightarrow> expr option) \<Rightarrow> expr \<Rightarrow> expr \<Rightarrow> expr option" where
  "BCREATE k static l r =
     (if getWidth l \<noteq> getWidth r then None
      else case (as_const l, as_const r) of
        (Some cl, Some cr) \<Rightarrow> fold_const k cl cr
      | _ \<Rightarrow> static l r)"

section \<open>And, Or\<close>

definition AndExpr_createPartial :: "expr \<Rightarrow> apint \<Rightarrow> expr option" where
  "AndExpr_createPartial l cr =
     (if ConstantExpr_isAllOnes cr then Some l
      else if ConstantExpr_isZero cr then Some (ConstantExpr cr)
      else Some (BinaryExpr And l (ConstantExpr cr)))"

definition AndExpr_createPartialR :: "apint \<Rightarrow> expr \<Rightarrow> expr option" where
  "AndExpr_createPartialR cl r = AndExpr_createPartial r cl"

definition AndExpr_create_static :: "expr \<Rightarrow> expr \<Rightarrow> expr option" where
  "AndExpr_create_static l r = Some (BinaryExpr And l r)"

definition AndExpr_create :: "expr \<Rightarrow> expr \<Rightarrow> expr option" where
  "AndExpr_create =
     BCREATE_R And AndExpr_createPartial AndExpr_createPartialR AndExpr_create_static"

definition OrExpr_createPartial :: "expr \<Rightarrow> apint \<Rightarrow> expr option" where
  "OrExpr_createPartial l cr =
     (if ConstantExpr_isAllOnes cr then Some (ConstantExpr cr)
      else if ConstantExpr_isZero cr then Some l
      else Some (BinaryExpr Or l (ConstantExpr cr)))"

definition OrExpr_createPartialR :: "apint \<Rightarrow> expr \<Rightarrow> expr option" where
  "OrExpr_createPartialR cl r = OrExpr_createPartial r cl"

definition OrExpr_create_static :: "expr \<Rightarrow> expr \<Rightarrow> expr option" where
  "OrExpr_create_static l r = Some (BinaryExpr Or l r)"

definition OrExpr_create :: "expr \<Rightarrow> expr \<Rightarrow> expr option" where
  "OrExpr_create =
     BCREATE_R Or OrExpr_createPartial OrExpr_createPartialR OrExpr_create_static"

section \<open>Eq\<close>

text \<open>The command line option \<^verbatim>\<open>-const-array-opt\<close> at its default.\<close>

definition ConstArrayOpt :: bool where
  "ConstArrayOpt = False"

definition EqExpr_create_static :: "expr \<Rightarrow> expr \<Rightarrow> expr option" where
  "EqExpr_create_static l r =
     (if l = r then Some (ConstantExpr_alloc 1 1) else Some (BinaryExpr Eq l r))"

text \<open>
  The loop of \<^verbatim>\<open>TryConstArrayOpt\<close> over the constant values from position \<open>i\<close>:
  \<open>mk i\<close> is the call \<^verbatim>\<open>EqExpr::create\<close> of the index with \<open>i\<close>, \<open>n\<close> the number of
  matches so far, \<open>giveup\<close> the equality itself.
\<close>

fun TryConstArrayOpt_loop ::
    "(nat \<Rightarrow> expr option) \<Rightarrow> expr option \<Rightarrow> apint \<Rightarrow> apint list \<Rightarrow> nat \<Rightarrow> nat \<Rightarrow> expr \<Rightarrow> expr option"
where
  "TryConstArrayOpt_loop mk giveup cl [] i n res = Some res"
| "TryConstArrayOpt_loop mk giveup cl (v # vs) i n res =
     (if cl = v then
        (if n + 1 > 100 then giveup
         else do { mayBe \<leftarrow> mk i;
                   res' \<leftarrow> OrExpr_create res mayBe;
                   TryConstArrayOpt_loop mk giveup cl vs (i + 1) (n + 1) res' })
      else TryConstArrayOpt_loop mk giveup cl vs (i + 1) n res)"

definition TryConstArrayOpt ::
    "(nat \<Rightarrow> expr option) \<Rightarrow> apint \<Rightarrow> array \<Rightarrow> updates \<Rightarrow> expr \<Rightarrow> expr option" where
  "TryConstArrayOpt mk cl a us idx =
     (let giveup = EqExpr_create_static (ConstantExpr cl) (ReadExpr a us idx)
      in if isSymbolicArray a \<or> us \<noteq> [] then giveup
         else TryConstArrayOpt_loop mk giveup cl (constantValues a) 0 0 (ConstantExpr_alloc 0 1))"

function EqExpr_create :: "expr \<Rightarrow> expr \<Rightarrow> expr option"
  and EqExpr_createPartialR :: "apint \<Rightarrow> expr \<Rightarrow> expr option" where
  "EqExpr_create l r =
     (if getWidth l \<noteq> getWidth r then None
      else case as_const l of
        Some cl \<Rightarrow>
          (case as_const r of Some cr \<Rightarrow> fold_const Eq cl cr | None \<Rightarrow> EqExpr_createPartialR cl r)
      | None \<Rightarrow>
          (case as_const r of Some cr \<Rightarrow> EqExpr_createPartialR cr l
           | None \<Rightarrow> EqExpr_create_static l r))"
| "EqExpr_createPartialR cl r =
     (let width = getBitWidth cl; dflt = EqExpr_create_static (ConstantExpr cl) r in
      if width = 1 then
        (if ConstantExpr_isTrue cl then Some r
         else case r of
           BinaryExpr k x y \<Rightarrow>
             if k = Eq then
               (case as_const x of
                  Some ce \<Rightarrow> if getBitWidth ce = 1 \<and> ConstantExpr_isFalse ce then Some y else dflt
                | None \<Rightarrow> dflt)
             else if k = Or then
               do { nx \<leftarrow> EqExpr_create x (ConstantExpr_alloc 0 (getWidth x));
                    ny \<leftarrow> EqExpr_create y (ConstantExpr_alloc 0 (getWidth y));
                    AndExpr_create nx ny }
             else dflt
         | _ \<Rightarrow> dflt)
      else case r of
        SExtExpr src w \<Rightarrow>
          (let trunc = ConstantExpr_ZExt cl (getWidth src) in
           if ConstantExpr_SExt trunc width = cl then EqExpr_create src (ConstantExpr trunc)
           else Some (ConstantExpr_alloc 0 1))
      | ZExtExpr src w \<Rightarrow>
          (let trunc = ConstantExpr_ZExt cl (getWidth src) in
           if ConstantExpr_ZExt trunc width = cl then EqExpr_create src (ConstantExpr trunc)
           else Some (ConstantExpr_alloc 0 1))
      | BinaryExpr k x y \<Rightarrow>
          if k = Add then
            (case as_const x of
               Some c1 \<Rightarrow> do { d \<leftarrow> ConstantExpr_op Sub cl c1; EqExpr_createPartialR d y }
             | None \<Rightarrow> dflt)
          else if k = Sub then
            (case as_const x of
               Some c1 \<Rightarrow> do { d \<leftarrow> ConstantExpr_op Sub c1 cl; EqExpr_createPartialR d y }
             | None \<Rightarrow> dflt)
          else dflt
      | ReadExpr a us idx \<Rightarrow>
          if ConstArrayOpt then
            TryConstArrayOpt
              (\<lambda>i. EqExpr_create idx (ConstantExpr_alloc (int i) (getWidth idx))) cl a us idx
          else dflt
      | _ \<Rightarrow> dflt)"
  by pat_completeness auto
termination
  by (relation "measure (\<lambda>x. case x of Inl (l, r) \<Rightarrow> 2 * (size l + size r) + 1
        | Inr (cl, r) \<Rightarrow> 2 * (size (ConstantExpr cl) + size r))")
    (auto simp: ConstantExpr_alloc_def)

declare EqExpr_create.simps [simp del] EqExpr_createPartialR.simps [simp del]

definition EqExpr_createPartial :: "expr \<Rightarrow> apint \<Rightarrow> expr option" where
  "EqExpr_createPartial l cr = EqExpr_createPartialR cr l"

definition createIsZero :: "expr \<Rightarrow> expr option" where
  "createIsZero e = EqExpr_create e (ConstantExpr_alloc 0 (getWidth e))"

definition createImplies :: "expr \<Rightarrow> expr \<Rightarrow> expr option" where
  "createImplies hyp conc = do { nh \<leftarrow> createIsZero hyp; OrExpr_create nh conc }"

definition NeExpr_create :: "expr \<Rightarrow> expr \<Rightarrow> expr option" where
  "NeExpr_create l r = do { e \<leftarrow> EqExpr_create l r; EqExpr_create (ConstantExpr_alloc 0 1) e }"

section \<open>Xor\<close>

definition XorExpr_createPartialR :: "apint \<Rightarrow> expr \<Rightarrow> expr option" where
  "XorExpr_createPartialR cl r =
     (if ConstantExpr_isZero cl then Some r
      else if getBitWidth cl = 1 then EqExpr_createPartial r (apint_of 1 0)
      else Some (BinaryExpr Xor (ConstantExpr cl) r))"

definition XorExpr_createPartial :: "expr \<Rightarrow> apint \<Rightarrow> expr option" where
  "XorExpr_createPartial l cr = XorExpr_createPartialR cr l"

definition XorExpr_create_static :: "expr \<Rightarrow> expr \<Rightarrow> expr option" where
  "XorExpr_create_static l r = Some (BinaryExpr Xor l r)"

definition XorExpr_create :: "expr \<Rightarrow> expr \<Rightarrow> expr option" where
  "XorExpr_create =
     BCREATE_R Xor XorExpr_createPartial XorExpr_createPartialR XorExpr_create_static"

section \<open>Soundness: shared lemmas\<close>

lemma wf_ConstantExpr_alloc [simp]: "wf_expr (ConstantExpr_alloc v w) \<longleftrightarrow> 0 < w"
  by (simp add: ConstantExpr_alloc_def)

lemma getWidth_ConstantExpr_alloc [simp]: "getWidth (ConstantExpr_alloc v w) = w"
  by (simp add: ConstantExpr_alloc_def)

lemma eval_ConstantExpr_alloc [simp]: "eval \<sigma> (ConstantExpr_alloc v w) = Some (v mod 2 ^ w)"
  by (simp add: ConstantExpr_alloc_def)

lemma eval_Binary_Some:
  "eval \<sigma> (BinaryExpr k l r) = Some v \<longleftrightarrow>
     (\<exists>a b. eval \<sigma> l = Some a \<and> eval \<sigma> r = Some b \<and> bv_sem k (getWidth l) a b = Some v)"
  by (auto split: option.splits)

lemma refines_BinaryI:
  assumes "wf_expr l" "wf_expr r" "getWidth l = getWidth r"
    and "\<And>\<sigma> a b v. eval \<sigma> l = Some a \<Longrightarrow> eval \<sigma> r = Some b \<Longrightarrow>
           0 \<le> a \<Longrightarrow> a < 2 ^ getWidth l \<Longrightarrow> 0 \<le> b \<Longrightarrow> b < 2 ^ getWidth l \<Longrightarrow>
           bv_sem k (getWidth l) a b = Some v \<Longrightarrow> eval \<sigma> e' = Some v"
  shows "refines (BinaryExpr k l r) e'"
proof (rule refinesI)
  fix \<sigma> v
  assume "eval \<sigma> (BinaryExpr k l r) = Some v"
  then obtain a b where ab: "eval \<sigma> l = Some a" "eval \<sigma> r = Some b"
    "bv_sem k (getWidth l) a b = Some v"
    by (auto simp only: eval_Binary_Some)
  show "eval \<sigma> e' = Some v"
    using assms(4) [OF ab(1,2) _ _ _ _ ab(3)] eval_range [OF assms(1) ab(1)]
      eval_range [OF assms(2) ab(2)] assms(3) by simp
qed

lemma creates_BinaryI:
  assumes "wf_expr (BinaryExpr k l r)" "wf_expr e'" "getWidth e' = getWidth (BinaryExpr k l r)"
    and "\<And>\<sigma> a b v. eval \<sigma> l = Some a \<Longrightarrow> eval \<sigma> r = Some b \<Longrightarrow>
           0 \<le> a \<Longrightarrow> a < 2 ^ getWidth l \<Longrightarrow> 0 \<le> b \<Longrightarrow> b < 2 ^ getWidth l \<Longrightarrow>
           bv_sem k (getWidth l) a b = Some v \<Longrightarrow> eval \<sigma> e' = Some v"
  shows "creates (BinaryExpr k l r) (Some e')"
  using assms by (intro createsI refines_BinaryI) auto

lemma creates_fold_const:
  assumes "wf_expr (BinaryExpr k (ConstantExpr cl) (ConstantExpr cr))"
    and "\<not> (is_div k \<and> apval cr = 0)"
  shows "creates (BinaryExpr k (ConstantExpr cl) (ConstantExpr cr)) (fold_const k cl cr)"
proof -
  let ?v = "bv_sem k (getBitWidth cl) (apval cl) (apval cr)"
  from assms(1) have wf: "wf_apint cl" "wf_apint cr" "getBitWidth cl = getBitWidth cr" by auto
  have "?v \<noteq> None" using assms(2) by (simp add: bv_sem_None_iff)
  with ConstantExpr_op_bv_sem [OF wf, of k] obtain c
    where c: "ConstantExpr_op k cl cr = Some c" "Some (apval c) = ?v"
    by (cases "ConstantExpr_op k cl cr") auto
  show ?thesis
    unfolding fold_const_def c(1)
    using ConstantExpr_op_Some [OF c(1) wf(1,2)] c(2)
    by (auto simp: creates_Some refines_def)
qed

lemma creates_BCREATE_R:
  assumes "wf_expr (BinaryExpr k l r)" "\<not> is_div k"
    and "\<And>cr. r = ConstantExpr cr \<Longrightarrow> as_const l = None \<Longrightarrow> creates (BinaryExpr k l r) (pL l cr)"
    and "\<And>cl. l = ConstantExpr cl \<Longrightarrow> as_const r = None \<Longrightarrow> creates (BinaryExpr k l r) (pR cl r)"
    and "as_const l = None \<Longrightarrow> as_const r = None \<Longrightarrow> creates (BinaryExpr k l r) (st l r)"
  shows "creates (BinaryExpr k l r) (BCREATE_R k pL pR st l r)"
  using assms creates_fold_const [of k]
  by (auto simp: BCREATE_R_def split: option.splits)

lemma creates_BCREATE:
  assumes "wf_expr (BinaryExpr k l r)"
    and "\<And>cl cr. l = ConstantExpr cl \<Longrightarrow> r = ConstantExpr cr \<Longrightarrow> \<not> (is_div k \<and> apval cr = 0)"
    and "creates (BinaryExpr k l r) (st l r)"
  shows "creates (BinaryExpr k l r) (BCREATE k st l r)"
  using assms creates_fold_const [of k]
  by (auto simp: BCREATE_def split: option.splits)

text \<open>A commuted node refines the node for a commutative operator.\<close>

lemma bv_sem_commute:
  "k \<in> {Add, Mul, And, Or, Xor, Eq} \<Longrightarrow> bv_sem k w a b = bv_sem k w b a"
  by (auto simp: ac_simps)

lemma refines_commute:
  assumes "getWidth l = getWidth r" "k \<in> {Add, Mul, And, Or, Xor, Eq}"
  shows "refines (BinaryExpr k l r) (BinaryExpr k r l)"
  unfolding refines_def eval_Binary_Some
  using assms bv_sem_commute [OF assms(2)] by metis

lemma creates_commute:
  assumes "creates (BinaryExpr k l r) x" "getWidth l = getWidth r" "k \<in> {Add, Mul, And, Or, Xor, Eq}"
  shows "creates (BinaryExpr k r l) x"
  by (rule creates_refines [OF assms(1) refines_commute]) (use assms in simp_all)

section \<open>Soundness of And and Or\<close>

lemma and_all_ones: "0 \<le> a \<Longrightarrow> a < 2 ^ w \<Longrightarrow> a AND (2 ^ w - 1) = (a::int)"
  using take_bit_eq_mask [of w a] by (simp add: mask_eq_exp_minus_1 take_bit_int_eq_self)

lemma or_all_ones:
  assumes "0 \<le> a" "a < 2 ^ w"
  shows "a OR (2 ^ w - 1) = (2::int) ^ w - 1"
proof (rule bit_eqI)
  fix n
  have "bit a n \<Longrightarrow> n < w"
    using assms by (metis bit_take_bit_iff take_bit_int_eq_self)
  then show "bit (a OR (2 ^ w - 1)) n \<longleftrightarrow> bit ((2::int) ^ w - 1) n"
    by (auto simp: bit_or_iff bit_mask_iff simp flip: mask_eq_exp_minus_1)
qed

lemma AndExpr_createPartial_sound:
  assumes "wf_expr (BinaryExpr And l (ConstantExpr cr))"
  shows "creates (BinaryExpr And l (ConstantExpr cr)) (AndExpr_createPartial l cr)"
  unfolding AndExpr_createPartial_def
  using assms
  by (auto intro!: creates_BinaryI and_all_ones [symmetric] simp: isAllOnes_iff ConstantExpr_isZero_def)
    (metis and_all_ones)

lemma OrExpr_createPartial_sound:
  assumes "wf_expr (BinaryExpr Or l (ConstantExpr cr))"
  shows "creates (BinaryExpr Or l (ConstantExpr cr)) (OrExpr_createPartial l cr)"
  unfolding OrExpr_createPartial_def
  using assms
  by (auto intro!: creates_BinaryI simp: isAllOnes_iff ConstantExpr_isZero_def)
    (metis or_all_ones)

lemma AndExpr_create_sound:
  assumes "wf_expr (BinaryExpr And l r)"
  shows "creates (BinaryExpr And l r) (AndExpr_create l r)"
  unfolding AndExpr_create_def AndExpr_createPartialR_def AndExpr_create_static_def
  using assms
  by (intro creates_BCREATE_R)
    (auto intro: AndExpr_createPartial_sound creates_commute [OF AndExpr_createPartial_sound])

lemma OrExpr_create_sound:
  assumes "wf_expr (BinaryExpr Or l r)"
  shows "creates (BinaryExpr Or l r) (OrExpr_create l r)"
  unfolding OrExpr_create_def OrExpr_createPartialR_def OrExpr_create_static_def
  using assms
  by (intro creates_BCREATE_R)
    (auto intro: OrExpr_createPartial_sound creates_commute [OF OrExpr_createPartial_sound])

section \<open>Soundness of Eq\<close>

lemma mod_pow2_eq_iff:
  assumes "0 \<le> c" "c < (2::int) ^ w"
  shows "c = x mod 2 ^ w \<longleftrightarrow> 2 ^ w dvd c - x"
  using assms by (metis mod_eq_dvd_iff mod_pow2_small)

lemma apint_of_eq_iff: "apint_of w v = c \<longleftrightarrow> getBitWidth c = w \<and> apval c = v mod 2 ^ w"
  by (cases c) (auto simp: apint_of_def take_bit_eq_mod)

lemma eq_add_iff:
  assumes "0 \<le> b" "b < (2::int) ^ w" "0 \<le> c" "c < 2 ^ w"
  shows "c = (a + b) mod 2 ^ w \<longleftrightarrow> (c - a) mod 2 ^ w = b"
  using mod_pow2_eq_iff [OF assms(1,2), of "c - a"] mod_pow2_eq_iff [OF assms(3,4), of "a + b"]
    dvd_minus_iff [of "2 ^ w" "c - (a + b)"]
  by (auto simp: algebra_simps)

lemma eq_sub_iff:
  assumes "0 \<le> b" "b < (2::int) ^ w" "0 \<le> c" "c < 2 ^ w"
  shows "c = (a - b) mod 2 ^ w \<longleftrightarrow> (a - c) mod 2 ^ w = b"
  using mod_pow2_eq_iff [OF assms(1,2), of "a - c"] mod_pow2_eq_iff [OF assms(3,4), of "a - b"]
  by (auto simp: algebra_simps)

lemma Sub_const:
  assumes "wf_apint c" "wf_apint d" "getBitWidth c = getBitWidth d"
  obtains e where "ConstantExpr_op Sub c d = Some e" "wf_apint e" "getBitWidth e = getBitWidth c"
    "apval e = (apval c - apval d) mod 2 ^ getBitWidth c"
  using ConstantExpr_op_bv_sem [OF assms, of Sub] ConstantExpr_op_Some [OF _ assms(1,2), of Sub]
  by auto

lemma refines_Eq_Add:
  assumes "wf_expr (BinaryExpr Eq (ConstantExpr cl) (BinaryExpr Add (ConstantExpr c1) y))"
    and "getBitWidth d = getBitWidth cl" "apval d = (apval cl - apval c1) mod 2 ^ getBitWidth cl"
  shows "refines (BinaryExpr Eq (ConstantExpr cl) (BinaryExpr Add (ConstantExpr c1) y))
           (BinaryExpr Eq (ConstantExpr d) y)"
  using assms eval_range [of y] eq_add_iff [of _ "getBitWidth cl" "apval cl" "apval c1"]
  by (intro refinesI) (auto simp: wf_apint_def split: option.splits)

lemma refines_Eq_Sub:
  assumes "wf_expr (BinaryExpr Eq (ConstantExpr cl) (BinaryExpr Sub (ConstantExpr c1) y))"
    and "getBitWidth d = getBitWidth cl" "apval d = (apval c1 - apval cl) mod 2 ^ getBitWidth cl"
  shows "refines (BinaryExpr Eq (ConstantExpr cl) (BinaryExpr Sub (ConstantExpr c1) y))
           (BinaryExpr Eq (ConstantExpr d) y)"
  using assms eval_range [of y] eq_sub_iff [of _ "getBitWidth cl" "apval cl" "apval c1"]
  by (intro refinesI) (auto simp: wf_apint_def split: option.splits)

lemma mod_mod_pow2_le: "W \<le> w \<Longrightarrow> (x::int) mod 2 ^ W mod 2 ^ w = x mod 2 ^ W"
  using pow2_mono_less [of "x mod 2 ^ W" W w] by (simp add: mod_pow2_small)

lemma creates_Eq_ZExt:
  assumes "wf_expr (BinaryExpr Eq (ConstantExpr cl) (ZExtExpr src w))"
    and "t = ConstantExpr_ZExt cl (getWidth src)"
    and "ConstantExpr_ZExt t (getBitWidth cl) = cl \<Longrightarrow> creates (BinaryExpr Eq src (ConstantExpr t)) x"
  shows "creates (BinaryExpr Eq (ConstantExpr cl) (ZExtExpr src w))
    (if ConstantExpr_ZExt t (getBitWidth cl) = cl then x else Some (ConstantExpr_alloc 0 1))"
proof -
  have w: "getWidth src \<le> getBitWidth cl" "wf_apint cl" "w = getBitWidth cl" "wf_expr src"
    using assms(1) by auto
  have t: "apval t = apval cl mod 2 ^ getWidth src" by (simp add: assms(2) ConstantExpr_ZExt_def)
  have ext: "ConstantExpr_ZExt t (getBitWidth cl) = cl \<longleftrightarrow> apval t = apval cl"
    using w mod_mod_pow2_le [OF w(1), of "apval cl"]
    by (auto simp: t ConstantExpr_ZExt_def apint_of_eq_iff)
  show ?thesis
  proof (cases "apval t = apval cl")
    case True
    have "refines (BinaryExpr Eq (ConstantExpr cl) (ZExtExpr src w)) (BinaryExpr Eq src (ConstantExpr t))"
      by (rule refinesI) (auto simp: True bool_val_def split: option.splits)
    then show ?thesis
      using True ext creates_refines [OF assms(3)] by simp
  next
    case False
    have "a \<noteq> apval cl" if "eval \<sigma> src = Some a" for \<sigma> a
      using False t eval_range [OF w(4) that] by (metis mod_pow2_small)
    then show ?thesis
      using False ext assms(1) by (auto intro!: creates_BinaryI; blast)
  qed
qed

lemma creates_Eq_SExt:
  assumes "wf_expr (BinaryExpr Eq (ConstantExpr cl) (SExtExpr src w))"
    and "t = ConstantExpr_ZExt cl (getWidth src)"
    and "ConstantExpr_SExt t (getBitWidth cl) = cl \<Longrightarrow> creates (BinaryExpr Eq src (ConstantExpr t)) x"
  shows "creates (BinaryExpr Eq (ConstantExpr cl) (SExtExpr src w))
    (if ConstantExpr_SExt t (getBitWidth cl) = cl then x else Some (ConstantExpr_alloc 0 1))"
proof -
  let ?n = "getWidth src" and ?W = "getBitWidth cl"
  have w: "?n \<le> ?W" "wf_apint cl" "w = ?W" "wf_expr src" "0 < ?n"
    using assms(1) wf_width_pos [of src] by auto
  have t: "apval t = apval cl mod 2 ^ ?n" "getBitWidth t = ?n" "wf_apint t"
    using w by (simp_all add: assms(2) ConstantExpr_ZExt_def)
  have ext: "ConstantExpr_SExt t ?W = cl \<longleftrightarrow> sgn_val ?n (apval t) mod 2 ^ ?W = apval cl"
    using t by (auto simp: ConstantExpr_SExt_def apint_of_eq_iff)
  have inj: "a = apval t" if "sgn_val ?n a mod 2 ^ ?W = apval cl" "0 \<le> a" "a < 2 ^ ?n" for a
  proof -
    have "apval t = sgn_val ?n a mod 2 ^ ?W mod 2 ^ ?n" by (simp only: t that(1))
    also have "\<dots> = a" using that(2,3) w(1) by (simp add: mod_pow2_mod mod_pow2_small)
    finally show ?thesis by (rule sym)
  qed
  show ?thesis
  proof (cases "sgn_val ?n (apval t) mod 2 ^ ?W = apval cl")
    case True
    have "refines (BinaryExpr Eq (ConstantExpr cl) (SExtExpr src w)) (BinaryExpr Eq src (ConstantExpr t))"
    proof (rule refinesI)
      fix \<sigma> v
      assume "eval \<sigma> (BinaryExpr Eq (ConstantExpr cl) (SExtExpr src w)) = Some v"
      then obtain a where "eval \<sigma> src = Some a" "v = bool_val (apval cl = sgn_val ?n a mod 2 ^ w)"
        by (auto split: option.splits)
      then show "eval \<sigma> (BinaryExpr Eq src (ConstantExpr t)) = Some v"
        using True w inj [of a] eval_range [OF w(4)] by auto
    qed
    then show ?thesis
      using True ext creates_refines [OF assms(3)] by simp
  next
    case False
    have "sgn_val ?n a mod 2 ^ w \<noteq> apval cl" if "eval \<sigma> src = Some a" for \<sigma> a
      using False inj [of a] eval_range [OF w(4) that] w(3) by blast
    then show ?thesis
      using False ext assms(1) by (auto intro!: creates_BinaryI; blast)
  qed
qed

locale binary_create =
  fixes k :: bkind and create :: "expr \<Rightarrow> expr \<Rightarrow> expr option"
  assumes create_sound:
    "wf_expr (BinaryExpr k l r) \<Longrightarrow>
     (is_div k \<Longrightarrow> as_const l \<noteq> None \<Longrightarrow> \<not> Expr_isZero r) \<Longrightarrow>
     creates (BinaryExpr k l r) (create l r)"
begin

lemma create_sound_nodiv: "\<not> is_div k \<Longrightarrow> wf_expr (BinaryExpr k l r) \<Longrightarrow> creates (BinaryExpr k l r) (create l r)"
  by (rule create_sound) auto

lemma create_refined:
  assumes "\<not> is_div k" "getWidth l = getWidth r"
    and "wf_expr l'" "getWidth l' = getWidth l" "refines l l'"
    and "wf_expr r'" "getWidth r' = getWidth r" "refines r r'"
  shows "creates (BinaryExpr k l r) (create l' r')"
  by (rule creates_refines [OF create_sound [of l' r']]) (use assms in \<open>auto intro: refines_Binary\<close>)

lemma create_bind:
  assumes "\<not> is_div k" "getWidth l = getWidth r" "creates l ml" "creates r mr"
  shows "creates (BinaryExpr k l r) (do { l' \<leftarrow> ml; r' \<leftarrow> mr; create l' r' })"
  using assms by (auto elim!: createsE intro!: create_refined)

end

interpretation And_create: binary_create And AndExpr_create
  by unfold_locales (rule AndExpr_create_sound)

interpretation Or_create: binary_create Or OrExpr_create
  by unfold_locales (rule OrExpr_create_sound)

lemma EqExpr_create_static_sound:
  assumes "wf_expr (BinaryExpr Eq l r)"
  shows "creates (BinaryExpr Eq l r) (EqExpr_create_static l r)"
  unfolding EqExpr_create_static_def using assms
  by (auto intro!: creates_BinaryI)

lemma creates_Eq_True:
  assumes "wf_expr (BinaryExpr Eq (ConstantExpr cl) r)" "ConstantExpr_isTrue cl"
  shows "creates (BinaryExpr Eq (ConstantExpr cl) r) (Some r)"
  using assms by (auto intro!: creates_BinaryI simp: ConstantExpr_isTrue_def wf_apint_def bool_val_def)

lemma eval_bool':
  "eval \<sigma> e = Some v \<Longrightarrow> wf_expr e \<Longrightarrow> getWidth e = Suc 0 \<Longrightarrow> v \<noteq> 0 \<Longrightarrow> v = 1"
  using eval_bool [of e \<sigma> v] by simp

lemma creates_Eq_False_Eq_False:
  assumes "wf_expr (BinaryExpr Eq (ConstantExpr cl) (BinaryExpr Eq (ConstantExpr ce) y))"
    "ConstantExpr_isFalse cl" "ConstantExpr_isFalse ce"
  shows "creates (BinaryExpr Eq (ConstantExpr cl) (BinaryExpr Eq (ConstantExpr ce) y)) (Some y)"
  using assms
  by (auto intro!: createsI refinesI simp: ConstantExpr_isFalse_def bool_val_def split: option.splits)
    (metis eval_bool')

lemma refines_Eq_Or:
  assumes "wf_expr (BinaryExpr Eq (ConstantExpr cl) (BinaryExpr Or x y))" "ConstantExpr_isFalse cl"
  shows "refines (BinaryExpr Eq (ConstantExpr cl) (BinaryExpr Or x y))
    (BinaryExpr And (BinaryExpr Eq x (ConstantExpr_alloc 0 (getWidth x)))
                    (BinaryExpr Eq y (ConstantExpr_alloc 0 (getWidth y))))"
  using assms
  by (intro refinesI) (auto simp: ConstantExpr_isFalse_def bool_val_def or_eq_0_iff split: option.splits)


lemma EqExpr_createPartialR_bool:
  assumes "wf_expr (BinaryExpr Eq (ConstantExpr cl) r)" "getBitWidth cl = 1" "\<not> ConstantExpr_isTrue cl"
  shows "ConstantExpr_isFalse cl"
  using assms by (auto simp: ConstantExpr_isTrue_def ConstantExpr_isFalse_def)

lemma EqR_default:
  assumes "getBitWidth cl = 1" "\<not> ConstantExpr_isTrue cl"
    "\<And>ce y. r = BinaryExpr Eq (ConstantExpr ce) y \<Longrightarrow> \<not> ConstantExpr_isFalse ce"
    "\<And>x y. r \<noteq> BinaryExpr Or x y"
  shows "EqExpr_createPartialR cl r = EqExpr_create_static (ConstantExpr cl) r"
proof (cases r)
  case (BinaryExpr k x y)
  then show ?thesis
    using assms(1,2,3) assms(4) [of x y]
    by (cases "as_const x") (simp_all add: EqExpr_createPartialR.simps [of cl "BinaryExpr _ _ _"] Let_def)
qed (use assms(1,2) in \<open>simp_all add: EqExpr_createPartialR.simps\<close>)

lemma EqR_bool_sound:
  assumes wf: "wf_expr (BinaryExpr Eq (ConstantExpr cl) r)" and w: "getBitWidth cl = 1"
    and disj: "\<And>x y. r = BinaryExpr Or x y \<Longrightarrow> \<not> ConstantExpr_isTrue cl \<Longrightarrow>
      creates (BinaryExpr And (BinaryExpr Eq x (ConstantExpr_alloc 0 (getWidth x)))
                              (BinaryExpr Eq y (ConstantExpr_alloc 0 (getWidth y))))
        (do { nx \<leftarrow> EqExpr_create x (ConstantExpr_alloc 0 (getWidth x));
              ny \<leftarrow> EqExpr_create y (ConstantExpr_alloc 0 (getWidth y));
              AndExpr_create nx ny })"
  shows "creates (BinaryExpr Eq (ConstantExpr cl) r) (EqExpr_createPartialR cl r)"
proof (cases "ConstantExpr_isTrue cl")
  case True
  then show ?thesis using creates_Eq_True [OF wf] w by (simp add: EqExpr_createPartialR.simps)
next
  case False
  have f: "ConstantExpr_isFalse cl" by (rule EqExpr_createPartialR_bool [OF wf w False])
  consider (eq) ce y where "r = BinaryExpr Eq (ConstantExpr ce) y" "ConstantExpr_isFalse ce"
    | (disj) x y where "r = BinaryExpr Or x y"
    | (other) "\<And>ce y. r = BinaryExpr Eq (ConstantExpr ce) y \<Longrightarrow> \<not> ConstantExpr_isFalse ce"
        "\<And>x y. r \<noteq> BinaryExpr Or x y"
    by blast
  then show ?thesis
  proof cases
    case eq
    then have "EqExpr_createPartialR cl r = Some y"
      using w False by (simp add: EqExpr_createPartialR.simps [of cl "BinaryExpr _ _ _"] ConstantExpr_isFalse_def)
    then show ?thesis using creates_Eq_False_Eq_False wf eq f by simp
  next
    case disj
    from creates_refines [OF assms(3) [OF disj False] refines_Eq_Or [OF wf [unfolded disj] f]]
    show ?thesis
      using w False by (simp add: disj EqExpr_createPartialR.simps [of cl "BinaryExpr _ _ _"])
  next
    case other
    then show ?thesis using EqR_default [OF w False] EqExpr_create_static_sound [OF wf] by simp
  qed
qed

lemma EqR_Add_sound:
  assumes wf: "wf_expr (BinaryExpr Eq (ConstantExpr cl) (BinaryExpr Add (ConstantExpr c1) y))"
    and w: "getBitWidth cl \<noteq> 1"
    and IH: "\<And>d. ConstantExpr_op Sub cl c1 = Some d \<Longrightarrow> wf_expr (BinaryExpr Eq (ConstantExpr d) y) \<Longrightarrow>
      creates (BinaryExpr Eq (ConstantExpr d) y) (EqExpr_createPartialR d y)"
  shows "creates (BinaryExpr Eq (ConstantExpr cl) (BinaryExpr Add (ConstantExpr c1) y))
    (EqExpr_createPartialR cl (BinaryExpr Add (ConstantExpr c1) y))"
proof -
  obtain d where d: "ConstantExpr_op Sub cl c1 = Some d" "wf_apint d" "getBitWidth d = getBitWidth cl"
    "apval d = (apval cl - apval c1) mod 2 ^ getBitWidth cl"
    by (rule Sub_const [of cl c1]) (use wf in auto)
  then show ?thesis
    using creates_refines [OF IH [OF d(1)] refines_Eq_Add [OF wf d(3,4)]] wf w
    by (simp add: EqExpr_createPartialR.simps [of cl])
qed

lemma EqR_Sub_sound:
  assumes wf: "wf_expr (BinaryExpr Eq (ConstantExpr cl) (BinaryExpr Sub (ConstantExpr c1) y))"
    and w: "getBitWidth cl \<noteq> 1"
    and IH: "\<And>d. ConstantExpr_op Sub c1 cl = Some d \<Longrightarrow> wf_expr (BinaryExpr Eq (ConstantExpr d) y) \<Longrightarrow>
      creates (BinaryExpr Eq (ConstantExpr d) y) (EqExpr_createPartialR d y)"
  shows "creates (BinaryExpr Eq (ConstantExpr cl) (BinaryExpr Sub (ConstantExpr c1) y))
    (EqExpr_createPartialR cl (BinaryExpr Sub (ConstantExpr c1) y))"
proof -
  have c1: "getBitWidth c1 = getBitWidth cl" using wf by simp
  obtain d where d: "ConstantExpr_op Sub c1 cl = Some d" "wf_apint d" "getBitWidth d = getBitWidth c1"
    "apval d = (apval c1 - apval cl) mod 2 ^ getBitWidth c1"
    by (rule Sub_const [of c1 cl]) (use wf in auto)
  then show ?thesis
    using creates_refines [OF IH [OF d(1)] refines_Eq_Sub [OF wf d(3,4) [unfolded c1]]] wf w
    by (simp add: EqExpr_createPartialR.simps [of cl])
qed

lemma EqR_wide_default:
  assumes "getBitWidth cl \<noteq> 1" "\<And>src w. r \<noteq> ZExtExpr src w" "\<And>src w. r \<noteq> SExtExpr src w"
    "\<And>c y. r \<noteq> BinaryExpr Add (ConstantExpr c) y" "\<And>c y. r \<noteq> BinaryExpr Sub (ConstantExpr c) y"
  shows "EqExpr_createPartialR cl r = EqExpr_create_static (ConstantExpr cl) r"
proof (cases r)
  case (BinaryExpr k x y)
  then show ?thesis
    using assms(1) assms(4,5) [of _ y]
    by (cases "as_const x") (auto simp: EqExpr_createPartialR.simps [of cl "BinaryExpr _ _ _"] Let_def)
qed (use assms in \<open>simp_all add: EqExpr_createPartialR.simps ConstArrayOpt_def\<close>)


lemma EqR_wide_sound:
  assumes wf: "wf_expr (BinaryExpr Eq (ConstantExpr cl) r)" and w: "getBitWidth cl \<noteq> 1"
    and zext: "\<And>src w t. r = ZExtExpr src w \<Longrightarrow> t = ConstantExpr_ZExt cl (getWidth src) \<Longrightarrow>
      ConstantExpr_ZExt t (getBitWidth cl) = cl \<Longrightarrow>
      creates (BinaryExpr Eq src (ConstantExpr t)) (EqExpr_create src (ConstantExpr t))"
    and sext: "\<And>src w t. r = SExtExpr src w \<Longrightarrow> t = ConstantExpr_ZExt cl (getWidth src) \<Longrightarrow>
      ConstantExpr_SExt t (getBitWidth cl) = cl \<Longrightarrow>
      creates (BinaryExpr Eq src (ConstantExpr t)) (EqExpr_create src (ConstantExpr t))"
    and add: "\<And>c1 y d. r = BinaryExpr Add (ConstantExpr c1) y \<Longrightarrow> ConstantExpr_op Sub cl c1 = Some d \<Longrightarrow>
      wf_expr (BinaryExpr Eq (ConstantExpr d) y) \<Longrightarrow>
      creates (BinaryExpr Eq (ConstantExpr d) y) (EqExpr_createPartialR d y)"
    and sub: "\<And>c1 y d. r = BinaryExpr Sub (ConstantExpr c1) y \<Longrightarrow> ConstantExpr_op Sub c1 cl = Some d \<Longrightarrow>
      wf_expr (BinaryExpr Eq (ConstantExpr d) y) \<Longrightarrow>
      creates (BinaryExpr Eq (ConstantExpr d) y) (EqExpr_createPartialR d y)"
  shows "creates (BinaryExpr Eq (ConstantExpr cl) r) (EqExpr_createPartialR cl r)"
proof -
  consider (z) src w where "r = ZExtExpr src w" | (s) src w where "r = SExtExpr src w"
    | (a) c y where "r = BinaryExpr Add (ConstantExpr c) y"
    | (b) c y where "r = BinaryExpr Sub (ConstantExpr c) y"
    | (other) "EqExpr_createPartialR cl r = EqExpr_create_static (ConstantExpr cl) r"
    using EqR_wide_default [OF w] by blast
  then show ?thesis
  proof cases
    case z
    then show ?thesis
      using creates_Eq_ZExt [OF wf [unfolded z] refl zext [OF z refl]] w
      by (simp add: EqExpr_createPartialR.simps [of cl "ZExtExpr _ _"] Let_def)
  next
    case s
    then show ?thesis
      using creates_Eq_SExt [OF wf [unfolded s] refl sext [OF s refl]] w
      by (simp add: EqExpr_createPartialR.simps [of cl "SExtExpr _ _"] Let_def)
  next
    case a
    from EqR_Add_sound [OF wf [unfolded a] w add [OF a]] show ?thesis by (simp only: a)
  next
    case b
    from EqR_Sub_sound [OF wf [unfolded b] w sub [OF b]] show ?thesis by (simp only: b)
  next
    case other
    then show ?thesis using EqExpr_create_static_sound [OF wf] by simp
  qed
qed

lemma EqExpr_sound_aux:
  "wf_expr (BinaryExpr Eq l r) \<Longrightarrow> creates (BinaryExpr Eq l r) (EqExpr_create l r)"
  "wf_expr (BinaryExpr Eq (ConstantExpr cl) q) \<Longrightarrow>
     creates (BinaryExpr Eq (ConstantExpr cl) q) (EqExpr_createPartialR cl q)"
proof (induction l r and cl q rule: EqExpr_create_EqExpr_createPartialR.induct)
  case (1 l r)
  then show ?case
    by (auto simp: EqExpr_create.simps [of l r] as_const_None
        intro!: creates_fold_const EqExpr_create_static_sound
        intro: creates_commute split: option.split)
next
  case (2 cl r)
  note wf = 2(8)
  show ?case
  proof (cases "getBitWidth cl = 1")
    case True
    show ?thesis
    proof (rule EqR_bool_sound [OF wf True])
      fix x y
      assume r: "r = BinaryExpr Or x y" and f: "\<not> ConstantExpr_isTrue cl"
      from 2(1) [OF refl refl True f r _ refl] wf r
      have x: "creates (BinaryExpr Eq x (ConstantExpr_alloc 0 (getWidth x)))
          (EqExpr_create x (ConstantExpr_alloc 0 (getWidth x)))"
        by (simp add: wf_width_pos)
      then obtain nx where "EqExpr_create x (ConstantExpr_alloc 0 (getWidth x)) = Some nx"
        by (rule createsE)
      from 2(2) [OF refl refl True f r _ refl this] wf r
      have y: "creates (BinaryExpr Eq y (ConstantExpr_alloc 0 (getWidth y)))
          (EqExpr_create y (ConstantExpr_alloc 0 (getWidth y)))"
        by (simp add: wf_width_pos)
      show "creates (BinaryExpr And (BinaryExpr Eq x (ConstantExpr_alloc 0 (getWidth x)))
                              (BinaryExpr Eq y (ConstantExpr_alloc 0 (getWidth y))))
        (do { nx \<leftarrow> EqExpr_create x (ConstantExpr_alloc 0 (getWidth x));
              ny \<leftarrow> EqExpr_create y (ConstantExpr_alloc 0 (getWidth y));
              AndExpr_create nx ny })"
        by (rule And_create.create_bind [OF _ _ x y]) simp_all
    qed
  next
    case False
    show ?thesis
    proof (rule EqR_wide_sound [OF wf False])
      fix src w and t assume "r = ZExtExpr src w" "t = ConstantExpr_ZExt cl (getWidth src)"
        "ConstantExpr_ZExt t (getBitWidth cl) = cl"
      from 2(4) [OF refl refl False this] this wf
      show "creates (BinaryExpr Eq src (ConstantExpr t)) (EqExpr_create src (ConstantExpr t))"
        by (simp add: wf_width_pos)
    next
      fix src w and t assume "r = SExtExpr src w" "t = ConstantExpr_ZExt cl (getWidth src)"
        "ConstantExpr_SExt t (getBitWidth cl) = cl"
      from 2(5) [OF refl refl False this] this wf
      show "creates (BinaryExpr Eq src (ConstantExpr t)) (EqExpr_create src (ConstantExpr t))"
        by (simp add: wf_width_pos)
    qed (use 2(6,7) [OF refl refl False] in auto)
  qed
qed


lemmas EqExpr_create_sound = EqExpr_sound_aux(1)
lemmas EqExpr_createPartialR_sound = EqExpr_sound_aux(2)

interpretation Eq_create: binary_create Eq EqExpr_create
  by unfold_locales (rule EqExpr_create_sound)

lemma createIsZero_sound:
  "wf_expr e \<Longrightarrow> creates (BinaryExpr Eq e (ConstantExpr_alloc 0 (getWidth e))) (createIsZero e)"
  unfolding createIsZero_def by (rule EqExpr_create_sound) (simp add: wf_width_pos)

lemma createImplies_sound:
  assumes "wf_expr hyp" "wf_expr conc" "getWidth hyp = 1" "getWidth conc = 1"
  shows "creates (BinaryExpr Or (BinaryExpr Eq hyp (ConstantExpr_alloc 0 1)) conc)
           (createImplies hyp conc)"
  using Or_create.create_bind [OF _ _ createIsZero_sound [OF assms(1)] creates_alloc [OF assms(2)]]
    assms
  by (simp add: createImplies_def)

lemma refines_Ne:
  assumes "getWidth l = getWidth r"
  shows "refines (BinaryExpr Ne l r) (BinaryExpr Eq (ConstantExpr_alloc 0 1) (BinaryExpr Eq l r))"
  using assms by (intro refinesI) (auto simp: bool_val_def split: option.splits)

lemma NeExpr_create_sound:
  assumes "wf_expr (BinaryExpr Ne l r)"
  shows "creates (BinaryExpr Ne l r) (NeExpr_create l r)"
proof -
  have "creates (BinaryExpr Eq (ConstantExpr_alloc 0 1) (BinaryExpr Eq l r)) (NeExpr_create l r)"
    using Eq_create.create_bind [OF _ _ creates_alloc [of "ConstantExpr_alloc 0 1"] EqExpr_create_sound [of l r]]
      assms by (simp add: NeExpr_create_def)
  then show ?thesis
    using assms by (auto intro: creates_refines [OF _ refines_Ne])
qed

interpretation Ne_create: binary_create Ne NeExpr_create
  by unfold_locales (rule NeExpr_create_sound)

section \<open>Soundness of Xor\<close>

lemma refines_Xor_bool:
  assumes "wf_expr (BinaryExpr Xor (ConstantExpr cl) r)" "getBitWidth cl = 1" "\<not> ConstantExpr_isZero cl"
  shows "refines (BinaryExpr Xor (ConstantExpr cl) r) (BinaryExpr Eq (ConstantExpr (apint_of 1 0)) r)"
proof (rule refines_BinaryI)
  fix \<sigma> a b v
  assume "eval \<sigma> (ConstantExpr cl) = Some a" "eval \<sigma> r = Some b" "0 \<le> b" "b < 2 ^ getWidth (ConstantExpr cl)"
    "bv_sem Xor (getWidth (ConstantExpr cl)) a b = Some v"
  moreover have "apval cl = 1"
    using assms by (auto simp: wf_apint_def ConstantExpr_isZero_def)
  ultimately show "eval \<sigma> (BinaryExpr Eq (ConstantExpr (apint_of 1 0)) r) = Some v"
    using assms(2) bit_value_cases [of b] by (auto simp: bool_val_def)
qed (use assms in auto)

lemma XorExpr_createPartialR_sound:
  assumes "wf_expr (BinaryExpr Xor (ConstantExpr cl) r)"
  shows "creates (BinaryExpr Xor (ConstantExpr cl) r) (XorExpr_createPartialR cl r)"
proof -
  have "creates (BinaryExpr Xor (ConstantExpr cl) r) (EqExpr_createPartial r (apint_of 1 0))"
    if "getBitWidth cl = 1" "\<not> ConstantExpr_isZero cl"
    unfolding EqExpr_createPartial_def
    by (rule creates_refines [OF EqExpr_createPartialR_sound refines_Xor_bool [OF assms that]])
      (use assms that in auto)
  then show ?thesis
    using assms
    by (auto simp: XorExpr_createPartialR_def ConstantExpr_isZero_def intro!: creates_BinaryI)
qed

lemma XorExpr_create_sound:
  assumes "wf_expr (BinaryExpr Xor l r)"
  shows "creates (BinaryExpr Xor l r) (XorExpr_create l r)"
  unfolding XorExpr_create_def XorExpr_createPartial_def XorExpr_create_static_def
  using assms
  by (intro creates_BCREATE_R)
    (auto intro: XorExpr_createPartialR_sound creates_commute [OF XorExpr_createPartialR_sound])

interpretation Xor_create: binary_create Xor XorExpr_create
  by unfold_locales (rule XorExpr_create_sound)

end
