(* ===== verification/ER_ExprArith.thy ===== *)
theory ER_ExprArith
  imports ER_ExprCreate
begin

unbundle bit_operations_syntax

text \<open>
  The arithmetic, shift and ordering constructors of \<^verbatim>\<open>lib/Expr/Expr.cpp\<close>, and
  their soundness.  Addition and subtraction reassociate constants to the left
  and call each other: the helpers with a constant left operand recurse on the
  right operand, the helpers without one on both operands.
\<close>

section \<open>Add and Sub\<close>

text \<open>The branches of \<^verbatim>\<open>BCREATE_R\<close> for a constant left operand.\<close>

definition create_constL ::
    "bkind \<Rightarrow> (apint \<Rightarrow> expr \<Rightarrow> expr option) \<Rightarrow> apint \<Rightarrow> expr \<Rightarrow> expr option" where
  "create_constL k partialR cl r =
     (if getBitWidth cl \<noteq> getWidth r then None
      else case as_const r of Some cr \<Rightarrow> fold_const k cl cr | None \<Rightarrow> partialR cl r)"

lemma create_constL_cong [fundef_cong]:
  "cl = cl' \<Longrightarrow> r = r' \<Longrightarrow> (as_const r' = None \<Longrightarrow> pR cl' r' = pR' cl' r') \<Longrightarrow>
   create_constL k pR cl r = create_constL k pR' cl' r'"
  by (auto simp: create_constL_def split: option.split)

lemma BCREATE_R_cong [fundef_cong]:
  "l = l' \<Longrightarrow> r = r' \<Longrightarrow> (as_const l' = None \<Longrightarrow> as_const r' = None \<Longrightarrow> st l' r' = st' l' r') \<Longrightarrow>
   BCREATE_R k pL pR st l r = BCREATE_R k pL pR st' l' r'"
  by (auto simp: BCREATE_R_def split: option.split)

function AddExpr_createPartialR :: "apint \<Rightarrow> expr \<Rightarrow> expr option"
  and SubExpr_createPartialR :: "apint \<Rightarrow> expr \<Rightarrow> expr option" where
  "AddExpr_createPartialR cl r =
     (if getBitWidth cl = 1 then XorExpr_createPartialR cl r
      else if ConstantExpr_isZero cl then Some r
      else case dest_constL Add r of
        Some (c, x) \<Rightarrow>
          do { d \<leftarrow> ConstantExpr_op Add cl c; create_constL Add AddExpr_createPartialR d x }
      | None \<Rightarrow> (case dest_constL Sub r of
          Some (c, x) \<Rightarrow>
            do { d \<leftarrow> ConstantExpr_op Add cl c; create_constL Sub SubExpr_createPartialR d x }
        | None \<Rightarrow> Some (BinaryExpr Add (ConstantExpr cl) r)))"
| "SubExpr_createPartialR cl r =
     (if getBitWidth cl = 1 then XorExpr_createPartialR cl r
      else case dest_constL Add r of
        Some (c, x) \<Rightarrow>
          do { d \<leftarrow> ConstantExpr_op Sub cl c; create_constL Sub SubExpr_createPartialR d x }
      | None \<Rightarrow> (case dest_constL Sub r of
          Some (c, x) \<Rightarrow>
            do { d \<leftarrow> ConstantExpr_op Sub cl c; create_constL Add AddExpr_createPartialR d x }
        | None \<Rightarrow> Some (BinaryExpr Sub (ConstantExpr cl) r)))"
  by pat_completeness auto
termination
  by (relation "measure (\<lambda>x. case x of Inl (cl, r) \<Rightarrow> size r | Inr (cl, r) \<Rightarrow> size r)") auto

declare AddExpr_createPartialR.simps [simp del] SubExpr_createPartialR.simps [simp del]

definition AddExpr_createPartial :: "expr \<Rightarrow> apint \<Rightarrow> expr option" where
  "AddExpr_createPartial l cr = AddExpr_createPartialR cr l"

definition SubExpr_createPartial :: "expr \<Rightarrow> apint \<Rightarrow> expr option" where
  "SubExpr_createPartial l cr =
     do { d \<leftarrow> ConstantExpr_op Sub (apint_of (getBitWidth cr) 0) cr; AddExpr_createPartial l d }"

text \<open>
  In the helpers below a call of \<^verbatim>\<open>AddExpr::create\<close> or \<^verbatim>\<open>SubExpr::create\<close> is its
  dispatch by \<open>BCREATE_R\<close>.
\<close>

function AddExpr_create_static :: "expr \<Rightarrow> expr \<Rightarrow> expr option"
  and SubExpr_create_static :: "expr \<Rightarrow> expr \<Rightarrow> expr option" where
  "AddExpr_create_static l r =
     (if getWidth l = 1 then XorExpr_create_static l r
      else case dest_constL Add l of
        Some (k, a) \<Rightarrow>
          do { s \<leftarrow> BCREATE_R Add AddExpr_createPartial AddExpr_createPartialR AddExpr_create_static a r;
               BCREATE_R Add AddExpr_createPartial AddExpr_createPartialR AddExpr_create_static
                 (ConstantExpr k) s }
      | None \<Rightarrow> (case dest_constL Sub l of
        Some (k, a) \<Rightarrow>
          do { s \<leftarrow> BCREATE_R Sub SubExpr_createPartial SubExpr_createPartialR SubExpr_create_static r a;
               BCREATE_R Add AddExpr_createPartial AddExpr_createPartialR AddExpr_create_static
                 (ConstantExpr k) s }
      | None \<Rightarrow> (case dest_constL Add r of
        Some (k, b) \<Rightarrow>
          do { s \<leftarrow> BCREATE_R Add AddExpr_createPartial AddExpr_createPartialR AddExpr_create_static l b;
               BCREATE_R Add AddExpr_createPartial AddExpr_createPartialR AddExpr_create_static
                 (ConstantExpr k) s }
      | None \<Rightarrow> (case dest_constL Sub r of
        Some (k, b) \<Rightarrow>
          do { s \<leftarrow> BCREATE_R Sub SubExpr_createPartial SubExpr_createPartialR SubExpr_create_static l b;
               BCREATE_R Add AddExpr_createPartial AddExpr_createPartialR AddExpr_create_static
                 (ConstantExpr k) s }
      | None \<Rightarrow> Some (BinaryExpr Add l r)))))"
| "SubExpr_create_static l r =
     (if getWidth l = 1 then XorExpr_create_static l r
      else if l = r then Some (ConstantExpr_alloc 0 (getWidth l))
      else case dest_constL Add l of
        Some (k, a) \<Rightarrow>
          do { s \<leftarrow> BCREATE_R Sub SubExpr_createPartial SubExpr_createPartialR SubExpr_create_static a r;
               BCREATE_R Add AddExpr_createPartial AddExpr_createPartialR AddExpr_create_static
                 (ConstantExpr k) s }
      | None \<Rightarrow> (case dest_constL Sub l of
        Some (k, a) \<Rightarrow>
          do { s \<leftarrow> BCREATE_R Add AddExpr_createPartial AddExpr_createPartialR AddExpr_create_static a r;
               BCREATE_R Sub SubExpr_createPartial SubExpr_createPartialR SubExpr_create_static
                 (ConstantExpr k) s }
      | None \<Rightarrow> (case dest_constL Add r of
        Some (k, b) \<Rightarrow>
          do { s \<leftarrow> BCREATE_R Sub SubExpr_createPartial SubExpr_createPartialR SubExpr_create_static l b;
               BCREATE_R Sub SubExpr_createPartial SubExpr_createPartialR SubExpr_create_static
                 s (ConstantExpr k) }
      | None \<Rightarrow> (case dest_constL Sub r of
        Some (k, b) \<Rightarrow>
          do { s \<leftarrow> BCREATE_R Add AddExpr_createPartial AddExpr_createPartialR AddExpr_create_static l b;
               BCREATE_R Sub SubExpr_createPartial SubExpr_createPartialR SubExpr_create_static
                 s (ConstantExpr k) }
      | None \<Rightarrow> Some (BinaryExpr Sub l r)))))"
  by pat_completeness auto
termination
  by (relation "measure (\<lambda>x. case x of Inl (l, r) \<Rightarrow> size l + size r | Inr (l, r) \<Rightarrow> size l + size r)")
    auto

declare AddExpr_create_static.simps [simp del] SubExpr_create_static.simps [simp del]

definition AddExpr_create :: "expr \<Rightarrow> expr \<Rightarrow> expr option" where
  "AddExpr_create =
     BCREATE_R Add AddExpr_createPartial AddExpr_createPartialR AddExpr_create_static"

definition SubExpr_create :: "expr \<Rightarrow> expr \<Rightarrow> expr option" where
  "SubExpr_create =
     BCREATE_R Sub SubExpr_createPartial SubExpr_createPartialR SubExpr_create_static"

section \<open>Soundness of Add and Sub\<close>

lemma op_const:
  assumes "wf_apint c" "wf_apint d" "getBitWidth c = getBitWidth d" "k \<in> {Add, Sub}"
  obtains e where "ConstantExpr_op k c d = Some e" "wf_apint e" "getBitWidth e = getBitWidth c"
    "Some (apval e) = bv_sem k (getBitWidth c) (apval c) (apval d)"
  using ConstantExpr_op_bv_sem [OF assms(1-3), of k] ConstantExpr_op_Some [OF _ assms(1,2), of k] assms(4)
  by auto

lemma creates_create_constL:
  assumes "wf_expr (BinaryExpr k (ConstantExpr cl) r)" "\<not> is_div k"
    and "as_const r = None \<Longrightarrow> creates (BinaryExpr k (ConstantExpr cl) r) (pR cl r)"
  shows "creates (BinaryExpr k (ConstantExpr cl) r) (create_constL k pR cl r)"
  using assms creates_fold_const [of k] by (auto simp: create_constL_def split: option.split)

lemma refines_AddSub_bool:
  assumes "wf_expr (BinaryExpr k l r)" "getWidth l = 1" "k \<in> {Add, Sub}"
  shows "refines (BinaryExpr k l r) (BinaryExpr Xor l r)"
proof (rule refines_BinaryI)
  fix \<sigma> a b v
  assume "eval \<sigma> l = Some a" "eval \<sigma> r = Some b" "0 \<le> a" "a < 2 ^ getWidth l"
    "0 \<le> b" "b < 2 ^ getWidth l" "bv_sem k (getWidth l) a b = Some v"
  then show "eval \<sigma> (BinaryExpr Xor l r) = Some v"
    using assms(2,3) bit_value_cases [of a] bit_value_cases [of b] by auto
qed (use assms in auto)

text \<open>Reassociation of constants, on the nodes.\<close>

lemma refines_reassoc:
  assumes "getWidth k = w" "getWidth a = w" "getWidth b = w"
  shows "refines (BinaryExpr Add (BinaryExpr Add k a) b) (BinaryExpr Add k (BinaryExpr Add a b))"
    "refines (BinaryExpr Add (BinaryExpr Sub k a) b) (BinaryExpr Add k (BinaryExpr Sub b a))"
    "refines (BinaryExpr Add a (BinaryExpr Add k b)) (BinaryExpr Add k (BinaryExpr Add a b))"
    "refines (BinaryExpr Add a (BinaryExpr Sub k b)) (BinaryExpr Add k (BinaryExpr Sub a b))"
    "refines (BinaryExpr Sub (BinaryExpr Add k a) b) (BinaryExpr Add k (BinaryExpr Sub a b))"
    "refines (BinaryExpr Sub (BinaryExpr Sub k a) b) (BinaryExpr Sub k (BinaryExpr Add a b))"
    "refines (BinaryExpr Sub a (BinaryExpr Add k b)) (BinaryExpr Sub (BinaryExpr Sub a b) k)"
    "refines (BinaryExpr Sub a (BinaryExpr Sub k b)) (BinaryExpr Sub (BinaryExpr Add a b) k)"
  using assms by (auto intro!: refinesI simp: mod_simps algebra_simps split: option.splits)

lemma refines_reassoc_const:
  assumes "getBitWidth cl = w" "getBitWidth c = w" "getWidth x = w" "getBitWidth d = w"
  shows "Some (apval d) = bv_sem Add w (apval cl) (apval c) \<Longrightarrow>
      refines (BinaryExpr Add (ConstantExpr cl) (BinaryExpr Add (ConstantExpr c) x)) (BinaryExpr Add (ConstantExpr d) x)"
    "Some (apval d) = bv_sem Add w (apval cl) (apval c) \<Longrightarrow>
      refines (BinaryExpr Add (ConstantExpr cl) (BinaryExpr Sub (ConstantExpr c) x)) (BinaryExpr Sub (ConstantExpr d) x)"
    "Some (apval d) = bv_sem Sub w (apval cl) (apval c) \<Longrightarrow>
      refines (BinaryExpr Sub (ConstantExpr cl) (BinaryExpr Add (ConstantExpr c) x)) (BinaryExpr Sub (ConstantExpr d) x)"
    "Some (apval d) = bv_sem Sub w (apval cl) (apval c) \<Longrightarrow>
      refines (BinaryExpr Sub (ConstantExpr cl) (BinaryExpr Sub (ConstantExpr c) x)) (BinaryExpr Add (ConstantExpr d) x)"
  using assms by (auto intro!: refinesI simp: mod_simps algebra_simps split: option.splits)

lemma creates_reassoc_const:
  assumes wf: "wf_expr (BinaryExpr k (ConstantExpr cl) (BinaryExpr k' (ConstantExpr c) x))"
    and "k \<in> {Add, Sub}" "k' \<in> {Add, Sub}" "k'' = (if k = k' then Add else Sub)"
    and IH: "\<And>d. ConstantExpr_op k cl c = Some d \<Longrightarrow> as_const x = None \<Longrightarrow>
      wf_expr (BinaryExpr k'' (ConstantExpr d) x) \<Longrightarrow> creates (BinaryExpr k'' (ConstantExpr d) x) (pR d x)"
  shows "creates (BinaryExpr k (ConstantExpr cl) (BinaryExpr k' (ConstantExpr c) x))
    (do { d \<leftarrow> ConstantExpr_op k cl c; create_constL k'' pR d x })"
proof -
  obtain d where d: "ConstantExpr_op k cl c = Some d" "wf_apint d" "getBitWidth d = getBitWidth cl"
    "Some (apval d) = bv_sem k (getBitWidth cl) (apval cl) (apval c)"
    by (rule op_const [of cl c k]) (use wf assms(2,3) in auto)
  have k: "\<not> is_cmp k" "\<not> is_cmp k'" "\<not> is_cmp k''" "\<not> is_div k''"
    using assms(2-4) by auto
  have w: "getBitWidth c = getBitWidth cl" "getWidth x = getBitWidth cl" "wf_expr x"
    using wf k by simp_all
  have wf': "wf_expr (BinaryExpr k'' (ConstantExpr d) x)"
    using w d(2,3) by simp
  have r: "refines (BinaryExpr k (ConstantExpr cl) (BinaryExpr k' (ConstantExpr c) x)) (BinaryExpr k'' (ConstantExpr d) x)"
    using refines_reassoc_const [OF refl w(1,2) d(3)] assms(2-4) d(4) by (elim insertE emptyE) simp_all
  show ?thesis
    using creates_refines [OF creates_create_constL [where pR = pR, OF wf' k(4) IH [OF d(1) _ wf']] r]
    by (simp add: d(1,3) k)
qed

lemma AddSub_createPartialR_aux:
  "wf_expr (BinaryExpr Add (ConstantExpr cl) r) \<Longrightarrow>
     creates (BinaryExpr Add (ConstantExpr cl) r) (AddExpr_createPartialR cl r)"
  "wf_expr (BinaryExpr Sub (ConstantExpr cl) r) \<Longrightarrow>
     creates (BinaryExpr Sub (ConstantExpr cl) r) (SubExpr_createPartialR cl r)"
proof (induction cl r and cl r rule: AddExpr_createPartialR_SubExpr_createPartialR.induct)
  case (1 cl r)
  have xor: "getBitWidth cl = 1 \<Longrightarrow> creates (BinaryExpr Add (ConstantExpr cl) r) (XorExpr_createPartialR cl r)"
    using 1(3) refines_AddSub_bool [OF 1(3)]
    by (intro creates_refines [OF XorExpr_createPartialR_sound]) auto
  have zero: "ConstantExpr_isZero cl \<Longrightarrow> creates (BinaryExpr Add (ConstantExpr cl) r) (Some r)"
    using 1(3) by (auto intro!: creates_BinaryI simp: ConstantExpr_isZero_def mod_pow2_small)
  consider (add) c x where "r = BinaryExpr Add (ConstantExpr c) x"
    | (sub) c x where "r = BinaryExpr Sub (ConstantExpr c) x"
    | (other) "dest_constL Add r = None" "dest_constL Sub r = None"
    by (cases "dest_constL Add r"; cases "dest_constL Sub r") (auto simp: prod_eq_iff)
  then show ?case
  proof cases
    case add
    have "creates (BinaryExpr Add (ConstantExpr cl) r) (do { d \<leftarrow> ConstantExpr_op Add cl c; create_constL Add AddExpr_createPartialR d x })"
      if "getBitWidth cl \<noteq> 1" "\<not> ConstantExpr_isZero cl"
      unfolding add by (rule creates_reassoc_const)
        (use 1(2) [OF that, of "(c, x)" c x] add 1(3) in simp_all)
    then show ?thesis using xor zero by (simp add: AddExpr_createPartialR.simps [of cl "BinaryExpr Add _ _"] add)
  next
    case sub
    have "creates (BinaryExpr Add (ConstantExpr cl) r) (do { d \<leftarrow> ConstantExpr_op Add cl c; create_constL Sub SubExpr_createPartialR d x })"
      if "getBitWidth cl \<noteq> 1" "\<not> ConstantExpr_isZero cl"
      unfolding sub by (rule creates_reassoc_const)
        (use 1(1) [OF that, of "(c, x)" c x] sub 1(3) in simp_all)
    then show ?thesis using xor zero by (simp add: AddExpr_createPartialR.simps [of cl "BinaryExpr Sub _ _"] sub)
  next
    case other
    then show ?thesis
      using xor zero 1(3) by (simp add: AddExpr_createPartialR.simps [of cl r])
  qed
next
  case (2 cl r)
  have xor: "getBitWidth cl = 1 \<Longrightarrow> creates (BinaryExpr Sub (ConstantExpr cl) r) (XorExpr_createPartialR cl r)"
    using 2(3) refines_AddSub_bool [OF 2(3)]
    by (intro creates_refines [OF XorExpr_createPartialR_sound]) auto
  consider (add) c x where "r = BinaryExpr Add (ConstantExpr c) x"
    | (sub) c x where "r = BinaryExpr Sub (ConstantExpr c) x"
    | (other) "dest_constL Add r = None" "dest_constL Sub r = None"
    by (cases "dest_constL Add r"; cases "dest_constL Sub r") (auto simp: prod_eq_iff)
  then show ?case
  proof cases
    case add
    have "creates (BinaryExpr Sub (ConstantExpr cl) r) (do { d \<leftarrow> ConstantExpr_op Sub cl c; create_constL Sub SubExpr_createPartialR d x })"
      if "getBitWidth cl \<noteq> 1"
      unfolding add by (rule creates_reassoc_const)
        (use 2(2) [OF that, of "(c, x)" c x] add 2(3) in simp_all)
    then show ?thesis using xor by (simp add: SubExpr_createPartialR.simps [of cl "BinaryExpr Add _ _"] add)
  next
    case sub
    have "creates (BinaryExpr Sub (ConstantExpr cl) r) (do { d \<leftarrow> ConstantExpr_op Sub cl c; create_constL Add AddExpr_createPartialR d x })"
      if "getBitWidth cl \<noteq> 1"
      unfolding sub by (rule creates_reassoc_const)
        (use 2(1) [OF that, of "(c, x)" c x] sub 2(3) in simp_all)
    then show ?thesis using xor by (simp add: SubExpr_createPartialR.simps [of cl "BinaryExpr Sub _ _"] sub)
  next
    case other
    then show ?thesis
      using xor 2(3) by (simp add: SubExpr_createPartialR.simps [of cl r])
  qed
qed


lemmas AddExpr_createPartialR_sound = AddSub_createPartialR_aux(1)
lemmas SubExpr_createPartialR_sound = AddSub_createPartialR_aux(2)

lemma SubExpr_createPartial_sound:
  assumes wf: "wf_expr (BinaryExpr Sub l (ConstantExpr cr))"
  shows "creates (BinaryExpr Sub l (ConstantExpr cr)) (SubExpr_createPartial l cr)"
proof -
  obtain d where d: "ConstantExpr_op Sub (apint_of (getBitWidth cr) 0) cr = Some d" "wf_apint d"
    "getBitWidth d = getBitWidth cr" "apval d = (- apval cr) mod 2 ^ getBitWidth cr"
    by (rule op_const [of "apint_of (getBitWidth cr) 0" cr Sub]) (use wf in \<open>auto simp: wf_apint_def\<close>)
  have "refines (BinaryExpr Sub l (ConstantExpr cr)) (BinaryExpr Add (ConstantExpr d) l)"
    using wf d(3,4) by (auto intro!: refinesI simp: mod_simps split: option.splits)
  from creates_refines [OF AddExpr_createPartialR_sound this] show ?thesis
    using wf d by (simp add: SubExpr_createPartial_def AddExpr_createPartial_def)
qed

text \<open>A constant operand is handled by the helpers above, whatever the remaining helper does.\<close>

lemma creates_BCREATE_R_Add:
  assumes "wf_expr (BinaryExpr Add l r)"
    and "as_const l = None \<Longrightarrow> as_const r = None \<Longrightarrow> creates (BinaryExpr Add l r) (st l r)"
  shows "creates (BinaryExpr Add l r) (BCREATE_R Add AddExpr_createPartial AddExpr_createPartialR st l r)"
  using assms
  by (intro creates_BCREATE_R)
    (auto simp: AddExpr_createPartial_def
      intro: AddExpr_createPartialR_sound creates_commute [OF AddExpr_createPartialR_sound])

lemma creates_BCREATE_R_Sub:
  assumes "wf_expr (BinaryExpr Sub l r)"
    and "as_const l = None \<Longrightarrow> as_const r = None \<Longrightarrow> creates (BinaryExpr Sub l r) (st l r)"
  shows "creates (BinaryExpr Sub l r) (BCREATE_R Sub SubExpr_createPartial SubExpr_createPartialR st l r)"
  using assms
  by (intro creates_BCREATE_R) (auto intro: SubExpr_createPartialR_sound SubExpr_createPartial_sound)

lemma creates_bindL:
  assumes "creates e m"
    "\<And>s. wf_expr s \<Longrightarrow> getWidth s = getWidth e \<Longrightarrow> creates (BinaryExpr k c s) (F s)"
  shows "creates (BinaryExpr k c e) (Option.bind m F)"
  using assms(1)
proof (rule createsE)
  fix s assume s: "m = Some s" "wf_expr s" "getWidth s = getWidth e" "refines e s"
  from creates_refines [OF assms(2) [OF s(2,3)] refines_Binary [OF refines_refl s(4)]] s(1)
  show ?thesis by simp
qed

lemma creates_bindR:
  assumes "creates e m"
    "\<And>s. wf_expr s \<Longrightarrow> getWidth s = getWidth e \<Longrightarrow> creates (BinaryExpr k s c) (F s)"
  shows "creates (BinaryExpr k e c) (Option.bind m F)"
  using assms(1)
proof (rule createsE)
  fix s assume s: "m = Some s" "wf_expr s" "getWidth s = getWidth e" "refines e s"
  from creates_refines [OF assms(2) [OF s(2,3)] refines_Binary [OF s(4) refines_refl s(3)]] s(1,3)
  show ?thesis by simp
qed

lemma creates_Add_const:
  assumes "creates e m" "wf_apint k" "getWidth e = getBitWidth k"
  shows "creates (BinaryExpr Add (ConstantExpr k) e)
    (do { s \<leftarrow> m; AddExpr_create (ConstantExpr k) s })"
  unfolding AddExpr_create_def
  by (rule creates_bindL [OF assms(1) creates_BCREATE_R_Add]) (use assms in simp_all)

lemma creates_Sub_const:
  assumes "creates e m" "wf_apint k" "getWidth e = getBitWidth k"
  shows "creates (BinaryExpr Sub (ConstantExpr k) e)
    (do { s \<leftarrow> m; SubExpr_create (ConstantExpr k) s })"
  unfolding SubExpr_create_def
  by (rule creates_bindL [OF assms(1) creates_BCREATE_R_Sub]) (use assms in simp_all)

lemma creates_Sub_constR:
  assumes "creates e m" "wf_apint k" "getWidth e = getBitWidth k"
  shows "creates (BinaryExpr Sub e (ConstantExpr k))
    (do { s \<leftarrow> m; SubExpr_create s (ConstantExpr k) })"
  unfolding SubExpr_create_def
  by (rule creates_bindR [OF assms(1) creates_BCREATE_R_Sub]) (use assms in simp_all)

lemma reassoc_cases:
  fixes l r :: expr
  obtains (addL) k a where "l = BinaryExpr Add (ConstantExpr k) a"
  | (subL) k a where "l = BinaryExpr Sub (ConstantExpr k) a"
  | (addR) k b where "dest_constL Add l = None" "dest_constL Sub l = None" "r = BinaryExpr Add (ConstantExpr k) b"
  | (subR) k b where "dest_constL Add l = None" "dest_constL Sub l = None" "r = BinaryExpr Sub (ConstantExpr k) b"
  | (other) "dest_constL Add l = None" "dest_constL Sub l = None" "dest_constL Add r = None" "dest_constL Sub r = None"
  by (cases "dest_constL Add l"; cases "dest_constL Sub l"; cases "dest_constL Add r"; cases "dest_constL Sub r")
    auto

text \<open>The equations of the two helpers, one per comment of the code.\<close>

lemma AddExpr_create_static_eqs:
  "getBitWidth k \<noteq> 1 \<Longrightarrow> AddExpr_create_static (BinaryExpr Add (ConstantExpr k) a) r =
     do { s \<leftarrow> AddExpr_create a r; AddExpr_create (ConstantExpr k) s }"
  "getBitWidth k \<noteq> 1 \<Longrightarrow> AddExpr_create_static (BinaryExpr Sub (ConstantExpr k) a) r =
     do { s \<leftarrow> SubExpr_create r a; AddExpr_create (ConstantExpr k) s }"
  "getWidth l \<noteq> 1 \<Longrightarrow> dest_constL Add l = None \<Longrightarrow> dest_constL Sub l = None \<Longrightarrow>
     AddExpr_create_static l (BinaryExpr Add (ConstantExpr k) b) =
     do { s \<leftarrow> AddExpr_create l b; AddExpr_create (ConstantExpr k) s }"
  "getWidth l \<noteq> 1 \<Longrightarrow> dest_constL Add l = None \<Longrightarrow> dest_constL Sub l = None \<Longrightarrow>
     AddExpr_create_static l (BinaryExpr Sub (ConstantExpr k) b) =
     do { s \<leftarrow> SubExpr_create l b; AddExpr_create (ConstantExpr k) s }"
  unfolding AddExpr_create_def SubExpr_create_def
  by (subst AddExpr_create_static.simps, simp)+

lemma SubExpr_create_static_eqs:
  "getBitWidth k \<noteq> 1 \<Longrightarrow> BinaryExpr Add (ConstantExpr k) a \<noteq> r \<Longrightarrow>
     SubExpr_create_static (BinaryExpr Add (ConstantExpr k) a) r =
     do { s \<leftarrow> SubExpr_create a r; AddExpr_create (ConstantExpr k) s }"
  "getBitWidth k \<noteq> 1 \<Longrightarrow> BinaryExpr Sub (ConstantExpr k) a \<noteq> r \<Longrightarrow>
     SubExpr_create_static (BinaryExpr Sub (ConstantExpr k) a) r =
     do { s \<leftarrow> AddExpr_create a r; SubExpr_create (ConstantExpr k) s }"
  "getWidth l \<noteq> 1 \<Longrightarrow> dest_constL Add l = None \<Longrightarrow> dest_constL Sub l = None \<Longrightarrow>
     SubExpr_create_static l (BinaryExpr Add (ConstantExpr k) b) =
     do { s \<leftarrow> SubExpr_create l b; SubExpr_create s (ConstantExpr k) }"
  "getWidth l \<noteq> 1 \<Longrightarrow> dest_constL Add l = None \<Longrightarrow> dest_constL Sub l = None \<Longrightarrow>
     SubExpr_create_static l (BinaryExpr Sub (ConstantExpr k) b) =
     do { s \<leftarrow> AddExpr_create l b; SubExpr_create s (ConstantExpr k) }"
  unfolding AddExpr_create_def SubExpr_create_def
  by (subst SubExpr_create_static.simps, fastforce)+

lemma XorExpr_create_static_sound:
  assumes "wf_expr (BinaryExpr k l r)" "k \<in> {Add, Sub}" "getWidth l = 1"
  shows "creates (BinaryExpr k l r) (XorExpr_create_static l r)"
  using refines_AddSub_bool [OF assms(1,3,2)] assms
  by (auto simp: XorExpr_create_static_def intro!: createsI)

lemma AddExpr_create_static_step:
  assumes wf: "wf_expr (BinaryExpr Add l r)"
    and add: "\<And>x y. size x + size y < size l + size r \<Longrightarrow> wf_expr (BinaryExpr Add x y) \<Longrightarrow>
      creates (BinaryExpr Add x y) (AddExpr_create x y)"
    and sub: "\<And>x y. size x + size y < size l + size r \<Longrightarrow> wf_expr (BinaryExpr Sub x y) \<Longrightarrow>
      creates (BinaryExpr Sub x y) (SubExpr_create x y)"
  shows "creates (BinaryExpr Add l r) (AddExpr_create_static l r)"
proof (cases "getWidth l = 1")
  case True
  then show ?thesis using XorExpr_create_static_sound [OF wf] by (simp add: AddExpr_create_static.simps [of l r])
next
  case False
  show ?thesis
  proof (rule reassoc_cases [where l = l and r = r])
    fix k a assume l: "l = BinaryExpr Add (ConstantExpr k) a"
    have eq: "AddExpr_create_static l r = do { s \<leftarrow> AddExpr_create a r; AddExpr_create (ConstantExpr k) s }"
      using l False by (simp add: AddExpr_create_static_eqs(1))
    show ?thesis
      unfolding eq unfolding l
      by (rule creates_refines [OF creates_Add_const [OF add] refines_reassoc(1) [OF refl]]) (use wf l in simp_all)
  next
    fix k a assume l: "l = BinaryExpr Sub (ConstantExpr k) a"
    have eq: "AddExpr_create_static l r = do { s \<leftarrow> SubExpr_create r a; AddExpr_create (ConstantExpr k) s }"
      using l False by (simp add: AddExpr_create_static_eqs(2))
    show ?thesis
      unfolding eq unfolding l
      by (rule creates_refines [OF creates_Add_const [OF sub] refines_reassoc(2) [OF refl]]) (use wf l in simp_all)
  next
    fix k b assume r: "dest_constL Add l = None" "dest_constL Sub l = None" "r = BinaryExpr Add (ConstantExpr k) b"
    have eq: "AddExpr_create_static l r = do { s \<leftarrow> AddExpr_create l b; AddExpr_create (ConstantExpr k) s }"
      using r False by (simp add: AddExpr_create_static_eqs(3))
    show ?thesis
      unfolding eq unfolding r(3)
      by (rule creates_refines [OF creates_Add_const [OF add] refines_reassoc(3) [OF refl]]) (use wf r in simp_all)
  next
    fix k b assume r: "dest_constL Add l = None" "dest_constL Sub l = None" "r = BinaryExpr Sub (ConstantExpr k) b"
    have eq: "AddExpr_create_static l r = do { s \<leftarrow> SubExpr_create l b; AddExpr_create (ConstantExpr k) s }"
      using r False by (simp add: AddExpr_create_static_eqs(4))
    show ?thesis
      unfolding eq unfolding r(3)
      by (rule creates_refines [OF creates_Add_const [OF sub] refines_reassoc(4) [OF refl]]) (use wf r in simp_all)
  qed (use wf False in \<open>simp add: AddExpr_create_static.simps [of l r]\<close>)
qed

lemma SubExpr_create_static_step:
  assumes wf: "wf_expr (BinaryExpr Sub l r)"
    and add: "\<And>x y. size x + size y < size l + size r \<Longrightarrow> wf_expr (BinaryExpr Add x y) \<Longrightarrow>
      creates (BinaryExpr Add x y) (AddExpr_create x y)"
    and sub: "\<And>x y. size x + size y < size l + size r \<Longrightarrow> wf_expr (BinaryExpr Sub x y) \<Longrightarrow>
      creates (BinaryExpr Sub x y) (SubExpr_create x y)"
  shows "creates (BinaryExpr Sub l r) (SubExpr_create_static l r)"
proof -
  have same: "creates (BinaryExpr Sub l r) (Some (ConstantExpr_alloc 0 (getWidth l)))" if "l = r"
    using wf that by (auto intro!: creates_BinaryI simp: wf_width_pos)
  consider (b) "getWidth l = 1" | (s) "getWidth l \<noteq> 1" "l = r" | (n) "getWidth l \<noteq> 1" "l \<noteq> r" by blast
  then show ?thesis
  proof cases
    case n
    show ?thesis
    proof (rule reassoc_cases [where l = l and r = r])
      fix k a assume l: "l = BinaryExpr Add (ConstantExpr k) a"
      have eq: "SubExpr_create_static l r = do { s \<leftarrow> SubExpr_create a r; AddExpr_create (ConstantExpr k) s }"
        using l n by (simp add: SubExpr_create_static_eqs(1))
      show ?thesis
        unfolding eq unfolding l
        by (rule creates_refines [OF creates_Add_const [OF sub] refines_reassoc(5) [OF refl]]) (use wf l in simp_all)
    next
      fix k a assume l: "l = BinaryExpr Sub (ConstantExpr k) a"
      have eq: "SubExpr_create_static l r = do { s \<leftarrow> AddExpr_create a r; SubExpr_create (ConstantExpr k) s }"
        using l n by (simp add: SubExpr_create_static_eqs(2))
      show ?thesis
        unfolding eq unfolding l
        by (rule creates_refines [OF creates_Sub_const [OF add] refines_reassoc(6) [OF refl]]) (use wf l in simp_all)
    next
      fix k b assume r: "dest_constL Add l = None" "dest_constL Sub l = None" "r = BinaryExpr Add (ConstantExpr k) b"
      have eq: "SubExpr_create_static l r = do { s \<leftarrow> SubExpr_create l b; SubExpr_create s (ConstantExpr k) }"
        using r n by (simp add: SubExpr_create_static_eqs(3))
      show ?thesis
        unfolding eq unfolding r(3)
        by (rule creates_refines [OF creates_Sub_constR [OF sub] refines_reassoc(7) [OF refl]]) (use wf r in simp_all)
    next
      fix k b assume r: "dest_constL Add l = None" "dest_constL Sub l = None" "r = BinaryExpr Sub (ConstantExpr k) b"
      have eq: "SubExpr_create_static l r = do { s \<leftarrow> AddExpr_create l b; SubExpr_create s (ConstantExpr k) }"
        using r n by (simp add: SubExpr_create_static_eqs(4))
      show ?thesis
        unfolding eq unfolding r(3)
        by (rule creates_refines [OF creates_Sub_constR [OF add] refines_reassoc(8) [OF refl]]) (use wf r in simp_all)
    qed (use wf n in \<open>simp add: SubExpr_create_static.simps [of l r]\<close>)
  next
    case s
    then show ?thesis using same by (simp add: SubExpr_create_static.simps [of r r])
  qed (use XorExpr_create_static_sound [OF wf] in \<open>simp add: SubExpr_create_static.simps [of l r]\<close>)
qed

lemma AddSub_create_aux:
  "(wf_expr (BinaryExpr Add l r) \<longrightarrow> creates (BinaryExpr Add l r) (AddExpr_create l r)) \<and>
   (wf_expr (BinaryExpr Sub l r) \<longrightarrow> creates (BinaryExpr Sub l r) (SubExpr_create l r))"
proof (induction "size l + size r" arbitrary: l r rule: less_induct)
  case less
  note add = less [THEN conjunct1, THEN mp] and sub = less [THEN conjunct2, THEN mp]
  have "creates (BinaryExpr Add l r) (AddExpr_create l r)" if "wf_expr (BinaryExpr Add l r)"
    using creates_BCREATE_R_Add [OF that, of AddExpr_create_static]
      AddExpr_create_static_step [OF that add sub] by (simp only: AddExpr_create_def)
  moreover have "creates (BinaryExpr Sub l r) (SubExpr_create l r)" if "wf_expr (BinaryExpr Sub l r)"
    using creates_BCREATE_R_Sub [OF that, of SubExpr_create_static]
      SubExpr_create_static_step [OF that add sub] by (simp only: SubExpr_create_def)
  ultimately show ?case by blast
qed

lemma AddExpr_create_sound:
  "wf_expr (BinaryExpr Add l r) \<Longrightarrow> creates (BinaryExpr Add l r) (AddExpr_create l r)"
  using AddSub_create_aux by blast

lemma SubExpr_create_sound:
  "wf_expr (BinaryExpr Sub l r) \<Longrightarrow> creates (BinaryExpr Sub l r) (SubExpr_create l r)"
  using AddSub_create_aux by blast

interpretation Add_create: binary_create Add AddExpr_create
  by unfold_locales (rule AddExpr_create_sound)

interpretation Sub_create: binary_create Sub SubExpr_create
  by unfold_locales (rule SubExpr_create_sound)

section \<open>Mul, division, remainder and shifts\<close>

definition MulExpr_createPartialR :: "apint \<Rightarrow> expr \<Rightarrow> expr option" where
  "MulExpr_createPartialR cl r =
     (if getBitWidth cl = 1 then AndExpr_createPartialR cl r
      else if ConstantExpr_isOne cl then Some r
      else if ConstantExpr_isZero cl then Some (ConstantExpr cl)
      else Some (BinaryExpr Mul (ConstantExpr cl) r))"

definition MulExpr_createPartial :: "expr \<Rightarrow> apint \<Rightarrow> expr option" where
  "MulExpr_createPartial l cr = MulExpr_createPartialR cr l"

definition MulExpr_create_static :: "expr \<Rightarrow> expr \<Rightarrow> expr option" where
  "MulExpr_create_static l r =
     (if getWidth l = 1 then Some (BinaryExpr And l r) else Some (BinaryExpr Mul l r))"

definition MulExpr_create :: "expr \<Rightarrow> expr \<Rightarrow> expr option" where
  "MulExpr_create =
     BCREATE_R Mul MulExpr_createPartial MulExpr_createPartialR MulExpr_create_static"

definition UDivExpr_create_static :: "expr \<Rightarrow> expr \<Rightarrow> expr option" where
  "UDivExpr_create_static l r = (if getWidth l = 1 then Some l else Some (BinaryExpr UDiv l r))"

definition SDivExpr_create_static :: "expr \<Rightarrow> expr \<Rightarrow> expr option" where
  "SDivExpr_create_static l r = (if getWidth l = 1 then Some l else Some (BinaryExpr SDiv l r))"

definition URemExpr_create_static :: "expr \<Rightarrow> expr \<Rightarrow> expr option" where
  "URemExpr_create_static l r =
     (if getWidth l = 1 then Some (ConstantExpr_alloc 0 1) else Some (BinaryExpr URem l r))"

definition SRemExpr_create_static :: "expr \<Rightarrow> expr \<Rightarrow> expr option" where
  "SRemExpr_create_static l r =
     (if getWidth l = 1 then Some (ConstantExpr_alloc 0 1) else Some (BinaryExpr SRem l r))"

definition ShlExpr_create_static :: "expr \<Rightarrow> expr \<Rightarrow> expr option" where
  "ShlExpr_create_static l r =
     (if getWidth l = 1 then do { nr \<leftarrow> createIsZero r; AndExpr_create l nr }
      else Some (BinaryExpr Shl l r))"

definition LShrExpr_create_static :: "expr \<Rightarrow> expr \<Rightarrow> expr option" where
  "LShrExpr_create_static l r =
     (if getWidth l = 1 then do { nr \<leftarrow> createIsZero r; AndExpr_create l nr }
      else Some (BinaryExpr LShr l r))"

definition AShrExpr_create_static :: "expr \<Rightarrow> expr \<Rightarrow> expr option" where
  "AShrExpr_create_static l r = (if getWidth l = 1 then Some l else Some (BinaryExpr AShr l r))"

definition UDivExpr_create :: "expr \<Rightarrow> expr \<Rightarrow> expr option" where
  "UDivExpr_create = BCREATE UDiv UDivExpr_create_static"

definition SDivExpr_create :: "expr \<Rightarrow> expr \<Rightarrow> expr option" where
  "SDivExpr_create = BCREATE SDiv SDivExpr_create_static"

definition URemExpr_create :: "expr \<Rightarrow> expr \<Rightarrow> expr option" where
  "URemExpr_create = BCREATE URem URemExpr_create_static"

definition SRemExpr_create :: "expr \<Rightarrow> expr \<Rightarrow> expr option" where
  "SRemExpr_create = BCREATE SRem SRemExpr_create_static"

definition ShlExpr_create :: "expr \<Rightarrow> expr \<Rightarrow> expr option" where
  "ShlExpr_create = BCREATE Shl ShlExpr_create_static"

definition LShrExpr_create :: "expr \<Rightarrow> expr \<Rightarrow> expr option" where
  "LShrExpr_create = BCREATE LShr LShrExpr_create_static"

definition AShrExpr_create :: "expr \<Rightarrow> expr \<Rightarrow> expr option" where
  "AShrExpr_create = BCREATE AShr AShrExpr_create_static"

section \<open>The orderings\<close>

definition UltExpr_create_static :: "expr \<Rightarrow> expr \<Rightarrow> expr option" where
  "UltExpr_create_static l r =
     (if getWidth l = 1 then do { nl \<leftarrow> createIsZero l; AndExpr_create nl r }
      else Some (BinaryExpr Ult l r))"

definition UleExpr_create_static :: "expr \<Rightarrow> expr \<Rightarrow> expr option" where
  "UleExpr_create_static l r =
     (if getWidth l = 1 then do { nl \<leftarrow> createIsZero l; OrExpr_create nl r }
      else Some (BinaryExpr Ule l r))"

definition SltExpr_create_static :: "expr \<Rightarrow> expr \<Rightarrow> expr option" where
  "SltExpr_create_static l r =
     (if getWidth l = 1 then do { nr \<leftarrow> createIsZero r; AndExpr_create l nr }
      else Some (BinaryExpr Slt l r))"

definition SleExpr_create_static :: "expr \<Rightarrow> expr \<Rightarrow> expr option" where
  "SleExpr_create_static l r =
     (if getWidth l = 1 then do { nr \<leftarrow> createIsZero r; OrExpr_create l nr }
      else Some (BinaryExpr Sle l r))"

definition UltExpr_create :: "expr \<Rightarrow> expr \<Rightarrow> expr option" where
  "UltExpr_create = BCREATE Ult UltExpr_create_static"

definition UleExpr_create :: "expr \<Rightarrow> expr \<Rightarrow> expr option" where
  "UleExpr_create = BCREATE Ule UleExpr_create_static"

definition SltExpr_create :: "expr \<Rightarrow> expr \<Rightarrow> expr option" where
  "SltExpr_create = BCREATE Slt SltExpr_create_static"

definition SleExpr_create :: "expr \<Rightarrow> expr \<Rightarrow> expr option" where
  "SleExpr_create = BCREATE Sle SleExpr_create_static"

definition UgtExpr_create :: "expr \<Rightarrow> expr \<Rightarrow> expr option" where
  "UgtExpr_create l r = UltExpr_create r l"

definition UgeExpr_create :: "expr \<Rightarrow> expr \<Rightarrow> expr option" where
  "UgeExpr_create l r = UleExpr_create r l"

definition SgtExpr_create :: "expr \<Rightarrow> expr \<Rightarrow> expr option" where
  "SgtExpr_create l r = SltExpr_create r l"

definition SgeExpr_create :: "expr \<Rightarrow> expr \<Rightarrow> expr option" where
  "SgeExpr_create l r = SleExpr_create r l"

section \<open>Soundness of the remaining operators\<close>

lemma MulExpr_createPartialR_sound:
  assumes "wf_expr (BinaryExpr Mul (ConstantExpr cl) r)"
  shows "creates (BinaryExpr Mul (ConstantExpr cl) r) (MulExpr_createPartialR cl r)"
proof -
  have "refines (BinaryExpr Mul (ConstantExpr cl) r) (BinaryExpr And r (ConstantExpr cl))" if "getBitWidth cl = 1"
  proof (rule refines_BinaryI)
    fix \<sigma> a b v
    assume "eval \<sigma> (ConstantExpr cl) = Some a" "eval \<sigma> r = Some b" "0 \<le> a" "a < 2 ^ getWidth (ConstantExpr cl)"
      "0 \<le> b" "b < 2 ^ getWidth (ConstantExpr cl)" "bv_sem Mul (getWidth (ConstantExpr cl)) a b = Some v"
    then show "eval \<sigma> (BinaryExpr And r (ConstantExpr cl)) = Some v"
      using that bit_value_cases [of a] bit_value_cases [of b] by auto
  qed (use assms in auto)
  then have "getBitWidth cl = 1 \<Longrightarrow> creates (BinaryExpr Mul (ConstantExpr cl) r) (AndExpr_createPartialR cl r)"
    using assms unfolding AndExpr_createPartialR_def
    by (intro creates_refines [OF AndExpr_createPartial_sound]) auto
  then show ?thesis
    using assms unfolding MulExpr_createPartialR_def isOne_iff
    by (auto intro!: creates_BinaryI simp: ConstantExpr_isZero_def mod_pow2_small)
qed

lemma bool_mul_and: "0 \<le> a \<Longrightarrow> a < 2 \<Longrightarrow> 0 \<le> b \<Longrightarrow> b < 2 \<Longrightarrow> a * b mod 2 = a AND (b::int)"
  using bit_value_cases [of a] bit_value_cases [of b] by auto

lemma MulExpr_create_sound:
  assumes "wf_expr (BinaryExpr Mul l r)"
  shows "creates (BinaryExpr Mul l r) (MulExpr_create l r)"
proof -
  have "creates (BinaryExpr Mul l r) (MulExpr_create_static l r)"
    using assms by (auto simp: MulExpr_create_static_def bool_mul_and intro!: creates_BinaryI)
  then show ?thesis
    unfolding MulExpr_create_def MulExpr_createPartial_def using assms
    by (intro creates_BCREATE_R)
      (auto intro: MulExpr_createPartialR_sound creates_commute [OF MulExpr_createPartialR_sound])
qed

text \<open>The operators at width 1.\<close>

lemma bv_sem_bool:
  assumes "a = 0 \<or> a = 1" "b = 0 \<or> b = (1::int)"
  shows "bv_sem UDiv 1 a b = (if b = 0 then None else Some a)"
    "bv_sem SDiv 1 a b = (if b = 0 then None else Some a)"
    "bv_sem URem 1 a b = (if b = 0 then None else Some 0)"
    "bv_sem SRem 1 a b = (if b = 0 then None else Some 0)"
    "bv_sem Shl 1 a b = Some (a AND bool_val (b = 0))"
    "bv_sem LShr 1 a b = Some (a AND bool_val (b = 0))"
    "bv_sem AShr 1 a b = Some a"
    "bv_sem Ult 1 a b = Some (bool_val (a = 0) AND b)"
    "bv_sem Ule 1 a b = Some (bool_val (a = 0) OR b)"
    "bv_sem Slt 1 a b = Some (a AND bool_val (b = 0))"
    "bv_sem Sle 1 a b = Some (a OR bool_val (b = 0))"
  using assms by (auto simp: sgn_val_def trunc_div_def trunc_rem_def bool_val_def)

lemma refines_boolI:
  assumes "wf_expr (BinaryExpr k l r)" "getWidth l = 1"
    and "\<And>\<sigma> a b v. eval \<sigma> l = Some a \<Longrightarrow> eval \<sigma> r = Some b \<Longrightarrow> a = 0 \<or> a = 1 \<Longrightarrow> b = 0 \<or> b = 1 \<Longrightarrow>
      bv_sem k 1 a b = Some v \<Longrightarrow> eval \<sigma> e' = Some v"
  shows "refines (BinaryExpr k l r) e'"
proof (rule refines_BinaryI)
  fix \<sigma> a b v
  assume "eval \<sigma> l = Some a" "eval \<sigma> r = Some b" "0 \<le> a" "a < 2 ^ getWidth l"
    "0 \<le> b" "b < 2 ^ getWidth l" "bv_sem k (getWidth l) a b = Some v"
  then show "eval \<sigma> e' = Some v"
    using assms(2,3) bit_value_cases [of a] bit_value_cases [of b] by simp
qed (use assms in auto)

lemma creates_IsZeroR:
  assumes "wf_expr l" "wf_expr r" "getWidth l = 1" "getWidth r = 1"
  shows "creates (BinaryExpr And l (BinaryExpr Eq r (ConstantExpr_alloc 0 1)))
      (do { nr \<leftarrow> createIsZero r; AndExpr_create l nr })"
    "creates (BinaryExpr Or l (BinaryExpr Eq r (ConstantExpr_alloc 0 1)))
      (do { nr \<leftarrow> createIsZero r; OrExpr_create l nr })"
  using And_create.create_bind [OF _ _ creates_alloc [OF assms(1)] createIsZero_sound [OF assms(2)]]
    Or_create.create_bind [OF _ _ creates_alloc [OF assms(1)] createIsZero_sound [OF assms(2)]] assms
  by simp_all

lemma creates_IsZeroL:
  assumes "wf_expr l" "wf_expr r" "getWidth l = 1" "getWidth r = 1"
  shows "creates (BinaryExpr And (BinaryExpr Eq l (ConstantExpr_alloc 0 1)) r)
      (do { nl \<leftarrow> createIsZero l; AndExpr_create nl r })"
    "creates (BinaryExpr Or (BinaryExpr Eq l (ConstantExpr_alloc 0 1)) r)
      (do { nl \<leftarrow> createIsZero l; OrExpr_create nl r })"
  using And_create.create_bind [OF _ _ createIsZero_sound [OF assms(1)] creates_alloc [OF assms(2)]]
    Or_create.create_bind [OF _ _ createIsZero_sound [OF assms(1)] creates_alloc [OF assms(2)]] assms
  by simp_all

text \<open>Helpers that return one expression at width 1, and those that return a boolean formula.\<close>

lemma static_alloc_sound:
  assumes "wf_expr (BinaryExpr k l r)"
    and "getWidth l = 1 \<Longrightarrow> wf_expr e" "getWidth l = 1 \<Longrightarrow> getWidth e = 1"
    and "\<And>\<sigma> a b v. eval \<sigma> l = Some a \<Longrightarrow> a = 0 \<or> a = 1 \<Longrightarrow> b = 0 \<or> b = 1 \<Longrightarrow>
      bv_sem k 1 a b = Some v \<Longrightarrow> eval \<sigma> e = Some v"
  shows "creates (BinaryExpr k l r) (if getWidth l = 1 then Some e else Some (BinaryExpr k l r))"
proof (cases "getWidth l = 1")
  case True
  have "refines (BinaryExpr k l r) e"
    by (rule refines_boolI [OF assms(1) True]) (rule assms(4))
  then show ?thesis using True assms(1-3) by (auto intro: createsI)
qed (use assms(1) in auto)

lemma static_bool_sound:
  assumes wf: "wf_expr (BinaryExpr k l r)"
    and m: "wf_expr l \<Longrightarrow> wf_expr r \<Longrightarrow> getWidth l = 1 \<Longrightarrow> getWidth r = 1 \<Longrightarrow> creates (BinaryExpr k' x y) m"
    and k: "\<not> is_cmp k'" "getWidth l = 1 \<Longrightarrow> getWidth x = 1"
    and ev: "\<And>\<sigma> a b v. eval \<sigma> l = Some a \<Longrightarrow> eval \<sigma> r = Some b \<Longrightarrow> a = 0 \<or> a = 1 \<Longrightarrow> b = 0 \<or> b = 1 \<Longrightarrow>
      bv_sem k 1 a b = Some v \<Longrightarrow> eval \<sigma> (BinaryExpr k' x y) = Some v"
  shows "creates (BinaryExpr k l r) (if getWidth l = 1 then m else Some (BinaryExpr k l r))"
proof (cases "getWidth l = 1")
  case True
  have r: "refines (BinaryExpr k l r) (BinaryExpr k' x y)"
    by (rule refines_boolI [OF wf True]) (rule ev)
  have c: "creates (BinaryExpr k' x y) m" using wf True by (intro m) simp_all
  show ?thesis using creates_refines [OF c r] True k by simp
qed (use wf in simp)

lemma div_static_sound:
  "wf_expr (BinaryExpr UDiv l r) \<Longrightarrow> creates (BinaryExpr UDiv l r) (UDivExpr_create_static l r)"
  "wf_expr (BinaryExpr SDiv l r) \<Longrightarrow> creates (BinaryExpr SDiv l r) (SDivExpr_create_static l r)"
  "wf_expr (BinaryExpr URem l r) \<Longrightarrow> creates (BinaryExpr URem l r) (URemExpr_create_static l r)"
  "wf_expr (BinaryExpr SRem l r) \<Longrightarrow> creates (BinaryExpr SRem l r) (SRemExpr_create_static l r)"
  "wf_expr (BinaryExpr AShr l r) \<Longrightarrow> creates (BinaryExpr AShr l r) (AShrExpr_create_static l r)"
  unfolding UDivExpr_create_static_def SDivExpr_create_static_def URemExpr_create_static_def
    SRemExpr_create_static_def AShrExpr_create_static_def
  by (rule static_alloc_sound; auto simp del: bv_sem.simps simp: bv_sem_bool [unfolded One_nat_def] split: if_splits)+

lemma shift_static_sound:
  "wf_expr (BinaryExpr Shl l r) \<Longrightarrow> creates (BinaryExpr Shl l r) (ShlExpr_create_static l r)"
  "wf_expr (BinaryExpr LShr l r) \<Longrightarrow> creates (BinaryExpr LShr l r) (LShrExpr_create_static l r)"
  unfolding ShlExpr_create_static_def LShrExpr_create_static_def
  by (rule static_bool_sound [OF _ creates_IsZeroR(1)]; simp add: bv_sem_bool [unfolded One_nat_def] del: bv_sem.simps(11,12))+

lemma ordering_static_sound:
  "wf_expr (BinaryExpr Slt l r) \<Longrightarrow> creates (BinaryExpr Slt l r) (SltExpr_create_static l r)"
  "wf_expr (BinaryExpr Sle l r) \<Longrightarrow> creates (BinaryExpr Sle l r) (SleExpr_create_static l r)"
  "wf_expr (BinaryExpr Ult l r) \<Longrightarrow> creates (BinaryExpr Ult l r) (UltExpr_create_static l r)"
  "wf_expr (BinaryExpr Ule l r) \<Longrightarrow> creates (BinaryExpr Ule l r) (UleExpr_create_static l r)"
  unfolding SltExpr_create_static_def SleExpr_create_static_def UltExpr_create_static_def
    UleExpr_create_static_def
  by (rule static_bool_sound [OF _ creates_IsZeroR(1)] static_bool_sound [OF _ creates_IsZeroR(2)]
        static_bool_sound [OF _ creates_IsZeroL(1)] static_bool_sound [OF _ creates_IsZeroL(2)];
      simp add: bv_sem_bool [unfolded One_nat_def] del: bv_sem.simps(16,17,20,21))+

lemma BCREATE_sound:
  assumes "\<And>l r. wf_expr (BinaryExpr k l r) \<Longrightarrow> creates (BinaryExpr k l r) (st l r)"
  shows "binary_create k (BCREATE k st)"
  by (unfold_locales, rule creates_BCREATE) (auto simp: ConstantExpr_isZero_def assms)

interpretation Mul_create: binary_create Mul MulExpr_create
  by unfold_locales (rule MulExpr_create_sound)

interpretation UDiv_create: binary_create UDiv UDivExpr_create
  unfolding UDivExpr_create_def by (rule BCREATE_sound [OF div_static_sound(1)])

interpretation SDiv_create: binary_create SDiv SDivExpr_create
  unfolding SDivExpr_create_def by (rule BCREATE_sound [OF div_static_sound(2)])

interpretation URem_create: binary_create URem URemExpr_create
  unfolding URemExpr_create_def by (rule BCREATE_sound [OF div_static_sound(3)])

interpretation SRem_create: binary_create SRem SRemExpr_create
  unfolding SRemExpr_create_def by (rule BCREATE_sound [OF div_static_sound(4)])

interpretation AShr_create: binary_create AShr AShrExpr_create
  unfolding AShrExpr_create_def by (rule BCREATE_sound [OF div_static_sound(5)])

interpretation Shl_create: binary_create Shl ShlExpr_create
  unfolding ShlExpr_create_def by (rule BCREATE_sound [OF shift_static_sound(1)])

interpretation LShr_create: binary_create LShr LShrExpr_create
  unfolding LShrExpr_create_def by (rule BCREATE_sound [OF shift_static_sound(2)])

interpretation Slt_create: binary_create Slt SltExpr_create
  unfolding SltExpr_create_def by (rule BCREATE_sound [OF ordering_static_sound(1)])

interpretation Sle_create: binary_create Sle SleExpr_create
  unfolding SleExpr_create_def by (rule BCREATE_sound [OF ordering_static_sound(2)])

interpretation Ult_create: binary_create Ult UltExpr_create
  unfolding UltExpr_create_def by (rule BCREATE_sound [OF ordering_static_sound(3)])

interpretation Ule_create: binary_create Ule UleExpr_create
  unfolding UleExpr_create_def by (rule BCREATE_sound [OF ordering_static_sound(4)])

text \<open>The mirrored orderings.\<close>

definition mirror :: "bkind \<Rightarrow> bkind" where
  "mirror k = (if k = Ugt then Ult else if k = Uge then Ule else if k = Sgt then Slt
     else if k = Sge then Sle else k)"

lemma refines_mirror:
  assumes "getWidth l = getWidth r" "k \<in> {Ugt, Uge, Sgt, Sge}"
  shows "refines (BinaryExpr k l r) (BinaryExpr (mirror k) r l)"
  using assms by (intro refinesI) (auto simp: mirror_def split: option.splits)

lemma mirror_sound:
  assumes "binary_create (mirror k) c" "k \<in> {Ugt, Uge, Sgt, Sge}"
  shows "binary_create k (\<lambda>l r. c r l)"
proof
  fix l r assume wf: "wf_expr (BinaryExpr k l r)"
  from assms(2) have k: "\<not> is_div (mirror k)" "is_cmp (mirror k)" "is_cmp k" by (auto simp: mirror_def)
  from binary_create.create_sound [OF assms(1), of r l] refines_mirror [OF _ assms(2), of l r] wf k
  show "creates (BinaryExpr k l r) (c r l)" by (auto intro: creates_refines)
qed

interpretation Ugt_create: binary_create Ugt UgtExpr_create
  using mirror_sound [of Ugt UltExpr_create] Ult_create.binary_create_axioms
  by (simp add: mirror_def UgtExpr_create_def [abs_def])

interpretation Uge_create: binary_create Uge UgeExpr_create
  using mirror_sound [of Uge UleExpr_create] Ule_create.binary_create_axioms
  by (simp add: mirror_def UgeExpr_create_def [abs_def])

interpretation Sgt_create: binary_create Sgt SgtExpr_create
  using mirror_sound [of Sgt SltExpr_create] Slt_create.binary_create_axioms
  by (simp add: mirror_def SgtExpr_create_def [abs_def])

interpretation Sge_create: binary_create Sge SgeExpr_create
  using mirror_sound [of Sge SleExpr_create] Sle_create.binary_create_axioms
  by (simp add: mirror_def SgeExpr_create_def [abs_def])

end
