(* ===== verification/ER_ExprBits.thy ===== *)
theory ER_ExprBits
  imports ER_ExprArith
begin

unbundle bit_operations_syntax

text \<open>
  The remaining constructors of \<^verbatim>\<open>lib/Expr/Expr.cpp\<close>: complement, casts,
  \<^verbatim>\<open>Extract\<close> and \<^verbatim>\<open>Concat\<close> (which call each other), \<^verbatim>\<open>Select\<close>, \<^verbatim>\<open>Read\<close>,
  the construction by kind and the temporary reads, with their soundness.
\<close>

section \<open>Not, casts, Concat and Extract\<close>

definition NotExpr_create :: "expr \<Rightarrow> expr option" where
  "NotExpr_create e =
     (case as_const e of Some c \<Rightarrow> Some (ConstantExpr (ConstantExpr_Not c)) | None \<Rightarrow> Some (NotExpr e))"

definition NotOptimizedExpr_create :: "expr \<Rightarrow> expr option" where
  "NotOptimizedExpr_create e = Some (NotOptimizedExpr e)"

fun as_extract :: "expr \<Rightarrow> (expr \<times> nat \<times> width) option" where
  "as_extract (ExtractExpr e off w) = Some (e, off, w)"
| "as_extract _ = None"

lemma as_extract_Some [simp]: "as_extract e = Some (x, off, w) \<longleftrightarrow> e = ExtractExpr x off w"
  by (cases e) auto

text \<open>
  \<^verbatim>\<open>ZExt\<close>, \<^verbatim>\<open>SExt\<close> and \<^verbatim>\<open>Concat\<close> over the function \<open>ext\<close> they call for
  \<^verbatim>\<open>ExtractExpr::create\<close>, which in turn calls \<^verbatim>\<open>ConcatExpr::create\<close>.
\<close>

definition ZExtExpr_create_with ::
    "(expr \<Rightarrow> nat \<Rightarrow> width \<Rightarrow> expr option) \<Rightarrow> expr \<Rightarrow> width \<Rightarrow> expr option" where
  "ZExtExpr_create_with ext e w =
     (if w = getWidth e then Some e
      else if w < getWidth e then ext e 0 w
      else case as_const e of
        Some c \<Rightarrow> Some (ConstantExpr (ConstantExpr_ZExt c w)) | None \<Rightarrow> Some (ZExtExpr e w))"

definition SExtExpr_create_with ::
    "(expr \<Rightarrow> nat \<Rightarrow> width \<Rightarrow> expr option) \<Rightarrow> expr \<Rightarrow> width \<Rightarrow> expr option" where
  "SExtExpr_create_with ext e w =
     (if w = getWidth e then Some e
      else if w < getWidth e then ext e 0 w
      else case as_const e of
        Some c \<Rightarrow> Some (ConstantExpr (ConstantExpr_SExt c w)) | None \<Rightarrow> Some (SExtExpr e w))"

definition ConcatExpr_merge ::
    "(expr \<Rightarrow> nat \<Rightarrow> width \<Rightarrow> expr option) \<Rightarrow> expr \<Rightarrow> expr \<Rightarrow> expr option" where
  "ConcatExpr_merge ext l r =
     (case (as_extract l, as_extract r) of
        (Some (x, offl, wl), Some (y, offr, wr)) \<Rightarrow>
          if x = y \<and> offr + wr = offl then ext x offr (getWidth l + getWidth r)
          else Some (ConcatExpr l r)
      | _ \<Rightarrow> Some (ConcatExpr l r))"

definition ConcatExpr_create_with ::
    "(expr \<Rightarrow> nat \<Rightarrow> width \<Rightarrow> expr option) \<Rightarrow> expr \<Rightarrow> expr \<Rightarrow> expr option" where
  "ConcatExpr_create_with ext l r =
     (let w = getWidth l + getWidth r in
      case as_const l of
        Some cl \<Rightarrow>
          (case as_const r of
             Some cr \<Rightarrow> Some (ConstantExpr (ConstantExpr_Concat cl cr))
           | None \<Rightarrow>
               if ConstantExpr_isZero cl \<and> getWidth r < w then ZExtExpr_create_with ext r w
               else ConcatExpr_merge ext l r)
      | None \<Rightarrow> ConcatExpr_merge ext l r)"

lemma ConcatExpr_create_with_cong [fundef_cong]:
  assumes "l = l'" "r = r'"
    and "\<And>x o1 w1 o2 w2. l' = ExtractExpr x o1 w1 \<Longrightarrow> r' = ExtractExpr x o2 w2 \<Longrightarrow>
      ext x o2 (w1 + w2) = ext' x o2 (w1 + w2)"
  shows "ConcatExpr_create_with ext l r = ConcatExpr_create_with ext' l' r'"
proof -
  have "ConcatExpr_merge ext l r = ConcatExpr_merge ext' l' r'"
    using assms by (auto simp: ConcatExpr_merge_def split: option.splits)
  then show ?thesis
    using assms(1,2)
    by (auto simp: ConcatExpr_create_with_def ZExtExpr_create_with_def Let_def split: option.splits)
qed

text \<open>
  The width \<^verbatim>\<open>w - right->getWidth() + off\<close> of the left part is computed modulo
  \<open>2^32\<close> in the code; in the branch that uses it \<open>off + w\<close> exceeds the width of the
  right operand, so the result is the difference written here.
\<close>

function ExtractExpr_create :: "expr \<Rightarrow> nat \<Rightarrow> width \<Rightarrow> expr option" where
  "ExtractExpr_create e off w =
     (if \<not> (0 < w \<and> off + w \<le> getWidth e) then None
      else if w = getWidth e then Some e
      else case e of
        ConstantExpr c \<Rightarrow> Some (ConstantExpr (ConstantExpr_Extract c off w))
      | ConcatExpr x y \<Rightarrow>
          if getWidth y \<le> off then ExtractExpr_create x (off - getWidth y) w
          else if off + w \<le> getWidth y then ExtractExpr_create y off w
          else do { l \<leftarrow> ExtractExpr_create x 0 (w + off - getWidth y);
                    r \<leftarrow> ExtractExpr_create y off (getWidth y - off);
                    ConcatExpr_create_with ExtractExpr_create l r }
      | ZExtExpr src W \<Rightarrow>
          if \<not> getWidth src < W then None
          else if off + w \<le> getWidth src then
            (if off = 0 \<and> w = getWidth src then Some src else ExtractExpr_create src off w)
          else Some (ExtractExpr e off w)
      | SExtExpr src W \<Rightarrow>
          if \<not> getWidth src < W then None
          else if off + w \<le> getWidth src then
            (if off = 0 \<and> w = getWidth src then Some src else ExtractExpr_create src off w)
          else Some (ExtractExpr e off w)
      | _ \<Rightarrow> Some (ExtractExpr e off w))"
  by pat_completeness auto

lemma ConcatExpr_create_with_Extract:
  assumes "ConcatExpr_create_with ext l r = Some (ExtractExpr z off w)"
  obtains x o1 w1 o2 w2 where "l = ExtractExpr x o1 w1" "r = ExtractExpr x o2 w2"
    "ext x o2 (w1 + w2) = Some (ExtractExpr z off w)"
  using assms
  by (auto simp: ConcatExpr_create_with_def ConcatExpr_merge_def ZExtExpr_create_with_def Let_def
      split: option.splits if_splits)

text \<open>An extract that the constructor returns is of a part of its argument.\<close>

lemma ExtractExpr_create_size:
  assumes "ExtractExpr_create_dom (e, off, w)" "ExtractExpr_create e off w = Some (ExtractExpr z o' w')"
  shows "size z \<le> size e"
  using assms
proof (induction arbitrary: z o' w' rule: ExtractExpr_create.pinduct)
  case (1 e off w)
  note eq = 1(9) [unfolded ExtractExpr_create.psimps [OF 1(1)]]
  show ?case
  proof (cases "w = getWidth e \<or> \<not> (0 < w \<and> off + w \<le> getWidth e)")
    case True
    then show ?thesis using eq by (auto split: if_splits)
  next
    case False
    then have g: "\<not> \<not> (0 < w \<and> off + w \<le> getWidth e)" "w \<noteq> getWidth e" by auto
    show ?thesis
    proof (cases e)
      case (ConcatExpr x y)
      show ?thesis
      proof (cases "getWidth y \<le> off \<or> off + w \<le> getWidth y")
        case True
        then show ?thesis
          using eq g 1(2,3) [OF g ConcatExpr] by (fastforce simp: ConcatExpr split: if_splits)
      next
        case False
        then have n: "\<not> getWidth y \<le> off" "\<not> off + w \<le> getWidth y" by auto
        obtain l r where lr: "ExtractExpr_create x 0 (w + off - getWidth y) = Some l"
          "ExtractExpr_create y off (getWidth y - off) = Some r"
          "ConcatExpr_create_with ExtractExpr_create l r = Some (ExtractExpr z o' w')"
          using eq g n by (auto simp: ConcatExpr)
        from lr(3) obtain u o1 w1 o2 w2 where u: "l = ExtractExpr u o1 w1" "r = ExtractExpr u o2 w2"
          "ExtractExpr_create u o2 (w1 + w2) = Some (ExtractExpr z o' w')"
          by (rule ConcatExpr_create_with_Extract)
        from 1(6) [OF g ConcatExpr n lr(1,2) u] 1(4) [OF g ConcatExpr n lr(1) [unfolded u]]
        show ?thesis by (simp add: ConcatExpr)
      qed
    next
      case (ZExtExpr src W)
      then show ?thesis using eq g 1(7) [OF g ZExtExpr] by (fastforce split: if_splits)
    next
      case (SExtExpr src W)
      then show ?thesis using eq g 1(8) [OF g SExtExpr] by (fastforce split: if_splits)
    qed (use eq g in auto)
  qed
qed

lemma ExtractExpr_create_dom_all: "All ExtractExpr_create_dom"
proof (relation "measure (\<lambda>(e, off, w). size e)", goal_cases)
  case (6 e off w x y l r u o1 w1 o2 w2)
  then have "size u \<le> size x" by (auto dest: ExtractExpr_create_size)
  with 6 show ?case by simp
qed auto

termination ExtractExpr_create
  by (rule ExtractExpr_create_dom_all)

declare ExtractExpr_create.simps [simp del]

definition ConcatExpr_create :: "expr \<Rightarrow> expr \<Rightarrow> expr option" where
  "ConcatExpr_create = ConcatExpr_create_with ExtractExpr_create"

definition ZExtExpr_create :: "expr \<Rightarrow> width \<Rightarrow> expr option" where
  "ZExtExpr_create = ZExtExpr_create_with ExtractExpr_create"

definition SExtExpr_create :: "expr \<Rightarrow> width \<Rightarrow> expr option" where
  "SExtExpr_create = SExtExpr_create_with ExtractExpr_create"

text \<open>\<^verbatim>\<open>createN\<close>: the kids are folded from the right.\<close>

fun ConcatExpr_createN :: "expr list \<Rightarrow> expr option" where
  "ConcatExpr_createN [] = None"
| "ConcatExpr_createN [k] = Some k"
| "ConcatExpr_createN (k # ks) = do { r \<leftarrow> ConcatExpr_createN ks; ConcatExpr_create k r }"

definition ConcatExpr_create4 :: "expr \<Rightarrow> expr \<Rightarrow> expr \<Rightarrow> expr \<Rightarrow> expr option" where
  "ConcatExpr_create4 k1 k2 k3 k4 =
     do { a \<leftarrow> ConcatExpr_create k3 k4; b \<leftarrow> ConcatExpr_create k2 a; ConcatExpr_create k1 b }"

definition ConcatExpr_create8 ::
    "expr \<Rightarrow> expr \<Rightarrow> expr \<Rightarrow> expr \<Rightarrow> expr \<Rightarrow> expr \<Rightarrow> expr \<Rightarrow> expr \<Rightarrow> expr option" where
  "ConcatExpr_create8 k1 k2 k3 k4 k5 k6 k7 k8 =
     do { a \<leftarrow> ConcatExpr_create4 k5 k6 k7 k8; b \<leftarrow> ConcatExpr_create k4 a;
          c \<leftarrow> ConcatExpr_create k3 b; d \<leftarrow> ConcatExpr_create k2 c; ConcatExpr_create k1 d }"

section \<open>Soundness of Concat and Extract\<close>

lemma mod_pow2_split:
  "(x::int) mod 2 ^ (m + n) = (x div 2 ^ n mod 2 ^ m) * 2 ^ n + x mod 2 ^ n"
  using zmod_zmult2_eq [of "2 ^ m" x "2 ^ n"] by (simp add: power_add mult.commute)

lemma div_pow2_add: "(x::int) div 2 ^ (m + n) = x div 2 ^ m div 2 ^ n"
  by (simp add: power_add zdiv_zmult2_eq)

lemma extract_merge:
  "((a::int) div 2 ^ (o2 + w2) mod 2 ^ w1) * 2 ^ w2 + a div 2 ^ o2 mod 2 ^ w2 = a div 2 ^ o2 mod 2 ^ (w1 + w2)"
  by (simp add: mod_pow2_split div_pow2_add)

lemma extract_concat_left:
  assumes "n \<le> off" "0 \<le> b" "b < (2::int) ^ n"
  shows "(a * 2 ^ n + b) div 2 ^ off = a div 2 ^ (off - n)"
proof -
  have "(a * 2 ^ n + b) div 2 ^ off = (a * 2 ^ n + b) div 2 ^ n div 2 ^ (off - n)"
    using assms(1) div_pow2_add [of "a * 2 ^ n + b" n "off - n"] by simp
  then show ?thesis using assms by (simp add: div_pos_pos_trivial)
qed

lemma extract_concat_right:
  assumes "off + w \<le> n"
  shows "(a * 2 ^ n + b) div 2 ^ off mod 2 ^ w = (b::int) div 2 ^ off mod 2 ^ w"
  by (rule extract_bits [OF assms]) simp

lemma pow2_split: "off \<le> n \<Longrightarrow> (2::int) ^ n = 2 ^ (n - off) * 2 ^ off"
  by (metis le_add_diff_inverse2 power_add)

lemma div_pow2_less:
  assumes "off \<le> n" "b < (2::int) ^ n"
  shows "b div 2 ^ off < 2 ^ (n - off)"
proof (rule ccontr)
  assume "\<not> ?thesis"
  then have "2 ^ (n - off) * 2 ^ off \<le> b div 2 ^ off * 2 ^ off" by simp
  moreover have "b div 2 ^ off * 2 ^ off \<le> b"
    using div_mult_mod_eq [of b "2 ^ off"] mod_pow2_pos [of b off] by linarith
  ultimately show False using assms pow2_split [OF assms(1)] by linarith
qed

lemma extract_concat_both:
  assumes "off < n" "n < off + w" "0 \<le> b" "b < (2::int) ^ n"
  shows "(a * 2 ^ n + b) div 2 ^ off mod 2 ^ w =
    (a mod 2 ^ (w + off - n)) * 2 ^ (n - off) + b div 2 ^ off mod 2 ^ (n - off)"
proof -
  have "(a * 2 ^ n + b) div 2 ^ off = a * 2 ^ (n - off) + b div 2 ^ off"
  proof -
    have "a * 2 ^ n + b = b + (a * 2 ^ (n - off)) * 2 ^ off"
      using pow2_split [of off n] assms(1) by simp
    then show ?thesis by (metis add.commute div_mult_self1 power_not_zero zero_neq_numeral)
  qed
  moreover have "b div 2 ^ off < 2 ^ (n - off)" "0 \<le> b div 2 ^ off"
    using assms div_pow2_less [of off n b] by (simp_all add: pos_imp_zdiv_nonneg_iff)
  moreover have "w = (w + off - n) + (n - off)" using assms by simp
  ultimately show ?thesis
    using mod_pow2_split [of "a * 2 ^ (n - off) + b div 2 ^ off" "w + off - n" "n - off"]
    by (simp add: div_pos_pos_trivial mod_pow2_small)
qed

lemma ConcatExpr_create_with_sound:
  assumes wf: "wf_expr l" "wf_expr r"
    and ext: "\<And>x o1 w1 o2 w2. l = ExtractExpr x o1 w1 \<Longrightarrow> r = ExtractExpr x o2 w2 \<Longrightarrow>
      wf_expr (ExtractExpr x o2 (w1 + w2)) \<Longrightarrow>
      creates (ExtractExpr x o2 (w1 + w2)) (ext x o2 (w1 + w2))"
  shows "creates (ConcatExpr l r) (ConcatExpr_create_with ext l r)"
proof -
  have merge: "creates (ConcatExpr l r) (ConcatExpr_merge ext l r)"
  proof (cases "\<exists>x o2 w1 w2. l = ExtractExpr x (o2 + w2) w1 \<and> r = ExtractExpr x o2 w2")
    case True
    then obtain x o2 w1 w2 where lr: "l = ExtractExpr x (o2 + w2) w1" "r = ExtractExpr x o2 w2" by blast
    have "refines (ConcatExpr l r) (ExtractExpr x o2 (w1 + w2))"
      using extract_merge by (intro refinesI) (auto simp: lr split: option.splits)
    from creates_refines [OF ext [OF lr] this] wf lr show ?thesis
      by (simp add: ConcatExpr_merge_def)
  next
    case False
    then have "ConcatExpr_merge ext l r = Some (ConcatExpr l r)"
      by (auto simp: ConcatExpr_merge_def split: option.splits)
    then show ?thesis using wf by simp
  qed
  have const: "creates (ConcatExpr (ConstantExpr cl) (ConstantExpr cr)) (Some (ConstantExpr (ConstantExpr_Concat cl cr)))"
    if "wf_apint cl" "wf_apint cr" for cl cr
    using that wf_apintD(1) [of cl]
    by (auto intro!: createsI refinesI simp: apval_Concat)
  have zero: "creates (ConcatExpr (ConstantExpr cl) r) (ZExtExpr_create_with ext r (getBitWidth cl + getWidth r))"
    if "wf_apint cl" "ConstantExpr_isZero cl" "as_const r = None" for cl
    using that wf_apintD(1) [OF that(1)] wf(2)
    by (auto intro!: createsI refinesI simp: ZExtExpr_create_with_def ConstantExpr_isZero_def split: option.splits)
  show ?thesis
    using merge const zero wf
    by (auto simp: ConcatExpr_create_with_def Let_def split: option.split)
qed


lemma ExtractExpr_create_Concat:
  assumes "0 < w" "off + w \<le> getWidth x + getWidth y" "w \<noteq> getWidth x + getWidth y"
  shows "ExtractExpr_create (ConcatExpr x y) off w =
    (if getWidth y \<le> off then ExtractExpr_create x (off - getWidth y) w
     else if off + w \<le> getWidth y then ExtractExpr_create y off w
     else do { l \<leftarrow> ExtractExpr_create x 0 (w + off - getWidth y);
               r \<leftarrow> ExtractExpr_create y off (getWidth y - off);
               ConcatExpr_create l r })"
  using assms by (simp add: ExtractExpr_create.simps [of "ConcatExpr x y"] ConcatExpr_create_def)

lemma refines_Extract_Concat:
  assumes "wf_expr y"
  shows "getWidth y \<le> off \<Longrightarrow>
      refines (ExtractExpr (ConcatExpr x y) off w) (ExtractExpr x (off - getWidth y) w)"
    "off + w \<le> getWidth y \<Longrightarrow> refines (ExtractExpr (ConcatExpr x y) off w) (ExtractExpr y off w)"
    "off < getWidth y \<Longrightarrow> getWidth y < off + w \<Longrightarrow>
      refines (ExtractExpr (ConcatExpr x y) off w)
        (ConcatExpr (ExtractExpr x 0 (w + off - getWidth y)) (ExtractExpr y off (getWidth y - off)))"
  using eval_range [OF assms]
  by (auto intro!: refinesI simp: extract_concat_left extract_concat_right extract_concat_both split: option.splits)

lemma refines_Extract_cast:
  assumes "off + w \<le> getWidth src" "getWidth src \<le> W"
  shows "refines (ExtractExpr (ZExtExpr src W) off w) (ExtractExpr src off w)"
    "refines (ExtractExpr (SExtExpr src W) off w) (ExtractExpr src off w)"
proof -
  show "refines (ExtractExpr (ZExtExpr src W) off w) (ExtractExpr src off w)"
    by (rule refinesI) simp
  have "sgn_val (getWidth src) a mod 2 ^ W div 2 ^ off mod 2 ^ w = a div 2 ^ off mod 2 ^ w" for a
    by (rule extract_bits [OF assms(1)]) (simp add: mod_pow2_mod [OF assms(2)])
  then show "refines (ExtractExpr (SExtExpr src W) off w) (ExtractExpr src off w)"
    by (intro refinesI) auto
qed

lemma refines_Extract_whole:
  "wf_expr e \<Longrightarrow> refines (ExtractExpr e 0 (getWidth e)) e"
  by (auto intro!: refinesI simp: eval_range mod_pow2_small)

lemma creates_Concat_refines:
  assumes "wf_expr l" "wf_expr r" "refines l0 l" "refines r0 r" "getWidth l = getWidth l0" "getWidth r = getWidth r0"
    and "creates (ConcatExpr l r) m"
  shows "creates (ConcatExpr l0 r0) m"
  using assms by (auto intro!: creates_refines [OF assms(7)] refines_Concat)

lemma ExtractExpr_create_size_total:
  "ExtractExpr_create e off w = Some (ExtractExpr z o' w') \<Longrightarrow> size z \<le> size e"
  by (rule ExtractExpr_create_size) (simp_all add: ExtractExpr_create_dom_all [rule_format])

lemma ExtractExpr_create_split:
  assumes x: "creates (ExtractExpr x o1 w1) (ExtractExpr_create x o1 w1)"
    and y: "creates (ExtractExpr y o2 w2) (ExtractExpr_create y o2 w2)"
    and IH: "\<And>u off w. size u \<le> size x \<Longrightarrow> wf_expr (ExtractExpr u off w) \<Longrightarrow>
      creates (ExtractExpr u off w) (ExtractExpr_create u off w)"
  shows "creates (ConcatExpr (ExtractExpr x o1 w1) (ExtractExpr y o2 w2))
    (do { l \<leftarrow> ExtractExpr_create x o1 w1; r \<leftarrow> ExtractExpr_create y o2 w2; ConcatExpr_create l r })"
proof -
  from x obtain l where l: "ExtractExpr_create x o1 w1 = Some l" "wf_expr l" "getWidth l = w1"
    "refines (ExtractExpr x o1 w1) l" by (auto elim: createsE)
  from y obtain r where r: "ExtractExpr_create y o2 w2 = Some r" "wf_expr r" "getWidth r = w2"
    "refines (ExtractExpr y o2 w2) r" by (auto elim: createsE)
  have "creates (ConcatExpr l r) (ConcatExpr_create l r)"
    unfolding ConcatExpr_create_def
  proof (rule ConcatExpr_create_with_sound [OF l(2) r(2)])
    fix u p1 v1 p2 v2
    assume "l = ExtractExpr u p1 v1" and wf: "wf_expr (ExtractExpr u p2 (v1 + v2))"
    with l(1) have "size u \<le> size x" by (auto dest: ExtractExpr_create_size_total)
    then show "creates (ExtractExpr u p2 (v1 + v2)) (ExtractExpr_create u p2 (v1 + v2))"
      using wf by (rule IH)
  qed
  from creates_Concat_refines [OF l(2) r(2) l(4) r(4) _ _ this] l r show ?thesis by simp
qed

lemma ExtractExpr_create_cast_sound:
  assumes N: "N = ZExtExpr src W \<or> N = SExtExpr src W"
    and IH: "wf_expr (ExtractExpr src off w) \<Longrightarrow> creates (ExtractExpr src off w) (ExtractExpr_create src off w)"
    and wf: "wf_expr (ExtractExpr N off w)" and w: "w \<noteq> W"
  shows "creates (ExtractExpr N off w) (ExtractExpr_create N off w)"
proof -
  have eq: "ExtractExpr_create N off w =
    (if off + w \<le> getWidth src then
       (if off = 0 \<and> w = getWidth src then Some src else ExtractExpr_create src off w)
     else Some (ExtractExpr N off w))"
    using N wf w by (auto simp: ExtractExpr_create.simps [of "ZExtExpr _ _"] ExtractExpr_create.simps [of "SExtExpr _ _"])
  have src: "wf_expr src" "getWidth src \<le> W" "0 < w" using N wf by auto
  show ?thesis
  proof (cases "off + w \<le> getWidth src")
    case True
    then have r: "refines (ExtractExpr N off w) (ExtractExpr src off w)"
      using N refines_Extract_cast [OF True src(2)] by auto
    have "creates (ExtractExpr N off w) (Some src)" if "off = 0" "w = getWidth src"
      using that src refines_trans [OF r] refines_Extract_whole [of src] by (auto intro!: createsI)
    then show ?thesis
      using creates_refines [OF IH r] True src by (auto simp: eq)
  qed (use wf eq in simp)
qed

lemma ExtractExpr_create_sound:
  "wf_expr (ExtractExpr e off w) \<Longrightarrow> creates (ExtractExpr e off w) (ExtractExpr_create e off w)"
proof (induction "size e" arbitrary: e off w rule: less_induct)
  case less
  note wf = less(2)
  show ?case
  proof (cases "w = getWidth e")
    case True
    then show ?thesis
      using wf refines_Extract_whole [of e]
      by (auto simp: ExtractExpr_create.simps [of e 0 "getWidth e"] intro!: createsI)
  next
    case w: False
    show ?thesis
    proof (cases e)
      case (ConstantExpr c)
      then show ?thesis
        using wf w by (auto simp: ExtractExpr_create.simps [of "ConstantExpr _"] apval_Extract intro!: createsI refinesI)
    next
      case (ConcatExpr x y)
      have x: "size x < size e" and y: "size y < size e" and wfy: "wf_expr y"
        using ConcatExpr wf by simp_all
      consider (l) "getWidth y \<le> off" | (r) "\<not> getWidth y \<le> off" "off + w \<le> getWidth y"
        | (b) "\<not> getWidth y \<le> off" "\<not> off + w \<le> getWidth y" by blast
      then show ?thesis
      proof cases
        case l
        with creates_refines [OF less(1) [OF x] refines_Extract_Concat(1) [OF wfy l], of w] ConcatExpr wf w
        show ?thesis by (auto simp: ExtractExpr_create_Concat)
      next
        case r
        with creates_refines [OF less(1) [OF y] refines_Extract_Concat(2) [OF wfy r(2)]] ConcatExpr wf w
        show ?thesis by (simp add: ExtractExpr_create_Concat)
      next
        case b
        from b have b': "off < getWidth y" "getWidth y < off + w" by simp_all
        have "creates (ConcatExpr (ExtractExpr x 0 (w + off - getWidth y)) (ExtractExpr y off (getWidth y - off)))
          (do { l \<leftarrow> ExtractExpr_create x 0 (w + off - getWidth y);
                r \<leftarrow> ExtractExpr_create y off (getWidth y - off); ConcatExpr_create l r })"
          by (rule ExtractExpr_create_split; rule less(1)) (use x y wf b ConcatExpr in auto)
        from creates_refines [OF this refines_Extract_Concat(3) [OF wfy b']] ConcatExpr wf w b show ?thesis
          by (simp add: ExtractExpr_create_Concat)
      qed
    next
      case (ZExtExpr src W)
      then show ?thesis
        using w by (intro ExtractExpr_create_cast_sound [OF _ less(1) wf, of src W]) simp_all
    next
      case (SExtExpr src W)
      then show ?thesis
        using w by (intro ExtractExpr_create_cast_sound [OF _ less(1) wf, of src W]) simp_all
    qed (use wf w in \<open>simp_all add: ExtractExpr_create.simps\<close>)
  qed
qed

lemma ConcatExpr_create_sound:
  "wf_expr (ConcatExpr l r) \<Longrightarrow> creates (ConcatExpr l r) (ConcatExpr_create l r)"
  unfolding ConcatExpr_create_def
  by (rule ConcatExpr_create_with_sound) (auto intro: ExtractExpr_create_sound)

lemma ConcatExpr_create_bind:
  assumes "wf_expr l" "creates r m"
  shows "creates (ConcatExpr l r) (do { r' \<leftarrow> m; ConcatExpr_create l r' })"
  using assms(2)
proof (rule createsE)
  fix r' assume r': "m = Some r'" "wf_expr r'" "getWidth r' = getWidth r" "refines r r'"
  show ?thesis
    using creates_Concat_refines [OF assms(1) r'(2) refines_refl r'(4) refl r'(3) ConcatExpr_create_sound]
      assms(1) r' by simp
qed

fun concat_nodes :: "expr list \<Rightarrow> expr" where
  "concat_nodes [k] = k"
| "concat_nodes (k # ks) = ConcatExpr k (concat_nodes ks)"

lemma ConcatExpr_createN_sound:
  "ks \<noteq> [] \<Longrightarrow> \<forall>k \<in> set ks. wf_expr k \<Longrightarrow> creates (concat_nodes ks) (ConcatExpr_createN ks)"
  by (induction ks rule: concat_nodes.induct) (auto intro: ConcatExpr_create_bind)

lemma ConcatExpr_create4_createN: "ConcatExpr_create4 k1 k2 k3 k4 = ConcatExpr_createN [k1, k2, k3, k4]"
  by (simp add: ConcatExpr_create4_def)

lemma ConcatExpr_create8_createN:
  "ConcatExpr_create8 k1 k2 k3 k4 k5 k6 k7 k8 = ConcatExpr_createN [k1, k2, k3, k4, k5, k6, k7, k8]"
  by (simp add: ConcatExpr_create8_def ConcatExpr_create4_def)

section \<open>Soundness of Not and the casts\<close>

lemma NotExpr_create_sound:
  "wf_expr e \<Longrightarrow> creates (NotExpr e) (NotExpr_create e)"
  by (auto simp: NotExpr_create_def apval_Not intro!: createsI refinesI split: option.split)

lemma sgn_val_mod_le: "w \<le> n \<Longrightarrow> sgn_val n v mod 2 ^ w = v mod 2 ^ w"
  using mod_pow2_mod [of w n "sgn_val n v"] mod_pow2_mod [of w n v] by simp

lemma ZExtExpr_create_sound:
  assumes "wf_expr e" "0 < w"
  shows "\<exists>e'. ZExtExpr_create e w = Some e' \<and> wf_expr e' \<and> getWidth e' = w \<and>
    (\<forall>\<sigma> v. eval \<sigma> e = Some v \<longrightarrow> eval \<sigma> e' = Some (v mod 2 ^ w))"
proof (cases "w < getWidth e")
  case True
  with ExtractExpr_create_sound [of e 0 w] assms obtain e' where
    "ExtractExpr_create e 0 w = Some e'" "wf_expr e'" "getWidth e' = w" "refines (ExtractExpr e 0 w) e'"
    by (auto elim: createsE)
  then show ?thesis using True by (auto simp: ZExtExpr_create_def ZExtExpr_create_with_def refines_def)
next
  case False
  have "v mod 2 ^ w = v" if "eval \<sigma> e = Some v" for \<sigma> v
    using eval_range [OF assms(1) that] pow2_mono_less [of v "getWidth e" w] False by (simp add: mod_pow2_small)
  then show ?thesis
    using False assms
    by (auto simp: ZExtExpr_create_def ZExtExpr_create_with_def ConstantExpr_ZExt_def split: option.split)
qed

lemma SExtExpr_create_sound:
  assumes "wf_expr e" "0 < w"
  shows "\<exists>e'. SExtExpr_create e w = Some e' \<and> wf_expr e' \<and> getWidth e' = w \<and>
    (\<forall>\<sigma> v. eval \<sigma> e = Some v \<longrightarrow> eval \<sigma> e' = Some (sgn_val (getWidth e) v mod 2 ^ w))"
proof (cases "w < getWidth e")
  case True
  with ExtractExpr_create_sound [of e 0 w] assms obtain e' where
    "ExtractExpr_create e 0 w = Some e'" "wf_expr e'" "getWidth e' = w" "refines (ExtractExpr e 0 w) e'"
    by (auto elim: createsE)
  then show ?thesis
    using True by (auto simp: SExtExpr_create_def SExtExpr_create_with_def refines_def sgn_val_mod_le)
next
  case False
  have "v mod 2 ^ getWidth e = v" if "eval \<sigma> e = Some v" for \<sigma> v
    using eval_range [OF assms(1) that] by (simp add: mod_pow2_small)
  then show ?thesis
    using False assms
    by (auto simp: SExtExpr_create_def SExtExpr_create_with_def ConstantExpr_SExt_def split: option.split)
qed

section \<open>Select\<close>

definition SelectExpr_create :: "expr \<Rightarrow> expr \<Rightarrow> expr \<Rightarrow> expr option" where
  "SelectExpr_create c t f =
     (let kt = getWidth t in
      if getWidth c \<noteq> 1 \<or> kt \<noteq> getWidth f then None
      else case as_const c of
        Some ce \<Rightarrow> Some (if ConstantExpr_isTrue ce then t else f)
      | None \<Rightarrow>
          if t = f then Some t
          else if kt = 1 then
            (case as_const t of
               Some ct \<Rightarrow>
                 if ConstantExpr_isTrue ct then OrExpr_create c f
                 else do { nc \<leftarrow> createIsZero c; AndExpr_create nc f }
             | None \<Rightarrow>
                 (case as_const f of
                    Some cf \<Rightarrow>
                      if ConstantExpr_isTrue cf then do { nc \<leftarrow> createIsZero c; OrExpr_create nc t }
                      else AndExpr_create c t
                  | None \<Rightarrow> Some (SelectExpr c t f)))
          else Some (SelectExpr c t f))"

lemma eval_Select_Some:
  "eval \<sigma> (SelectExpr c t f) = Some v \<longleftrightarrow>
     (\<exists>b x y. eval \<sigma> c = Some b \<and> eval \<sigma> t = Some x \<and> eval \<sigma> f = Some y \<and> v = (if b \<noteq> 0 then x else y))"
  by (auto split: option.splits)

lemma refines_Select_boolI:
  assumes "wf_expr (SelectExpr c t f)" "getWidth t = 1"
    and "\<And>\<sigma> b x y. eval \<sigma> c = Some b \<Longrightarrow> eval \<sigma> t = Some x \<Longrightarrow> eval \<sigma> f = Some y \<Longrightarrow>
      b = 0 \<or> b = 1 \<Longrightarrow> x = 0 \<or> x = 1 \<Longrightarrow> y = 0 \<or> y = 1 \<Longrightarrow> eval \<sigma> e' = Some (if b \<noteq> 0 then x else y)"
  shows "refines (SelectExpr c t f) e'"
proof (rule refinesI)
  fix \<sigma> v assume "eval \<sigma> (SelectExpr c t f) = Some v"
  then obtain b x y where e: "eval \<sigma> c = Some b" "eval \<sigma> t = Some x" "eval \<sigma> f = Some y"
    and v: "v = (if b \<noteq> 0 then x else y)"
    unfolding eval_Select_Some by blast
  show "eval \<sigma> e' = Some v"
    unfolding v using assms(1,2)
    by (intro assms(3) [OF e] eval_bool [OF _ e(1)] eval_bool [OF _ e(2)] eval_bool [OF _ e(3)]) simp_all
qed

lemma refines_Select_bool:
  assumes "wf_expr (SelectExpr c t f)" "getWidth t = 1"
  shows "t = ConstantExpr ct \<Longrightarrow> ConstantExpr_isTrue ct \<Longrightarrow> refines (SelectExpr c t f) (BinaryExpr Or c f)"
    "t = ConstantExpr ct \<Longrightarrow> \<not> ConstantExpr_isTrue ct \<Longrightarrow>
      refines (SelectExpr c t f) (BinaryExpr And (BinaryExpr Eq c (ConstantExpr_alloc 0 1)) f)"
    "f = ConstantExpr cf \<Longrightarrow> ConstantExpr_isTrue cf \<Longrightarrow>
      refines (SelectExpr c t f) (BinaryExpr Or (BinaryExpr Eq c (ConstantExpr_alloc 0 1)) t)"
    "f = ConstantExpr cf \<Longrightarrow> \<not> ConstantExpr_isTrue cf \<Longrightarrow> refines (SelectExpr c t f) (BinaryExpr And c t)"
  using assms
  by (intro refines_Select_boolI [OF assms]; auto simp: ConstantExpr_isTrue_def bool_val_def)+

lemma Select_const_arm_t:
  assumes wf: "wf_expr (SelectExpr c t f)" and w: "getWidth t = 1" and ct: "t = ConstantExpr ct"
  shows "creates (SelectExpr c t f)
    (if ConstantExpr_isTrue ct then OrExpr_create c f else do { nc \<leftarrow> createIsZero c; AndExpr_create nc f })"
proof (cases "ConstantExpr_isTrue ct")
  case True
  have "creates (SelectExpr c t f) (OrExpr_create c f)"
    by (rule creates_refines [OF OrExpr_create_sound refines_Select_bool(1) [OF wf w ct True]]) (use wf w in simp_all)
  then show ?thesis using True by simp
next
  case False
  have "creates (SelectExpr c t f) (do { nc \<leftarrow> createIsZero c; AndExpr_create nc f })"
    by (rule creates_refines [OF creates_IsZeroL(1) refines_Select_bool(2) [OF wf w ct False]]) (use wf w in simp_all)
  then show ?thesis using False by simp
qed

lemma Select_const_arm_f:
  assumes wf: "wf_expr (SelectExpr c t f)" and w: "getWidth t = 1" and cf: "f = ConstantExpr cf"
  shows "creates (SelectExpr c t f)
    (if ConstantExpr_isTrue cf then do { nc \<leftarrow> createIsZero c; OrExpr_create nc t } else AndExpr_create c t)"
proof (cases "ConstantExpr_isTrue cf")
  case True
  have "creates (SelectExpr c t f) (do { nc \<leftarrow> createIsZero c; OrExpr_create nc t })"
    by (rule creates_refines [OF creates_IsZeroL(2) refines_Select_bool(3) [OF wf w cf True]]) (use wf w in simp_all)
  then show ?thesis using True by simp
next
  case False
  have "creates (SelectExpr c t f) (AndExpr_create c t)"
    by (rule creates_refines [OF AndExpr_create_sound refines_Select_bool(4) [OF wf w cf False]]) (use wf w in simp_all)
  then show ?thesis using False by simp
qed

lemma SelectExpr_create_sound:
  assumes wf: "wf_expr (SelectExpr c t f)"
  shows "creates (SelectExpr c t f) (SelectExpr_create c t f)"
proof -
  have wfs: "wf_expr c" "wf_expr t" "wf_expr f" "getWidth c = 1" "getWidth t = getWidth f" using wf by auto
  consider (c) cc where "as_const c = Some cc" | (same) "as_const c = None" "t = f"
    | (t) ct where "as_const c = None" "t \<noteq> f" "getWidth t = 1" "as_const t = Some ct"
    | (f) cf where "as_const c = None" "t \<noteq> f" "getWidth t = 1" "as_const t = None" "as_const f = Some cf"
    | (sym) "as_const c = None" "t \<noteq> f" "getWidth t \<noteq> 1 \<or> as_const t = None \<and> as_const f = None"
    by (cases "as_const c"; cases "as_const t"; cases "as_const f") auto
  then show ?thesis
  proof cases
    case c
    then have "SelectExpr_create c t f = Some (if ConstantExpr_isTrue cc then t else f)"
      using wfs by (simp add: SelectExpr_create_def)
    then show ?thesis
      using c wfs by (auto simp: ConstantExpr_isTrue_def intro!: createsI refinesI split: option.splits)
  next
    case same
    then have "SelectExpr_create c t f = Some t" using wfs by (simp add: SelectExpr_create_def)
    then show ?thesis using same wfs by (auto intro!: createsI refinesI split: option.splits)
  next
    case t
    then have "SelectExpr_create c t f =
        (if ConstantExpr_isTrue ct then OrExpr_create c f else do { nc \<leftarrow> createIsZero c; AndExpr_create nc f })"
      using wfs by (simp add: SelectExpr_create_def)
    then show ?thesis using Select_const_arm_t [OF wf t(3)] t(4) by (simp only: as_const_Some)
  next
    case f
    then have "SelectExpr_create c t f =
        (if ConstantExpr_isTrue cf then do { nc \<leftarrow> createIsZero c; OrExpr_create nc t } else AndExpr_create c t)"
      using wfs by (simp add: SelectExpr_create_def)
    then show ?thesis using Select_const_arm_f [OF wf f(3)] f(5) by (simp only: as_const_Some)
  next
    case sym
    then show ?thesis using wfs wf by (auto simp: SelectExpr_create_def)
  qed
qed

section \<open>Read\<close>

text \<open>
  The loop over the update nodes, most recent first: a value that is found, or
  the node list where the loop stops, with the flag that it stopped at a write
  whose index is not known to differ.
\<close>

fun ReadExpr_loop :: "expr \<Rightarrow> updates \<Rightarrow> (expr option \<times> updates \<times> bool) option" where
  "ReadExpr_loop index [] = Some (None, [], False)"
| "ReadExpr_loop index ((j, v) # un) =
     do { cond \<leftarrow> EqExpr_create index j;
          case as_const cond of
            Some c \<Rightarrow>
              if ConstantExpr_isTrue c then Some (Some v, (j, v) # un, False)
              else ReadExpr_loop index un
          | None \<Rightarrow> Some (None, (j, v) # un, True) }"

definition ReadExpr_create :: "array \<Rightarrow> updates \<Rightarrow> expr \<Rightarrow> expr option" where
  "ReadExpr_create root head index =
     do { (found, un, updateListHasSymbolicWrites) \<leftarrow> ReadExpr_loop index head;
          case found of
            Some v \<Rightarrow> Some v
          | None \<Rightarrow>
              (case as_const index of
                 Some CE \<Rightarrow>
                   if getBitWidth CE > 64 then None
                   else if apval CE < int (arr_size root) then
                     (if isConstantArray root \<and> \<not> updateListHasSymbolicWrites
                      then Some (ConstantExpr (constantValues root ! nat (apval CE)))
                      else Some (ReadExpr root un index))
                   else Some (ReadExpr root head index)
               | None \<Rightarrow> Some (ReadExpr root head index)) }"

text \<open>What the loop promises: the read of the found value, or of the remaining nodes, is the read.\<close>

definition loop_inv :: "expr \<Rightarrow> array \<Rightarrow> updates \<Rightarrow> expr option \<times> updates \<times> bool \<Rightarrow> bool" where
  "loop_inv idx a us = (\<lambda>(found, un, sym).
     wf_updates a un \<and> (found = None \<longrightarrow> \<not> sym \<longrightarrow> un = []) \<and>
     (\<forall>v. found = Some v \<longrightarrow> wf_expr v \<and> getWidth v = arr_range a) \<and>
     (\<forall>\<sigma> n r. eval \<sigma> idx = Some n \<longrightarrow> eval_read \<sigma> a us n = Some r \<longrightarrow>
        (case found of Some v \<Rightarrow> eval \<sigma> v | None \<Rightarrow> eval_read \<sigma> a un n) = Some r))"

lemma loop_inv_skip:
  assumes "loop_inv idx a un res"
    and "\<And>\<sigma> n m. eval \<sigma> idx = Some n \<Longrightarrow> eval \<sigma> j = Some m \<Longrightarrow> m \<noteq> n"
  shows "loop_inv idx a ((j, v) # un) res"
proof -
  have "eval_read \<sigma> a un n = Some r" if "eval \<sigma> idx = Some n" "eval_read \<sigma> a ((j, v) # un) n = Some r" for \<sigma> n r
    using that assms(2) [OF that(1)] by (auto split: option.splits if_splits)
  then show ?thesis using assms(1) unfolding loop_inv_def by blast
qed

lemma ReadExpr_loop_sound:
  assumes "wf_expr idx" "getWidth idx = arr_domain a" "wf_updates a us"
  shows "\<exists>res. ReadExpr_loop idx us = Some res \<and> loop_inv idx a us res"
  using assms
proof (induction idx us rule: ReadExpr_loop.induct)
  case (1 idx)
  show ?case by (simp add: loop_inv_def)
next
  case (2 idx j v un)
  from 2(2-) have "wf_expr (BinaryExpr Eq idx j)" by simp
  from EqExpr_create_sound [OF this] obtain cond where cond: "EqExpr_create idx j = Some cond"
    "wf_expr cond" "getWidth cond = 1" "refines (BinaryExpr Eq idx j) cond"
    by (auto elim: createsE)
  show ?case
  proof (cases "as_const cond")
    case None
    with cond(1) 2(4) show ?thesis by (simp add: loop_inv_def)
  next
    case (Some c)
    have eq: "(m = n) = ConstantExpr_isTrue c" if "eval \<sigma> idx = Some n" "eval \<sigma> j = Some m" for \<sigma> m n
      using refinesD [OF cond(4), of \<sigma> "bool_val (n = m)"] that Some cond(2,3)
      by (auto simp: ConstantExpr_isTrue_def bool_val_def split: if_splits)
    show ?thesis
    proof (cases "ConstantExpr_isTrue c")
      case True
      have "eval \<sigma> v = Some r" if "eval \<sigma> idx = Some n" "eval_read \<sigma> a ((j, v) # un) n = Some r" for \<sigma> n r
        using that True eq [OF that(1)] by (auto split: option.splits if_splits)
      then have "loop_inv idx a ((j, v) # un) (Some v, (j, v) # un, False)"
        using 2(4) unfolding loop_inv_def by simp
      then show ?thesis using True Some cond(1) by simp
    next
      case False
      from 2(1) [OF cond(1) Some False 2(2,3)] 2(4) obtain res where
        res: "ReadExpr_loop idx un = Some res" "loop_inv idx a un res" by auto
      have "loop_inv idx a ((j, v) # un) res"
        by (rule loop_inv_skip [OF res(2)]) (use eq False in blast)
      then show ?thesis using False Some cond(1) res(1) by simp
    qed
  qed
qed

lemma eval_Read_Some:
  "eval \<sigma> (ReadExpr a us i) = Some v \<longleftrightarrow> (\<exists>n. eval \<sigma> i = Some n \<and> eval_read \<sigma> a us n = Some v)"
  by (auto split: option.splits)

lemma constantValues_nth:
  assumes "wf_array a" "isConstantArray a" "0 \<le> n" "n < int (arr_size a)"
  shows "wf_apint (constantValues a ! nat n)" "getBitWidth (constantValues a ! nat n) = arr_range a"
proof -
  have "constantValues a ! nat n \<in> set (constantValues a)"
    using assms by (simp add: wf_array_def nat_less_iff)
  then show "wf_apint (constantValues a ! nat n)" "getBitWidth (constantValues a ! nat n) = arr_range a"
    using assms(1) by (auto simp: wf_array_def)
qed

lemma ReadExpr_create_sound:
  assumes wf: "wf_expr (ReadExpr a us idx)"
  shows "creates (ReadExpr a us idx) (ReadExpr_create a us idx)"
proof -
  have w: "wf_expr idx" "getWidth idx = arr_domain a" "wf_updates a us" "wf_array a" using wf by auto
  obtain found un sym where loop: "ReadExpr_loop idx us = Some (found, un, sym)" and inv: "loop_inv idx a us (found, un, sym)"
    using ReadExpr_loop_sound [OF w(1-3)] by (metis prod_cases3)
  have un: "wf_updates a un" "found = None \<Longrightarrow> \<not> sym \<Longrightarrow> un = []" using inv by (auto simp: loop_inv_def)
  show ?thesis
  proof (cases found)
    case (Some v)
    with inv have "wf_expr v" "getWidth v = arr_range a" "refines (ReadExpr a us idx) v"
      by (auto simp: loop_inv_def refines_def eval_Read_Some simp del: eval.simps(3))
    then show ?thesis using Some loop by (auto simp: ReadExpr_create_def intro: createsI)
  next
    case None
    have r: "refines (ReadExpr a us idx) (ReadExpr a un idx)"
      using None inv by (auto simp: loop_inv_def refines_def eval_Read_Some simp del: eval.simps(3))
    have c: "creates (ReadExpr a us idx) (Some (ConstantExpr (constantValues a ! nat (apval c))))"
      if "idx = ConstantExpr c" "apval c < int (arr_size a)" "isConstantArray a" "\<not> sym" for c
      using un(2) [OF None that(4)] constantValues_nth [OF w(4) that(3) _ that(2)] w(1) that(1-3) r
      by (auto simp: refines_def initial_value_def wf_apint_def intro!: createsI)
    have "creates (ReadExpr a us idx) (Some (ReadExpr a un idx))"
      using w un(1) r by (auto intro: createsI)
    moreover have "getBitWidth c \<le> 64" if "idx = ConstantExpr c" for c
      using that w by (auto simp: wf_array_def)
    ultimately show ?thesis
      using None loop wf c by (auto simp: ReadExpr_create_def not_less split: option.split)
  qed
qed

section \<open>Construction by kind\<close>

datatype kind = KConstant | KNotOptimized | KRead | KSelect | KConcat | KExtract | KZExt | KSExt
  | KNot | KBinary bkind

datatype CreateArg = ArgExpr expr | ArgWidth width

fun BinaryExpr_create :: "bkind \<Rightarrow> expr \<Rightarrow> expr \<Rightarrow> expr option" where
  "BinaryExpr_create Add l r = AddExpr_create l r"
| "BinaryExpr_create Sub l r = SubExpr_create l r"
| "BinaryExpr_create Mul l r = MulExpr_create l r"
| "BinaryExpr_create UDiv l r = UDivExpr_create l r"
| "BinaryExpr_create SDiv l r = SDivExpr_create l r"
| "BinaryExpr_create URem l r = URemExpr_create l r"
| "BinaryExpr_create SRem l r = SRemExpr_create l r"
| "BinaryExpr_create And l r = AndExpr_create l r"
| "BinaryExpr_create Or l r = OrExpr_create l r"
| "BinaryExpr_create Xor l r = XorExpr_create l r"
| "BinaryExpr_create Shl l r = ShlExpr_create l r"
| "BinaryExpr_create LShr l r = LShrExpr_create l r"
| "BinaryExpr_create AShr l r = AShrExpr_create l r"
| "BinaryExpr_create Eq l r = EqExpr_create l r"
| "BinaryExpr_create Ne l r = NeExpr_create l r"
| "BinaryExpr_create Ult l r = UltExpr_create l r"
| "BinaryExpr_create Ule l r = UleExpr_create l r"
| "BinaryExpr_create Ugt l r = UgtExpr_create l r"
| "BinaryExpr_create Uge l r = UgeExpr_create l r"
| "BinaryExpr_create Slt l r = SltExpr_create l r"
| "BinaryExpr_create Sle l r = SleExpr_create l r"
| "BinaryExpr_create Sgt l r = SgtExpr_create l r"
| "BinaryExpr_create Sge l r = SgeExpr_create l r"

definition createFromKind :: "kind \<Rightarrow> CreateArg list \<Rightarrow> expr option" where
  "createFromKind k args =
     (case k of
        KNotOptimized \<Rightarrow> (case args of [ArgExpr e] \<Rightarrow> NotOptimizedExpr_create e | _ \<Rightarrow> None)
      | KSelect \<Rightarrow>
          (case args of [ArgExpr c, ArgExpr t, ArgExpr f] \<Rightarrow> SelectExpr_create c t f | _ \<Rightarrow> None)
      | KConcat \<Rightarrow> (case args of [ArgExpr l, ArgExpr r] \<Rightarrow> ConcatExpr_create l r | _ \<Rightarrow> None)
      | KZExt \<Rightarrow> (case args of [ArgExpr e, ArgWidth w] \<Rightarrow> ZExtExpr_create e w | _ \<Rightarrow> None)
      | KSExt \<Rightarrow> (case args of [ArgExpr e, ArgWidth w] \<Rightarrow> SExtExpr_create e w | _ \<Rightarrow> None)
      | KBinary b \<Rightarrow> (case args of [ArgExpr l, ArgExpr r] \<Rightarrow> BinaryExpr_create b l r | _ \<Rightarrow> None)
      | _ \<Rightarrow> None)"

lemma BinaryExpr_create_sound:
  assumes "wf_expr (BinaryExpr k l r)"
    and "is_div k \<Longrightarrow> as_const l \<noteq> None \<Longrightarrow> \<not> Expr_isZero r"
  shows "creates (BinaryExpr k l r) (BinaryExpr_create k l r)"
  using assms
proof (cases k)
  case UDiv then show ?thesis using assms UDiv_create.create_sound by simp
next
  case SDiv then show ?thesis using assms SDiv_create.create_sound by simp
next
  case URem then show ?thesis using assms URem_create.create_sound by simp
next
  case SRem then show ?thesis using assms SRem_create.create_sound by simp
qed (use assms(1) in \<open>simp_all add: AddExpr_create_sound SubExpr_create_sound MulExpr_create_sound
  AndExpr_create_sound OrExpr_create_sound XorExpr_create_sound EqExpr_create_sound NeExpr_create_sound
  Shl_create.create_sound_nodiv LShr_create.create_sound_nodiv AShr_create.create_sound_nodiv Ult_create.create_sound_nodiv
  Ule_create.create_sound_nodiv Slt_create.create_sound_nodiv Sle_create.create_sound_nodiv Ugt_create.create_sound_nodiv
  Uge_create.create_sound_nodiv Sgt_create.create_sound_nodiv Sge_create.create_sound_nodiv\<close>)

interpretation Binary_create: binary_create k "BinaryExpr_create k" for k
  by unfold_locales (rule BinaryExpr_create_sound)

section \<open>Temporary reads\<close>

definition read_byte :: "array \<Rightarrow> nat \<Rightarrow> expr option" where
  "read_byte a i = ReadExpr_create a [] (ConstantExpr_alloc (int i) 32)"

definition createTempRead :: "array \<Rightarrow> width \<Rightarrow> expr option" where
  "createTempRead a w =
     (if w = 1 then do { b \<leftarrow> read_byte a 0; ZExtExpr_create b 1 }
      else if w = 8 then read_byte a 0
      else if w = 16 then do { b1 \<leftarrow> read_byte a 1; b0 \<leftarrow> read_byte a 0; ConcatExpr_create b1 b0 }
      else if w = 32 then
        do { b3 \<leftarrow> read_byte a 3; b2 \<leftarrow> read_byte a 2; b1 \<leftarrow> read_byte a 1; b0 \<leftarrow> read_byte a 0;
             ConcatExpr_create4 b3 b2 b1 b0 }
      else if w = 64 then
        do { b7 \<leftarrow> read_byte a 7; b6 \<leftarrow> read_byte a 6; b5 \<leftarrow> read_byte a 5; b4 \<leftarrow> read_byte a 4;
             b3 \<leftarrow> read_byte a 3; b2 \<leftarrow> read_byte a 2; b1 \<leftarrow> read_byte a 1; b0 \<leftarrow> read_byte a 0;
             ConcatExpr_create8 b7 b6 b5 b4 b3 b2 b1 b0 }
      else None)"

text \<open>The little-endian value of the first \<open>n\<close> bytes.\<close>

fun le_bytes :: "(int \<Rightarrow> int) \<Rightarrow> nat \<Rightarrow> int" where
  "le_bytes f 0 = 0"
| "le_bytes f (Suc n) = f (int n) * 2 ^ (8 * n) + le_bytes f n"

lemma read_byte_sound:
  assumes "wf_array a" "arr_domain a = 32" "arr_range a = 8" "int i < 2 ^ 32"
  obtains b where "read_byte a i = Some b" "wf_expr b" "getWidth b = 8"
    "\<And>\<sigma>. eval \<sigma> b = Some (initial_value \<sigma> a (int i))"
proof -
  have "creates (ReadExpr a [] (ConstantExpr_alloc (int i) 32)) (read_byte a i)"
    unfolding read_byte_def by (rule ReadExpr_create_sound) (use assms in simp)
  then show ?thesis
    using assms(3,4) by (auto elim!: createsE intro!: that simp: refines_def)
qed

lemma concat_bytes:
  assumes "\<forall>b \<in> set bs. wf_expr b" "ConcatExpr_createN bs = m" "bs \<noteq> []"
    and "\<And>\<sigma>. eval \<sigma> (concat_nodes bs) = Some (V \<sigma>)"
  shows "\<exists>e. m = Some e \<and> wf_expr e \<and> getWidth e = getWidth (concat_nodes bs) \<and>
    (\<forall>\<sigma>. eval \<sigma> e = Some (V \<sigma>))"
  using ConcatExpr_createN_sound [OF assms(3,1)] assms(2,4) by (auto elim!: createsE simp: refines_def)

lemma le_bytes_range:
  assumes "\<And>i. 0 \<le> i \<Longrightarrow> 0 \<le> f i \<and> f i < 2 ^ 8"
  shows "0 \<le> le_bytes f n \<and> le_bytes f n < 2 ^ (8 * n)"
proof (induction n)
  case (Suc n)
  then show ?case using concat_range [of "f (int n)" 8 "le_bytes f n" "8 * n"] assms [of "int n"] by simp
qed simp

lemma createTempRead_sound:
  assumes a: "wf_array a" "arr_domain a = 32" "arr_range a = 8" and w: "w \<in> {1, 8, 16, 32, 64}"
  shows "\<exists>e. createTempRead a w = Some e \<and> wf_expr e \<and> getWidth e = w \<and>
    (\<forall>\<sigma>. eval \<sigma> e = Some (le_bytes (initial_value \<sigma> a) (max 1 (w div 8)) mod 2 ^ w))"
proof -
  have "\<exists>b. read_byte a i = Some b \<and> wf_expr b \<and> getWidth b = 8 \<and>
      (\<forall>\<sigma>. eval \<sigma> b = Some (initial_value \<sigma> a (int i)))" if "i < 8" for i
    using that by (rule_tac read_byte_sound [OF a, of i]) auto
  then obtain b where b: "\<And>i. i < 8 \<Longrightarrow> read_byte a i = Some (b i)" "\<And>i. i < 8 \<Longrightarrow> wf_expr (b i)"
    "\<And>i. i < 8 \<Longrightarrow> getWidth (b i) = 8" "\<And>i \<sigma>. i < 8 \<Longrightarrow> eval \<sigma> (b i) = Some (initial_value \<sigma> a (int i))"
    by metis
  have "le_bytes (initial_value \<sigma> a) n mod 2 ^ (8 * n) = le_bytes (initial_value \<sigma> a) n" for \<sigma> n
    using le_bytes_range [of "initial_value \<sigma> a" n] initial_value_range [OF a(1)] a(3) by (simp add: mod_pow2_small)
  from this [of _ 1] this [of _ 2] this [of _ 4] this [of _ 8]
  have small: "initial_value \<sigma> a 0 mod 2 ^ 8 = initial_value \<sigma> a 0"
    "le_bytes (initial_value \<sigma> a) 2 mod 2 ^ 16 = le_bytes (initial_value \<sigma> a) 2"
    "le_bytes (initial_value \<sigma> a) 4 mod 2 ^ 32 = le_bytes (initial_value \<sigma> a) 4"
    "le_bytes (initial_value \<sigma> a) 8 mod 2 ^ 64 = le_bytes (initial_value \<sigma> a) 8" for \<sigma>
    by simp_all
  from w consider "w = 1" | "w = 8" | "w = 16" | "w = 32" | "w = 64" by blast
  then show ?thesis
  proof cases
    case 1
    with ZExtExpr_create_sound [OF b(2) [of 0], of 1] b(1) [of 0] b(4) [of 0] show ?thesis
      by (simp add: createTempRead_def)
  next
    case 2
    with b [of 0] small(1) show ?thesis by (simp add: createTempRead_def)
  next
    case 3
    have "\<exists>e. createTempRead a 16 = Some e \<and> wf_expr e \<and> getWidth e = getWidth (concat_nodes [b 1, b 0]) \<and>
        (\<forall>\<sigma>. eval \<sigma> e = Some (le_bytes (initial_value \<sigma> a) 2))"
      by (rule concat_bytes) (use b in \<open>simp_all add: createTempRead_def eval_nat_numeral\<close>)
    moreover have "getWidth (concat_nodes [b 1, b 0]) = 16" "max 1 (16 div 8) = (2::nat)" using b by simp_all
    ultimately show ?thesis by (simp only: 3 small)
  next
    case 4
    have "\<exists>e. createTempRead a 32 = Some e \<and> wf_expr e \<and> getWidth e = getWidth (concat_nodes [b 3, b 2, b 1, b 0]) \<and>
        (\<forall>\<sigma>. eval \<sigma> e = Some (le_bytes (initial_value \<sigma> a) 4))"
      by (rule concat_bytes) (use b in \<open>simp_all add: createTempRead_def ConcatExpr_create4_createN eval_nat_numeral\<close>)
    moreover have "getWidth (concat_nodes [b 3, b 2, b 1, b 0]) = 32" "max 1 (32 div 8) = (4::nat)"
      using b by simp_all
    ultimately show ?thesis by (simp only: 4 small)
  next
    case 5
    have "\<exists>e. createTempRead a 64 = Some e \<and> wf_expr e \<and>
        getWidth e = getWidth (concat_nodes [b 7, b 6, b 5, b 4, b 3, b 2, b 1, b 0]) \<and>
        (\<forall>\<sigma>. eval \<sigma> e = Some (le_bytes (initial_value \<sigma> a) 8))"
      by (rule concat_bytes) (use b in \<open>simp_all add: createTempRead_def ConcatExpr_create8_createN eval_nat_numeral\<close>)
    moreover have "getWidth (concat_nodes [b 7, b 6, b 5, b 4, b 3, b 2, b 1, b 0]) = 64"
      "max 1 (64 div 8) = (8::nat)" using b by simp_all
    ultimately show ?thesis by (simp only: 5 small)
  qed
qed

end
