(* ===== verification/ER_ArrayCache.thy ===== *)
theory ER_ArrayCache
  imports ER_ExprBits
begin

unbundle bit_operations_syntax

text \<open>
  Two containers the memory model rests on: the bit sets of
  \<^verbatim>\<open>include/klee/util/BitArray.h\<close>, packed in 32-bit words, and the cache of
  \<^verbatim>\<open>lib/Expr/ArrayCache.cpp\<close>, which hands out the arrays of the expressions:
  one object for all symbolic arrays of a name and size, a new object for
  every constant array.  The lemmas relate a bit set to the predicate it
  represents and show what the cache keeps distinct.
\<close>

section \<open>Bit sets\<close>

type_synonym BitArray = "32 word list"

text \<open>The number of words, computed in \<^verbatim>\<open>unsigned\<close> arithmetic.\<close>

definition BitArray_length :: "nat \<Rightarrow> nat" where
  "BitArray_length sz = (sz + 31) mod 2 ^ 32 div 32"

definition BitArray_new :: "nat \<Rightarrow> bool \<Rightarrow> BitArray" where
  "BitArray_new sz v = replicate (BitArray_length sz) (if v then 0xFFFFFFFF else 0)"

definition BitArray_copy :: "BitArray \<Rightarrow> nat \<Rightarrow> BitArray" where
  "BitArray_copy b sz = take (BitArray_length sz) b"

definition BitArray_get :: "BitArray \<Rightarrow> nat \<Rightarrow> bool" where
  "BitArray_get b idx \<longleftrightarrow> drop_bit (idx mod 32) (b ! (idx div 32)) AND 1 \<noteq> 0"

definition BitArray_set :: "BitArray \<Rightarrow> nat \<Rightarrow> BitArray" where
  "BitArray_set b idx = b[idx div 32 := b ! (idx div 32) OR push_bit (idx mod 32) 1]"

definition BitArray_unset :: "BitArray \<Rightarrow> nat \<Rightarrow> BitArray" where
  "BitArray_unset b idx = b[idx div 32 := b ! (idx div 32) AND NOT (push_bit (idx mod 32) 1)]"

definition BitArray_set_value :: "BitArray \<Rightarrow> nat \<Rightarrow> bool \<Rightarrow> BitArray" where
  "BitArray_set_value b idx v = (if v then BitArray_set b idx else BitArray_unset b idx)"

text \<open>A bit set for \<open>sz\<close> bits has room for all of them.\<close>

definition wf_BitArray :: "nat \<Rightarrow> BitArray \<Rightarrow> bool" where
  "wf_BitArray sz b \<longleftrightarrow> length b = (sz + 31) div 32"

lemma BitArray_length_small: "sz + 31 < 2 ^ 32 \<Longrightarrow> BitArray_length sz = (sz + 31) div 32"
  by (simp add: BitArray_length_def)

lemma wf_BitArray_ops [simp, er_wf]:
  "sz + 31 < 2 ^ 32 \<Longrightarrow> wf_BitArray sz (BitArray_new sz v)"
  "wf_BitArray sz b \<Longrightarrow> wf_BitArray sz (BitArray_set b i)"
  "wf_BitArray sz b \<Longrightarrow> wf_BitArray sz (BitArray_unset b i)"
  "sz + 31 < 2 ^ 32 \<Longrightarrow> wf_BitArray sz b \<Longrightarrow> BitArray_copy b sz = b"
  by (simp_all add: wf_BitArray_def BitArray_length_small BitArray_new_def BitArray_set_def BitArray_unset_def
    BitArray_copy_def)

lemma and_one_word: "(w AND 1 \<noteq> 0) \<longleftrightarrow> bit (w::32 word) 0"
  by (metis and_one_eq bit_0 even_iff_mod_2_eq_zero one_neq_zero parity_cases)

lemma BitArray_get_bit: "BitArray_get b i \<longleftrightarrow> bit (b ! (i div 32)) (i mod 32)"
  unfolding BitArray_get_def and_one_word by (simp add: bit_drop_bit_eq)

lemma BitArray_index: "wf_BitArray sz b \<Longrightarrow> i < sz \<Longrightarrow> i div 32 < length b"
  by (simp add: wf_BitArray_def)

lemma all_ones: "(0xFFFFFFFF::32 word) = - 1"
  by simp

lemma BitArray_get_new [simp]:
  assumes "sz + 31 < 2 ^ 32" "i < sz"
  shows "BitArray_get (BitArray_new sz v) i = v"
proof -
  have "i div 32 < BitArray_length sz"
    using BitArray_index [OF wf_BitArray_ops(1) [OF assms(1)] assms(2), of v] by (simp add: BitArray_new_def)
  then show ?thesis unfolding BitArray_get_bit BitArray_new_def all_ones by (simp add: bit_minus_1_iff)
qed

lemma idx_split: "(i::nat) div 32 = j div 32 \<Longrightarrow> i mod 32 = j mod 32 \<Longrightarrow> i = j"
  by (metis div_mult_mod_eq)

lemma bit_one_shift: "k < 32 \<Longrightarrow> bit (push_bit m (1::32 word)) k = (k = m)" "k < 32 \<Longrightarrow> bit (2 ^ m ::32 word) k = (k = m)"
  by (auto simp: bit_exp_iff)

lemma BitArray_get_set [simp]:
  assumes "wf_BitArray sz b" "i < sz" "j < sz"
  shows "BitArray_get (BitArray_set b i) j = (j = i \<or> BitArray_get b j)"
    "BitArray_get (BitArray_unset b i) j = (j \<noteq> i \<and> BitArray_get b j)"
proof -
  note len = BitArray_index [OF assms(1,2)]
  have m: "j mod 32 < 32" by simp
  have eq: "j = i \<longleftrightarrow> i div 32 = j div 32 \<and> j mod 32 = i mod 32" using idx_split [of i j] by auto
  show "BitArray_get (BitArray_set b i) j = (j = i \<or> BitArray_get b j)"
    unfolding BitArray_get_bit BitArray_set_def eq using len m
    by (cases "i div 32 = j div 32") (simp_all only: nth_list_update_eq nth_list_update_neq bit_or_iff bit_one_shift not_False_eq_True simp_thms disj_commute)
  show "BitArray_get (BitArray_unset b i) j = (j \<noteq> i \<and> BitArray_get b j)"
    unfolding BitArray_get_bit BitArray_unset_def eq using len m
    by (cases "i div 32 = j div 32") (auto simp: bit_and_iff bit_not_iff bit_one_shift)
qed

section \<open>Arrays\<close>

text \<open>
  The constructor: the 64-bit size is kept in an \<^verbatim>\<open>unsigned\<close>; a constant array
  must have one value of the range's width per element.
\<close>

definition Array_new :: "nat \<Rightarrow> string \<Rightarrow> nat \<Rightarrow> apint list \<Rightarrow> width \<Rightarrow> width \<Rightarrow> array option" where
  "Array_new ident name sz vals dw rw =
     (let a = \<lparr>arr_id = ident, arr_name = name, arr_size = sz mod 2 ^ 32, arr_domain = dw,
               arr_range = rw, constantValues = vals\<rparr>
      in if (isSymbolicArray a \<or> length vals = arr_size a) \<and> (\<forall>c \<in> set vals. getBitWidth c = rw)
         then Some a else None)"

text \<open>A \<^verbatim>\<open>char\<close> is signed; it is added to the \<^verbatim>\<open>unsigned\<close> accumulator.\<close>

definition char_value :: "char \<Rightarrow> int" where
  "char_value c = (let n = of_char c in if n < 128 then n else n - 256)"

definition Array_computeHash :: "array \<Rightarrow> 32 word" where
  "Array_computeHash a =
     foldl (\<lambda>res c. res * 39 + of_int (char_value c)) 0 (arr_name a) * 39 + of_nat (arr_size a)"

definition EquivArrayCmpFn :: "array \<Rightarrow> array \<Rightarrow> bool" where
  "EquivArrayCmpFn a b \<longleftrightarrow> arr_size a = arr_size b \<and> arr_name a = arr_name b"

text \<open>What makes the hash set work: equivalent arrays have the same hash.\<close>

lemma EquivArrayCmpFn_hash: "EquivArrayCmpFn a b \<Longrightarrow> Array_computeHash a = Array_computeHash b"
  by (simp add: EquivArrayCmpFn_def Array_computeHash_def)

section \<open>The array cache\<close>

text \<open>
  \<open>nextArray\<close> is the address of the next allocation: \<^verbatim>\<open>new\<close> returns an address
  no live array has.  A set with the hash and equality above is a list of
  pairwise different entries; by the lemma above an entry is found exactly when
  an equivalent one is in the list.
\<close>

record ArrayCache =
  cachedSymbolicArrays :: "array list"
  concreteArrays :: "array list"
  nextArray :: nat

definition ArrayCache_new :: ArrayCache where
  "ArrayCache_new = \<lparr>cachedSymbolicArrays = [], concreteArrays = [], nextArray = 0\<rparr>"

definition CreateArray ::
    "ArrayCache \<Rightarrow> string \<Rightarrow> nat \<Rightarrow> apint list \<Rightarrow> width \<Rightarrow> width \<Rightarrow> (array \<times> ArrayCache) option" where
  "CreateArray ac name sz vals dw rw =
     do { array \<leftarrow> Array_new (nextArray ac) name sz vals dw rw;
          let ac' = ac\<lparr>nextArray := nextArray ac + 1\<rparr> in
          if isSymbolicArray array then
            (case List.find (EquivArrayCmpFn array) (cachedSymbolicArrays ac) of
               None \<Rightarrow> Some (array, ac'\<lparr>cachedSymbolicArrays := array # cachedSymbolicArrays ac\<rparr>)
             | Some hit \<Rightarrow> if isSymbolicArray hit then Some (hit, ac') else None)
          else
            if isConstantArray array then Some (array, ac'\<lparr>concreteArrays := concreteArrays ac @ [array]\<rparr>)
            else None }"

definition ArrayCache_arrays :: "ArrayCache \<Rightarrow> array list" where
  "ArrayCache_arrays ac = cachedSymbolicArrays ac @ concreteArrays ac"

definition wf_ArrayCache :: "ArrayCache \<Rightarrow> bool" where
  "wf_ArrayCache ac \<longleftrightarrow>
     list_all isSymbolicArray (cachedSymbolicArrays ac) \<and> list_all isConstantArray (concreteArrays ac) \<and>
     sorted_wrt (\<lambda>a b. \<not> EquivArrayCmpFn a b) (cachedSymbolicArrays ac) \<and>
     distinct (map arr_id (ArrayCache_arrays ac)) \<and>
     list_all (\<lambda>a. arr_id a < nextArray ac) (ArrayCache_arrays ac)"

lemma wf_ArrayCache_new: "wf_ArrayCache ArrayCache_new"
  by (simp add: wf_ArrayCache_def ArrayCache_new_def ArrayCache_arrays_def)

lemma EquivArrayCmpFn_sym: "EquivArrayCmpFn a b \<longleftrightarrow> EquivArrayCmpFn b a"
  by (auto simp: EquivArrayCmpFn_def)

lemma Array_new_Some:
  "Array_new i n sz vals d r = Some a \<Longrightarrow>
     a = \<lparr>arr_id = i, arr_name = n, arr_size = sz mod 2 ^ 32, arr_domain = d, arr_range = r, constantValues = vals\<rparr> \<and>
     (vals = [] \<or> length vals = sz mod 2 ^ 32) \<and> (\<forall>c \<in> set vals. getBitWidth c = r)"
  by (auto simp: Array_new_def isSymbolicArray_def Let_def split: if_splits)

lemma CreateArray_constant:
  assumes "vals \<noteq> []" "length vals = sz" "sz < 2 ^ 32" "\<forall>c \<in> set vals. getBitWidth c = r"
  shows "CreateArray ac n sz vals d r =
    (let a = \<lparr>arr_id = nextArray ac, arr_name = n, arr_size = sz, arr_domain = d, arr_range = r, constantValues = vals\<rparr>
     in Some (a, ac\<lparr>nextArray := nextArray ac + 1, concreteArrays := concreteArrays ac @ [a]\<rparr>))"
  using assms by (simp add: CreateArray_def Array_new_def isSymbolicArray_def isConstantArray_def Let_def)

lemma CreateArray_symbolic:
  "CreateArray ac n sz [] d r =
    (let a = \<lparr>arr_id = nextArray ac, arr_name = n, arr_size = sz mod 2 ^ 32, arr_domain = d, arr_range = r, constantValues = []\<rparr>;
         ac' = ac\<lparr>nextArray := nextArray ac + 1\<rparr>
     in case List.find (EquivArrayCmpFn a) (cachedSymbolicArrays ac) of
          None \<Rightarrow> Some (a, ac'\<lparr>cachedSymbolicArrays := a # cachedSymbolicArrays ac\<rparr>)
        | Some hit \<Rightarrow> if isSymbolicArray hit then Some (hit, ac') else None)"
  by (simp add: CreateArray_def Array_new_def isSymbolicArray_def Let_def)

lemma CreateArray_wf:
  assumes "wf_ArrayCache ac" "CreateArray ac n sz vals d r = Some (a, ac')"
  shows "wf_ArrayCache ac'" "a \<in> set (ArrayCache_arrays ac')" "arr_name a = n" "arr_size a = sz mod 2 ^ 32"
    "constantValues a = vals" "set (ArrayCache_arrays ac) \<subseteq> set (ArrayCache_arrays ac')"
proof -
  have lt: "arr_id x \<noteq> nextArray ac" "arr_id x < Suc (nextArray ac)" if "x \<in> set (ArrayCache_arrays ac)" for x
    using that assms(1) by (auto simp: wf_ArrayCache_def list_all_iff)
  have all: "wf_ArrayCache ac' \<and> a \<in> set (ArrayCache_arrays ac') \<and> arr_name a = n \<and> arr_size a = sz mod 2 ^ 32 \<and>
    constantValues a = vals \<and> set (ArrayCache_arrays ac) \<subseteq> set (ArrayCache_arrays ac')"
  proof (cases "vals = []")
    case True
    define a0 where "a0 = \<lparr>arr_id = nextArray ac, arr_name = n, arr_size = sz mod 2 ^ 32, arr_domain = d, arr_range = r,
      constantValues = ([]::apint list)\<rparr>"
    show ?thesis
    proof (cases "List.find (EquivArrayCmpFn a0) (cachedSymbolicArrays ac)")
      case None
      with assms(2) True have "a = a0" "ac' = ac\<lparr>nextArray := nextArray ac + 1, cachedSymbolicArrays := a0 # cachedSymbolicArrays ac\<rparr>"
        by (auto simp: CreateArray_symbolic Let_def a0_def)
      with None assms(1) True lt show ?thesis
        by (auto simp: wf_ArrayCache_def ArrayCache_arrays_def find_None_iff list_all_iff a0_def isSymbolicArray_def)
    next
      case (Some hit)
      then have hit: "EquivArrayCmpFn a0 hit" "hit \<in> set (cachedSymbolicArrays ac)"
        by (auto simp: find_Some_iff)
      with assms(1) have "isSymbolicArray hit" by (auto simp: wf_ArrayCache_def list_all_iff)
      with Some assms(2) True have "a = hit" "ac' = ac\<lparr>nextArray := nextArray ac + 1\<rparr>"
        by (simp_all add: CreateArray_symbolic Let_def a0_def)
      with hit assms(1) True lt \<open>isSymbolicArray hit\<close> show ?thesis
        by (auto simp: wf_ArrayCache_def ArrayCache_arrays_def list_all_iff a0_def EquivArrayCmpFn_def isSymbolicArray_def)
    qed
  next
    case False
    with assms(2) have "a = \<lparr>arr_id = nextArray ac, arr_name = n, arr_size = sz mod 2 ^ 32, arr_domain = d, arr_range = r,
        constantValues = vals\<rparr>" "ac' = ac\<lparr>nextArray := nextArray ac + 1, concreteArrays := concreteArrays ac @ [a]\<rparr>"
      by (auto simp: CreateArray_def isSymbolicArray_def Let_def isConstantArray_def dest!: Array_new_Some split: if_splits)
    with False assms(1) lt show ?thesis
      by (auto simp: wf_ArrayCache_def ArrayCache_arrays_def list_all_iff isConstantArray_def isSymbolicArray_def)
  qed
  then show "wf_ArrayCache ac'" "a \<in> set (ArrayCache_arrays ac')" "arr_name a = n" "arr_size a = sz mod 2 ^ 32"
    "constantValues a = vals" "set (ArrayCache_arrays ac) \<subseteq> set (ArrayCache_arrays ac')" by auto
qed

text \<open>Asking twice for a symbolic array gives the same object, whatever was created in between.\<close>

lemma CreateArray_cached:
  assumes "wf_ArrayCache ac" "a \<in> set (cachedSymbolicArrays ac)" "arr_name a = n" "arr_size a = sz mod 2 ^ 32"
  shows "CreateArray ac n sz [] d r = Some (a, ac\<lparr>nextArray := nextArray ac + 1\<rparr>)"
proof -
  let ?p = "EquivArrayCmpFn \<lparr>arr_id = nextArray ac, arr_name = n, arr_size = sz mod 2 ^ 32, arr_domain = d,
    arr_range = r, constantValues = []\<rparr>"
  have "List.find ?p xs = Some a" if "sorted_wrt (\<lambda>a b. \<not> EquivArrayCmpFn a b) xs" "a \<in> set xs" for xs
    using that assms(3,4) by (induction xs) (auto simp: EquivArrayCmpFn_def)
  from this [of "cachedSymbolicArrays ac"] assms(1,2)
  have "List.find ?p (cachedSymbolicArrays ac) = Some a" "isSymbolicArray a"
    by (auto simp: wf_ArrayCache_def list_all_iff)
  then show ?thesis by (simp add: CreateArray_symbolic Let_def)
qed

end
