(* ===== verification/ER_Bits.thy ===== *)
theory ER_Bits
  imports ER_Constant
begin

unbundle bit_operations_syntax

text \<open>
  The bit tricks of \<^verbatim>\<open>include/klee/util/Bits.h\<close> on 32- and 64-bit words and the
  fixed-width arithmetic of \<^verbatim>\<open>include/klee/Internal/Support/IntEvaluation.h\<close>,
  which keeps a value of at most 64 bits in a \<^verbatim>\<open>uint64_t\<close> whose upper bits
  are zero.  An assertion that fails, and an operation the language leaves
  undefined (a shift by the word size, a signed division that overflows), is
  \<open>None\<close>.  The lemmas show the index of a bit is found, and that the 64-bit
  arithmetic computes the meaning \<open>bv_sem\<close> of the operators at every width.
\<close>

section \<open>32-bit words\<close>

definition bits32_maxValueOfNBits :: "nat \<Rightarrow> 32 word option" where
  "bits32_maxValueOfNBits N =
     (if N \<le> 32 then Some (if N = 0 then 0 else drop_bit (32 - N) (- 1)) else None)"

definition bits32_truncateToNBits :: "32 word \<Rightarrow> nat \<Rightarrow> 32 word option" where
  "bits32_truncateToNBits x N =
     (if N > 0 \<and> N \<le> 32 then Some (x AND drop_bit (32 - N) (- 1)) else None)"

definition bits32_withoutRightmostBit :: "32 word \<Rightarrow> 32 word" where
  "bits32_withoutRightmostBit x = x AND (x - 1)"

definition bits32_isolateRightmostBit :: "32 word \<Rightarrow> 32 word" where
  "bits32_isolateRightmostBit x = x AND - x"

definition bits32_isPowerOfTwo :: "32 word \<Rightarrow> bool" where
  "bits32_isPowerOfTwo x = (if x = 0 then False else x AND (x - 1) = 0)"

definition bits32_indexOfSingleBit :: "32 word \<Rightarrow> nat option" where
  "bits32_indexOfSingleBit x =
     (if bits32_withoutRightmostBit x = 0 then
        (let res = 0;
             res = (if x AND 0xFFFF0000 \<noteq> 0 then res + 16 else res);
             res = (if x AND 0xFF00FF00 \<noteq> 0 then res + 8 else res);
             res = (if x AND 0xF0F0F0F0 \<noteq> 0 then res + 4 else res);
             res = (if x AND 0xCCCCCCCC \<noteq> 0 then res + 2 else res);
             res = (if x AND 0xAAAAAAAA \<noteq> 0 then res + 1 else res)
         in if res < 32 \<and> push_bit res 1 = x then Some res else None)
      else None)"

definition bits32_indexOfRightmostBit :: "32 word \<Rightarrow> nat option" where
  "bits32_indexOfRightmostBit x = bits32_indexOfSingleBit (bits32_isolateRightmostBit x)"

section \<open>64-bit words\<close>

definition bits64_maxValueOfNBits :: "nat \<Rightarrow> 64 word option" where
  "bits64_maxValueOfNBits N =
     (if N \<le> 64 then Some (if N = 0 then 0 else drop_bit (64 - N) (- 1)) else None)"

definition bits64_truncateToNBits :: "64 word \<Rightarrow> nat \<Rightarrow> 64 word option" where
  "bits64_truncateToNBits x N =
     (if N > 0 \<and> N \<le> 64 then Some (x AND drop_bit (64 - N) (- 1)) else None)"

definition bits64_withoutRightmostBit :: "64 word \<Rightarrow> 64 word" where
  "bits64_withoutRightmostBit x = x AND (x - 1)"

definition bits64_isolateRightmostBit :: "64 word \<Rightarrow> 64 word" where
  "bits64_isolateRightmostBit x = x AND - x"

definition bits64_isPowerOfTwo :: "64 word \<Rightarrow> bool" where
  "bits64_isPowerOfTwo x = (if x = 0 then False else x AND (x - 1) = 0)"

definition bits64_indexOfSingleBit :: "64 word \<Rightarrow> nat option" where
  "bits64_indexOfSingleBit x =
     (if x AND (x - 1) = 0 then
        do { res \<leftarrow> bits32_indexOfSingleBit (ucast (x OR drop_bit 32 x));
             let res = (if x AND push_bit 32 0xFFFFFFFF \<noteq> 0 then res + 32 else res) in
             if res < 64 \<and> push_bit res 1 = x then Some res else None }
      else None)"

definition bits64_indexOfRightmostBit :: "64 word \<Rightarrow> nat option" where
  "bits64_indexOfRightmostBit x = bits64_indexOfSingleBit (bits64_isolateRightmostBit x)"

section \<open>What the bit operations compute\<close>

lemma ones_shifted: "N \<le> LENGTH('a) \<Longrightarrow> drop_bit (LENGTH('a) - N) (- 1 :: 'a::len word) = mask N"
  by (rule bit_word_eqI) (auto simp: bit_simps)

lemma bits64_truncate_take_bit:
  "0 < N \<Longrightarrow> N \<le> 64 \<Longrightarrow> bits64_truncateToNBits x N = Some (take_bit N x)"
  using ones_shifted [of N, where 'a = 64]
  by (simp add: bits64_truncateToNBits_def take_bit_eq_mask)

lemma bits32_truncate_take_bit:
  "0 < N \<Longrightarrow> N \<le> 32 \<Longrightarrow> bits32_truncateToNBits x N = Some (take_bit N x)"
  using ones_shifted [of N, where 'a = 32]
  by (simp add: bits32_truncateToNBits_def take_bit_eq_mask)

lemma bits64_maxValue_mask: "N \<le> 64 \<Longrightarrow> bits64_maxValueOfNBits N = Some (mask N)"
  using ones_shifted [of N, where 'a = 64] by (simp add: bits64_maxValueOfNBits_def)

lemma bits32_maxValue_mask: "N \<le> 32 \<Longrightarrow> bits32_maxValueOfNBits N = Some (mask N)"
  using ones_shifted [of N, where 'a = 32] by (simp add: bits32_maxValueOfNBits_def)

text \<open>The lowest set bit of a word.\<close>

lemma lowest_bit:
  assumes "x \<noteq> (0::'a::len word)"
  obtains n y where "n < LENGTH('a)" "x = push_bit n (2 * y + 1)" "bit x n" "\<forall>k < n. \<not> bit x k"
proof -
  define n where "n = (LEAST n. bit x n)"
  have "\<exists>n. bit x n" using assms by (metis bit_0_eq bit_word_eqI bot_apply bot_bool_def)
  then have n: "bit x n" "\<forall>k < n. \<not> bit x k"
    unfolding n_def by (auto intro: LeastI dest: not_less_Least)
  have "push_bit n (2 * drop_bit (Suc n) x + 1) = push_bit n (2 * drop_bit (Suc n) x OR 1)"
    by (simp add: or_one_eq)
  also have "\<dots> = x"
  proof (rule bit_word_eqI)
    fix k assume "k < LENGTH('a)"
    consider "k < n" | "k = n" | "n < k" by linarith
    then show "bit (push_bit n (2 * drop_bit (Suc n) x OR 1)) k = bit x k"
      using n \<open>k < _\<close>
      by cases (auto simp: bit_push_bit_iff bit_or_iff bit_double_iff bit_drop_bit_eq bit_1_iff bit_exp_iff)
  qed
  finally show thesis using that [of n "drop_bit (Suc n) x"] n bit_imp_le_length by metis
qed

lemma isolate_lowest_bit:
  assumes "bit (x::'a::len word) n" "\<forall>k < n. \<not> bit x k"
  shows "x AND - x = 2 ^ n"
proof -
  have "x \<noteq> 0" using assms(1) by auto
  then obtain m y where m: "m < LENGTH('a)" "x = push_bit m (2 * y + 1)" "bit x m" "\<forall>k < m. \<not> bit x k"
    by (rule lowest_bit)
  with assms have "m = n" by (meson linorder_neqE_nat)
  have neg: "- x = push_bit m (2 * NOT y + 1)"
    unfolding m(2) push_bit_eq_mult not_eq_complement by (simp add: algebra_simps)
  have or1: "2 * z + 1 = 2 * z OR 1" for z :: "'a word" by (simp add: or_one_eq)
  have "x AND - x = push_bit m ((2 * y OR 1) AND (2 * NOT y OR 1))"
    unfolding neg unfolding m(2) or1 by (rule push_bit_and [symmetric])
  also have "(2 * y OR 1) AND (2 * NOT y OR 1) = 1"
    by (rule bit_word_eqI) (auto simp: bit_and_iff bit_or_iff bit_double_iff bit_not_iff bit_1_iff)
  finally show ?thesis using \<open>m = n\<close> by simp
qed

lemma without_lowest_bit_pow2: "n < LENGTH('a) \<Longrightarrow> (2 ^ n :: 'a::len word) AND (2 ^ n - 1) = 0"
  by (rule bit_word_eqI) (auto simp: bit_simps mask_eq_exp_minus_1 [symmetric])

lemma power_of_two_iff:
  "(x \<noteq> (0::'a::len word) \<and> x AND (x - 1) = 0) \<longleftrightarrow> (\<exists>n < LENGTH('a). x = 2 ^ n)"
proof
  assume x: "x \<noteq> 0 \<and> x AND (x - 1) = 0"
  then have "x \<noteq> 0" by simp
  then obtain n y where n: "n < LENGTH('a)" "x = push_bit n (2 * y + 1)" "bit x n" "\<forall>k < n. \<not> bit x k"
    by (rule lowest_bit)
  have "x AND - x = x"
  proof -
    have "- x = NOT (x - 1)" by (rule minus_eq_not_minus_1)
    moreover have "x = x AND (x - 1) OR x AND NOT (x - 1)"
      by (rule bit_word_eqI) (auto simp: bit_and_iff bit_or_iff bit_not_iff)
    ultimately show ?thesis using x by (metis or.left_neutral)
  qed
  with isolate_lowest_bit [OF n(3,4)] n(1) show "\<exists>n < LENGTH('a). x = 2 ^ n" by auto
next
  assume "\<exists>n < LENGTH('a). x = 2 ^ n"
  then show "x \<noteq> 0 \<and> x AND (x - 1) = 0" by (auto simp: without_lowest_bit_pow2)
qed

lemma and_pow2_iff: "n < LENGTH('a) \<Longrightarrow> ((2 ^ n :: 'a::len word) AND c \<noteq> 0) = bit c n"
  by (metis and_exp_eq_0_iff_not_bit and.commute)

lemma index_table:
  "n < 32 \<Longrightarrow>
     (if bit (0xFFFF0000::32 word) n then 16 else 0) + (if bit (0xFF00FF00::32 word) n then 8 else 0) +
     (if bit (0xF0F0F0F0::32 word) n then 4 else 0) + (if bit (0xCCCCCCCC::32 word) n then 2 else 0) +
     (if bit (0xAAAAAAAA::32 word) n then 1 else 0) = n"
proof -
  assume "n < 32"
  then have "n \<in> set [0,1,2,3,4,5,6,7,8,9,10,11,12,13,14,15,16,17,18,19,20,21,22,23,24,25,26,27,28,29,30,31]"
    by (simp, presburger)
  then show ?thesis by (simp only: set_simps insert_iff empty_iff) (elim disjE; simp)
qed

lemma bits32_indexOfSingleBit_pow2:
  assumes "n < 32"
  shows "bits32_indexOfSingleBit (2 ^ n) = Some n"
proof -
  let ?res = "(if bit (0xFFFF0000::32 word) n then 16 else 0) + (if bit (0xFF00FF00::32 word) n then 8 else 0) +
     (if bit (0xF0F0F0F0::32 word) n then 4 else 0) + (if bit (0xCCCCCCCC::32 word) n then 2 else 0) +
     (if bit (0xAAAAAAAA::32 word) n then 1 else 0) :: nat"
  have add: "(if b then r + k else r) = r + (if b then k else 0)" for b and r k :: nat by simp
  have "bits32_indexOfSingleBit (2 ^ n) = (if ?res < 32 \<and> push_bit ?res 1 = (2 ^ n :: 32 word) then Some ?res else None)"
    unfolding bits32_indexOfSingleBit_def Let_def add
    using assms without_lowest_bit_pow2 [of n, where 'a = 32] and_pow2_iff [of n, where 'a = 32]
    by (simp add: bits32_withoutRightmostBit_def)
  then show ?thesis unfolding index_table [OF assms] using assms by simp
qed

lemma bit_pow2: "bit (2 ^ n :: 'a::len word) k \<longleftrightarrow> n = k \<and> k < LENGTH('a)"
  by (auto simp: bit_exp_iff)

lemmas bit_fold = bit_ucast_iff bit_or_iff bit_drop_bit_eq comp_def bit_pow2 len_bit0 len_num1

lemma pow2_fold_low: "n < 32 \<Longrightarrow> ucast (2 ^ n OR drop_bit 32 (2 ^ n :: 64 word)) = (2 ^ n :: 32 word)"
  by (rule bit_word_eqI) (auto simp only: bit_fold)

lemma pow2_fold_high: "n < 32 \<Longrightarrow> ucast (2 ^ (32 + n) OR drop_bit 32 (2 ^ (32 + n) :: 64 word)) = (2 ^ n :: 32 word)"
  by (rule bit_word_eqI) (auto simp only: bit_fold)

lemma upper_half: "n < 64 \<Longrightarrow> bit (push_bit 32 0xFFFFFFFF :: 64 word) n \<longleftrightarrow> 32 \<le> n"
proof -
  have "(0xFFFFFFFF :: 64 word) = mask 32" by (simp add: mask_eq_exp_minus_1)
  then show "n < 64 \<Longrightarrow> ?thesis" by (simp only: bit_push_bit_iff bit_mask_iff) auto
qed

lemma bits64_indexOfSingleBit_pow2:
  assumes "n < 64"
  shows "bits64_indexOfSingleBit (2 ^ n) = Some n"
proof -
  note h = assms without_lowest_bit_pow2 [of n, where 'a = 64] and_pow2_iff [of n "push_bit 32 0xFFFFFFFF :: 64 word"]
  consider "n < 32" | m where "n = 32 + m" "m < 32" using assms
    by (metis add_less_cancel_left le_Suc_ex linorder_not_less numeral_Bit0)
  then show ?thesis
  proof cases
    case 1
    with h show ?thesis
      by (simp add: bits64_indexOfSingleBit_def bits32_indexOfSingleBit_pow2 pow2_fold_low upper_half Let_def del: push_bit_numeral)
  next
    case (2 m)
    with h pow2_fold_high [of m] show ?thesis
      by (simp add: bits64_indexOfSingleBit_def bits32_indexOfSingleBit_pow2 upper_half Let_def add.commute del: push_bit_numeral)
  qed
qed

lemma bits64_indexOfSingleBit_iff:
  "bits64_indexOfSingleBit x = Some n \<longleftrightarrow> n < 64 \<and> x = 2 ^ n"
proof
  assume "bits64_indexOfSingleBit x = Some n"
  then show "n < 64 \<and> x = 2 ^ n"
    by (auto simp: bits64_indexOfSingleBit_def Let_def split: if_splits)
qed (auto simp: bits64_indexOfSingleBit_pow2)

lemma bits32_indexOfSingleBit_iff:
  "bits32_indexOfSingleBit x = Some n \<longleftrightarrow> n < 32 \<and> x = 2 ^ n"
proof
  assume "bits32_indexOfSingleBit x = Some n"
  then show "n < 32 \<and> x = 2 ^ n"
    by (auto simp: bits32_indexOfSingleBit_def Let_def split: if_splits)
qed (auto simp: bits32_indexOfSingleBit_pow2)

lemma bits64_indexOfRightmostBit_ok:
  assumes "x \<noteq> 0"
  shows "\<exists>n < 64. bits64_indexOfRightmostBit x = Some n \<and> bit x n \<and> (\<forall>k < n. \<not> bit x k)"
proof -
  from assms obtain n y where "n < LENGTH(64)" "bit x n" "\<forall>k < n. \<not> bit x k" by (rule lowest_bit)
  then show ?thesis
    using isolate_lowest_bit [of x n]
    by (auto simp: bits64_indexOfRightmostBit_def bits64_isolateRightmostBit_def bits64_indexOfSingleBit_pow2)
qed

lemma bits32_indexOfRightmostBit_ok:
  assumes "x \<noteq> 0"
  shows "\<exists>n < 32. bits32_indexOfRightmostBit x = Some n \<and> bit x n \<and> (\<forall>k < n. \<not> bit x k)"
proof -
  from assms obtain n y where "n < LENGTH(32)" "bit x n" "\<forall>k < n. \<not> bit x k" by (rule lowest_bit)
  then show ?thesis
    using isolate_lowest_bit [of x n]
    by (auto simp: bits32_indexOfRightmostBit_def bits32_isolateRightmostBit_def bits32_indexOfSingleBit_pow2)
qed

lemma bits64_isPowerOfTwo_iff: "bits64_isPowerOfTwo x \<longleftrightarrow> (\<exists>n < 64. x = 2 ^ n)"
  using power_of_two_iff [of x] by (auto simp: bits64_isPowerOfTwo_def)

lemma bits32_isPowerOfTwo_iff: "bits32_isPowerOfTwo x \<longleftrightarrow> (\<exists>n < 32. x = 2 ^ n)"
  using power_of_two_iff [of x] by (auto simp: bits32_isPowerOfTwo_def)

section \<open>Fixed-width arithmetic in 64-bit words\<close>

definition ints_add :: "64 word \<Rightarrow> 64 word \<Rightarrow> nat \<Rightarrow> 64 word option" where
  "ints_add l r inWidth = bits64_truncateToNBits (l + r) inWidth"

definition ints_sub :: "64 word \<Rightarrow> 64 word \<Rightarrow> nat \<Rightarrow> 64 word option" where
  "ints_sub l r inWidth = bits64_truncateToNBits (l - r) inWidth"

definition ints_mul :: "64 word \<Rightarrow> 64 word \<Rightarrow> nat \<Rightarrow> 64 word option" where
  "ints_mul l r inWidth = bits64_truncateToNBits (l * r) inWidth"

definition ints_trunc :: "64 word \<Rightarrow> nat \<Rightarrow> nat \<Rightarrow> 64 word option" where
  "ints_trunc l outWidth inWidth = bits64_truncateToNBits l outWidth"

definition ints_zext :: "64 word \<Rightarrow> nat \<Rightarrow> nat \<Rightarrow> 64 word option" where
  "ints_zext l outWidth inWidth = Some l"

text \<open>A shift by \<^verbatim>\<open>numInvalidBits\<close> is defined when that is less than 64.\<close>

definition ints_sext :: "64 word \<Rightarrow> nat \<Rightarrow> nat \<Rightarrow> 64 word option" where
  "ints_sext l outWidth inWidth =
     (if 0 < inWidth \<and> inWidth \<le> 64 then
        (let numInvalidBits = 64 - inWidth
         in bits64_truncateToNBits (signed_drop_bit numInvalidBits (push_bit numInvalidBits l)) outWidth)
      else None)"

definition ints_udiv :: "64 word \<Rightarrow> 64 word \<Rightarrow> nat \<Rightarrow> 64 word option" where
  "ints_udiv l r inWidth = (if r = 0 then None else bits64_truncateToNBits (l div r) inWidth)"

definition ints_urem :: "64 word \<Rightarrow> 64 word \<Rightarrow> nat \<Rightarrow> 64 word option" where
  "ints_urem l r inWidth = (if r = 0 then None else bits64_truncateToNBits (l mod r) inWidth)"

text \<open>
  Signed division truncates towards zero; it is undefined for a zero divisor
  and for the quotient \<open>2 ^ 63\<close>.
\<close>

definition int64_div_defined :: "64 word \<Rightarrow> 64 word \<Rightarrow> bool" where
  "int64_div_defined sl sr \<longleftrightarrow> sr \<noteq> 0 \<and> \<not> (sint sl = - (2 ^ 63) \<and> sint sr = - 1)"

definition ints_sdiv :: "64 word \<Rightarrow> 64 word \<Rightarrow> nat \<Rightarrow> 64 word option" where
  "ints_sdiv l r inWidth =
     do { sl \<leftarrow> ints_sext l 64 inWidth;
          sr \<leftarrow> ints_sext r 64 inWidth;
          if int64_div_defined sl sr
          then bits64_truncateToNBits (word_of_int (sint sl sdiv sint sr)) inWidth else None }"

definition ints_srem :: "64 word \<Rightarrow> 64 word \<Rightarrow> nat \<Rightarrow> 64 word option" where
  "ints_srem l r inWidth =
     do { sl \<leftarrow> ints_sext l 64 inWidth;
          sr \<leftarrow> ints_sext r 64 inWidth;
          if int64_div_defined sl sr
          then bits64_truncateToNBits (word_of_int (sint sl smod sint sr)) inWidth else None }"

definition ints_ashr :: "64 word \<Rightarrow> 64 word \<Rightarrow> nat \<Rightarrow> 64 word option" where
  "ints_ashr l shift inWidth =
     do { sl \<leftarrow> ints_sext l 64 inWidth;
          if shift < 64 then bits64_truncateToNBits (signed_drop_bit (unat shift) sl) inWidth else None }"

definition ints_lshr :: "64 word \<Rightarrow> 64 word \<Rightarrow> nat \<Rightarrow> 64 word option" where
  "ints_lshr l shift inWidth = (if shift < 64 then Some (drop_bit (unat shift) l) else None)"

definition ints_shl :: "64 word \<Rightarrow> 64 word \<Rightarrow> nat \<Rightarrow> 64 word option" where
  "ints_shl l shift inWidth =
     (if shift < 64 then bits64_truncateToNBits (push_bit (unat shift) l) inWidth else None)"

definition ints_land :: "64 word \<Rightarrow> 64 word \<Rightarrow> nat \<Rightarrow> 64 word option" where
  "ints_land l r inWidth = Some (l AND r)"

definition ints_lor :: "64 word \<Rightarrow> 64 word \<Rightarrow> nat \<Rightarrow> 64 word option" where
  "ints_lor l r inWidth = Some (l OR r)"

definition ints_lxor :: "64 word \<Rightarrow> 64 word \<Rightarrow> nat \<Rightarrow> 64 word option" where
  "ints_lxor l r inWidth = Some (l XOR r)"

definition ints_eq :: "64 word \<Rightarrow> 64 word \<Rightarrow> nat \<Rightarrow> 64 word option" where
  "ints_eq l r inWidth = Some (of_bool (l = r))"

definition ints_ne :: "64 word \<Rightarrow> 64 word \<Rightarrow> nat \<Rightarrow> 64 word option" where
  "ints_ne l r inWidth = Some (of_bool (l \<noteq> r))"

definition ints_ult :: "64 word \<Rightarrow> 64 word \<Rightarrow> nat \<Rightarrow> 64 word option" where
  "ints_ult l r inWidth = Some (of_bool (l < r))"

definition ints_ule :: "64 word \<Rightarrow> 64 word \<Rightarrow> nat \<Rightarrow> 64 word option" where
  "ints_ule l r inWidth = Some (of_bool (l \<le> r))"

definition ints_ugt :: "64 word \<Rightarrow> 64 word \<Rightarrow> nat \<Rightarrow> 64 word option" where
  "ints_ugt l r inWidth = Some (of_bool (l > r))"

definition ints_uge :: "64 word \<Rightarrow> 64 word \<Rightarrow> nat \<Rightarrow> 64 word option" where
  "ints_uge l r inWidth = Some (of_bool (l \<ge> r))"

definition ints_slt :: "64 word \<Rightarrow> 64 word \<Rightarrow> nat \<Rightarrow> 64 word option" where
  "ints_slt l r inWidth =
     do { sl \<leftarrow> ints_sext l 64 inWidth;
          sr \<leftarrow> ints_sext r 64 inWidth;
          Some (of_bool (sint sl < sint sr)) }"

definition ints_sle :: "64 word \<Rightarrow> 64 word \<Rightarrow> nat \<Rightarrow> 64 word option" where
  "ints_sle l r inWidth =
     do { sl \<leftarrow> ints_sext l 64 inWidth;
          sr \<leftarrow> ints_sext r 64 inWidth;
          Some (of_bool (sint sl \<le> sint sr)) }"

definition ints_sgt :: "64 word \<Rightarrow> 64 word \<Rightarrow> nat \<Rightarrow> 64 word option" where
  "ints_sgt l r inWidth =
     do { sl \<leftarrow> ints_sext l 64 inWidth;
          sr \<leftarrow> ints_sext r 64 inWidth;
          Some (of_bool (sint sl > sint sr)) }"

definition ints_sge :: "64 word \<Rightarrow> 64 word \<Rightarrow> nat \<Rightarrow> 64 word option" where
  "ints_sge l r inWidth =
     do { sl \<leftarrow> ints_sext l 64 inWidth;
          sr \<leftarrow> ints_sext r 64 inWidth;
          Some (of_bool (sint sl \<ge> sint sr)) }"

text \<open>All of them by the kind of the operator.\<close>

fun ints_op :: "bkind \<Rightarrow> 64 word \<Rightarrow> 64 word \<Rightarrow> nat \<Rightarrow> 64 word option" where
  "ints_op Add = ints_add" | "ints_op Sub = ints_sub" | "ints_op Mul = ints_mul"
| "ints_op UDiv = ints_udiv" | "ints_op SDiv = ints_sdiv" | "ints_op URem = ints_urem" | "ints_op SRem = ints_srem"
| "ints_op And = ints_land" | "ints_op Or = ints_lor" | "ints_op Xor = ints_lxor"
| "ints_op Shl = ints_shl" | "ints_op LShr = ints_lshr" | "ints_op AShr = ints_ashr"
| "ints_op Eq = ints_eq" | "ints_op Ne = ints_ne"
| "ints_op Ult = ints_ult" | "ints_op Ule = ints_ule" | "ints_op Ugt = ints_ugt" | "ints_op Uge = ints_uge"
| "ints_op Slt = ints_slt" | "ints_op Sle = ints_sle" | "ints_op Sgt = ints_sgt" | "ints_op Sge = ints_sge"

section \<open>The 64-bit arithmetic computes the meaning of the operators\<close>

lemma uint_truncate:
  "0 < w \<Longrightarrow> w \<le> 64 \<Longrightarrow> map_option uint (bits64_truncateToNBits x w) = Some (uint x mod 2 ^ w)"
  by (simp add: bits64_truncate_take_bit unsigned_take_bit_eq) (simp add: take_bit_eq_mod)

lemma mod_mod_le: "w \<le> 64 \<Longrightarrow> (x::int) mod 2 ^ 64 mod 2 ^ w = x mod 2 ^ w"
  by (metis le_imp_power_dvd mod_mod_cancel)

lemma uint_truncate_of_int:
  "0 < w \<Longrightarrow> w \<le> 64 \<Longrightarrow> map_option uint (bits64_truncateToNBits (word_of_int x) w) = Some (x mod 2 ^ w)"
  using mod_mod_le [of w x] by (simp add: uint_truncate uint_word_of_int)

text \<open>The sign extension to 64 bits has the two's complement reading of the value.\<close>

lemma ints_sext_64:
  assumes w: "0 < w" "w \<le> 64" and l: "uint l < 2 ^ w"
  shows "\<exists>s. ints_sext l 64 w = Some s \<and> sint s = sgn_val w (uint l)"
proof -
  let ?s = "signed_drop_bit (64 - w) (push_bit (64 - w) l)"
  have "ints_sext l 64 w = Some ?s"
    using w by (simp add: ints_sext_def bits64_truncate_take_bit Let_def take_bit_word_eq_self)
  moreover have "sint ?s = sgn_val w (uint l)"
  proof -
    have "sint ?s = drop_bit (64 - w) (sint (push_bit (64 - w) l))"
      by (simp add: sint_signed_drop_bit_eq)
    also have "sint (push_bit (64 - w) l) = sgn_val w (uint l) * 2 ^ (64 - w)"
    proof -
      have p: "(2::int) ^ 64 = 2 ^ w * 2 ^ (64 - w)" using w by (simp flip: power_add)
      have "uint l * 2 ^ (64 - w) < 2 ^ 64" unfolding p using l by (intro mult_strict_right_mono) auto
      then have "uint (push_bit (64 - w) l) = uint l * 2 ^ (64 - w)"
        by (simp add: unsigned_push_bit_eq) (simp add: take_bit_eq_mod push_bit_eq_mult)
      moreover have "2 * (uint l * 2 ^ (64 - w)) < 2 ^ 64 \<longleftrightarrow> 2 * uint l < 2 ^ w"
        unfolding p by (metis mult.assoc mult_less_cancel_right_pos zero_less_numeral zero_less_power)
      ultimately show ?thesis
        using signed_take_bit_sgn_val [of 64 "uint l * 2 ^ (64 - w)"] \<open>_ < 2 ^ 64\<close>
        by (simp add: sint_uint sgn_val_def p left_diff_distrib del: power_numeral)
    qed
    finally show ?thesis by (simp add: drop_bit_eq_div)
  qed
  ultimately show ?thesis by blast
qed

lemma pow2_less_le: "a < 2 ^ w \<Longrightarrow> w \<le> s \<Longrightarrow> a < (2::int) ^ s"
  using power_increasing [of w s "2::int"] by linarith

lemma sgn_val_negative: "0 \<le> a \<Longrightarrow> sgn_val w a = - c \<Longrightarrow> 0 < c \<Longrightarrow> a = 2 ^ w - c"
  by (auto simp: sgn_val_def split: if_splits)

lemma sgn_val_shift_all:
  assumes "0 < w" "w \<le> s" "0 \<le> a" "a < (2::int) ^ w"
  shows "sgn_val w a div 2 ^ s mod 2 ^ w = (if 2 * a < 2 ^ w then 0 else 2 ^ w - 1)"
proof -
  have s: "a < 2 ^ s" using pow2_less_le [OF assms(4,2)] .
  have s': "(2::int) ^ w \<le> 2 ^ s" using assms(2) by simp
  show ?thesis
  proof (cases "2 * a < 2 ^ w")
    case True
    then have "sgn_val w a div 2 ^ s = 0" using assms s by (intro div_pos_pos_trivial) (auto simp: sgn_val_def)
    then show ?thesis using True by simp
  next
    case False
    have "- (2 ^ s) \<le> a - 2 ^ w" using s' assms(3) by linarith
    with False have "sgn_val w a div 2 ^ s = - 1"
      using assms(3,4) by (intro int_div_pos_eq [of _ _ _ "a - 2 ^ w + 2 ^ s"]) (simp_all add: sgn_val_def)
    then show ?thesis using False by (simp add: zmod_minus1)
  qed
qed

lemma ints_shifts_sound:
  assumes w: "0 < w" "w \<le> 64" and l: "uint l < 2 ^ w" and s: "s < (64::64 word)"
  shows "map_option uint (ints_shl l s w) = bv_sem Shl w (uint l) (uint s)"
    "map_option uint (ints_lshr l s w) = bv_sem LShr w (uint l) (uint s)"
    "map_option uint (ints_ashr l s w) = bv_sem AShr w (uint l) (uint s)"
proof -
  obtain m where m: "unat s = m" "uint s = int m" by simp
  have pw: "uint l * 2 ^ m mod 2 ^ w = 0" if "\<not> m < w"
    using that by (simp add: le_imp_power_dvd mod_eq_0_iff_dvd)
  have "uint (push_bit (m) l) mod 2 ^ w = uint l * 2 ^ m mod 2 ^ w"
    using mod_mod_le [OF w(2), of "uint l * 2 ^ m"]
    by (simp only: unsigned_push_bit_eq) (simp add: take_bit_eq_mod push_bit_eq_mult)
  then show "map_option uint (ints_shl l s w) = bv_sem Shl w (uint l) (uint s)"
    using s pw by (simp add: ints_shl_def uint_truncate [OF w] m)
  have t64: "take_bit 64 (uint l) = uint l" using pow2_less_le [OF l w(2)]
    by (intro take_bit_int_eq_self) simp_all
  have "uint l div 2 ^ m = 0" if "\<not> m < w"
    using that pow2_less_le [OF l, of "m"] by (intro div_pos_pos_trivial) auto
  then show "map_option uint (ints_lshr l s w) = bv_sem LShr w (uint l) (uint s)"
    using s t64 by (simp add: ints_lshr_def unsigned_drop_bit_eq m) (simp add: drop_bit_eq_div)
  from ints_sext_64 [OF w l] obtain sl where sl: "ints_sext l 64 w = Some sl" "sint sl = sgn_val w (uint l)" by auto
  have "map_option uint (ints_ashr l s w) = Some (uint (signed_drop_bit (m) sl) mod 2 ^ w)"
    using s by (simp add: ints_ashr_def sl(1) uint_truncate [OF w] m)
  also have "uint (signed_drop_bit (m) sl) mod 2 ^ w = sint (signed_drop_bit (m) sl) mod 2 ^ w"
    using mod_mod_le [OF w(2), of "sint (signed_drop_bit (m) sl)"]
    by (simp only: uint_sint take_bit_eq_mod len_bit0 len_num1) simp
  also have "sint (signed_drop_bit (m) sl) = sgn_val w (uint l) div 2 ^ m"
    by (simp only: sint_signed_drop_bit_eq sl(2) drop_bit_eq_div)
  finally show "map_option uint (ints_ashr l s w) = bv_sem AShr w (uint l) (uint s)"
    using sgn_val_shift_all [OF w(1) _ _ l, of "m"] by (cases "m < w") (simp_all add: m)
qed

lemma ints_signed_sound:
  assumes w: "0 < w" "w \<le> 64" and l: "uint l < 2 ^ w" and r: "uint r < 2 ^ w"
  shows "map_option uint (ints_slt l r w) = bv_sem Slt w (uint l) (uint r)"
    "map_option uint (ints_sle l r w) = bv_sem Sle w (uint l) (uint r)"
    "map_option uint (ints_sgt l r w) = bv_sem Sgt w (uint l) (uint r)"
    "map_option uint (ints_sge l r w) = bv_sem Sge w (uint l) (uint r)"
    "\<not> (w = 64 \<and> uint l = 2 ^ 63 \<and> uint r = 2 ^ 64 - 1) \<Longrightarrow>
       map_option uint (ints_sdiv l r w) = bv_sem SDiv w (uint l) (uint r)"
    "\<not> (w = 64 \<and> uint l = 2 ^ 63 \<and> uint r = 2 ^ 64 - 1) \<Longrightarrow>
       map_option uint (ints_srem l r w) = bv_sem SRem w (uint l) (uint r)"
proof -
  from ints_sext_64 [OF w l] obtain sl where sl: "ints_sext l 64 w = Some sl" "sint sl = sgn_val w (uint l)" by auto
  from ints_sext_64 [OF w r] obtain sr where sr: "ints_sext r 64 w = Some sr" "sint sr = sgn_val w (uint r)" by auto
  show "map_option uint (ints_slt l r w) = bv_sem Slt w (uint l) (uint r)"
    "map_option uint (ints_sle l r w) = bv_sem Sle w (uint l) (uint r)"
    "map_option uint (ints_sgt l r w) = bv_sem Sgt w (uint l) (uint r)"
    "map_option uint (ints_sge l r w) = bv_sem Sge w (uint l) (uint r)"
    by (simp_all add: ints_slt_def ints_sle_def ints_sgt_def ints_sge_def sl sr bool_val_def)
  have z: "sr = 0 \<longleftrightarrow> uint r = 0"
  proof -
    have "sr = 0 \<longleftrightarrow> sint sr = 0" by (metis signed_0 signed_word_eqI)
    then show ?thesis using r by (simp add: sr(2))
  qed
  have d: "int64_div_defined sl sr \<longleftrightarrow> uint r \<noteq> 0" if "\<not> (w = 64 \<and> uint l = 2 ^ 63 \<and> uint r = 2 ^ 64 - 1)"
  proof -
    have "\<not> (sgn_val w (uint l) = - (2 ^ 63) \<and> sgn_val w (uint r) = - 1)"
    proof
      assume a: "sgn_val w (uint l) = - (2 ^ 63) \<and> sgn_val w (uint r) = - 1"
      then have "(2::int) ^ 64 \<le> 2 ^ w" using sgn_val_bounds [OF w(1) _ l] by simp
      then have "w = 64" using w(2) by (metis le_antisym one_less_numeral_iff power_le_imp_le_exp semiring_norm(76))
      with a that sgn_val_negative [of "uint l" w "2 ^ 63"] sgn_val_negative [of "uint r" w 1] show False by simp
    qed
    then show ?thesis by (auto simp: int64_div_defined_def z sl(2) sr(2))
  qed
  show "map_option uint (ints_sdiv l r w) = bv_sem SDiv w (uint l) (uint r)"
    if "\<not> (w = 64 \<and> uint l = 2 ^ 63 \<and> uint r = 2 ^ 64 - 1)"
    using w by (simp add: ints_sdiv_def sl sr d [OF that] uint_truncate_of_int sdiv_trunc_div)
  show "map_option uint (ints_srem l r w) = bv_sem SRem w (uint l) (uint r)"
    if "\<not> (w = 64 \<and> uint l = 2 ^ 63 \<and> uint r = 2 ^ 64 - 1)"
    using w by (simp add: ints_srem_def sl sr d [OF that] uint_truncate_of_int smod_trunc_rem)
qed

lemma ints_unsigned_sound:
  assumes w: "0 < w" "w \<le> 64" and l: "uint l < 2 ^ w" and r: "uint r < 2 ^ w"
    and k: "k \<in> {Add, Sub, Mul, UDiv, URem, And, Or, Xor, Eq, Ne, Ult, Ule, Ugt, Uge}"
  shows "map_option uint (ints_op k l r w) = bv_sem k w (uint l) (uint r)"
proof -
  have z: "r = 0 \<longleftrightarrow> uint r = 0" by (simp add: unsigned_eq_0_iff)
  have dv: "uint l div uint r mod 2 ^ w = uint l div uint r"
    using l by (intro mod_pow2_small div_bounds) auto
  have rm: "uint l mod uint r mod 2 ^ w = uint l mod uint r" if "r \<noteq> 0"
    using that r by (intro mod_pow2_small rem_bounds) (auto simp: unsigned_eq_0_iff order_less_le)
  note mm = mod_mod_le [OF w(2), simplified]
  have "map_option uint (ints_add l r w) = bv_sem Add w (uint l) (uint r)"
    "map_option uint (ints_sub l r w) = bv_sem Sub w (uint l) (uint r)"
    "map_option uint (ints_mul l r w) = bv_sem Mul w (uint l) (uint r)"
    by (simp_all add: ints_add_def ints_sub_def ints_mul_def uint_truncate [OF w] uint_word_ariths mm)
  moreover have "map_option uint (ints_udiv l r w) = bv_sem UDiv w (uint l) (uint r)"
    "map_option uint (ints_urem l r w) = bv_sem URem w (uint l) (uint r)"
    using z by (simp_all add: ints_udiv_def ints_urem_def uint_truncate [OF w] uint_div uint_mod dv rm)
  moreover have "map_option uint (ints_land l r w) = bv_sem And w (uint l) (uint r)"
    "map_option uint (ints_lor l r w) = bv_sem Or w (uint l) (uint r)"
    "map_option uint (ints_lxor l r w) = bv_sem Xor w (uint l) (uint r)"
    by (simp_all add: ints_land_def ints_lor_def ints_lxor_def unsigned_and_eq unsigned_or_eq unsigned_xor_eq)
  moreover have "map_option uint (ints_eq l r w) = bv_sem Eq w (uint l) (uint r)"
    "map_option uint (ints_ne l r w) = bv_sem Ne w (uint l) (uint r)"
    "map_option uint (ints_ult l r w) = bv_sem Ult w (uint l) (uint r)"
    "map_option uint (ints_ule l r w) = bv_sem Ule w (uint l) (uint r)"
    "map_option uint (ints_ugt l r w) = bv_sem Ugt w (uint l) (uint r)"
    "map_option uint (ints_uge l r w) = bv_sem Uge w (uint l) (uint r)"
    by (simp_all add: ints_eq_def ints_ne_def ints_ult_def ints_ule_def ints_ugt_def ints_uge_def bool_val_def
      word_less_def word_le_def word_uint_eq_iff)
  ultimately show ?thesis using k by (elim insertE emptyE) simp_all
qed

lemma ints_op_sound:
  assumes "0 < w" "w \<le> 64" "uint l < 2 ^ w" "uint r < 2 ^ w"
    and "k \<in> {Shl, LShr, AShr} \<Longrightarrow> r < 64"
    and "k \<in> {SDiv, SRem} \<Longrightarrow> \<not> (w = 64 \<and> uint l = 2 ^ 63 \<and> uint r = 2 ^ 64 - 1)"
  shows "map_option uint (ints_op k l r w) = bv_sem k w (uint l) (uint r)"
proof (cases "k \<in> {Add, Sub, Mul, UDiv, URem, And, Or, Xor, Eq, Ne, Ult, Ule, Ugt, Uge}")
  case False
  then consider "k \<in> {Shl, LShr, AShr}" | "k \<in> {SDiv, SRem}" | "k \<in> {Slt, Sle, Sgt, Sge}" by (cases k) auto
  then show ?thesis
  proof cases
    case 1
    with ints_shifts_sound [OF assms(1-3), of r] assms(5) show ?thesis by auto
  next
    case 2
    with ints_signed_sound(5,6) [OF assms(1-4)] assms(6) show ?thesis by auto
  next
    case 3
    with ints_signed_sound(1-4) [OF assms(1-4)] show ?thesis by auto
  qed
qed (rule ints_unsigned_sound [OF assms(1-4)])

end
