(* ===== verification/ER_Memory.thy ===== *)
theory ER_Memory
  imports ER_ArrayCache ER_Bits
begin

unbundle bit_operations_syntax

text \<open>
  The bytes of a memory object, \<^verbatim>\<open>lib/Core/Memory.cpp\<close> and \<^verbatim>\<open>Memory.h\<close>.  An
  \<open>ObjectState\<close> holds a byte in one of three places: the concrete store, the
  cache of known symbolic bytes, or the update list; two bit sets say which, and
  whether a cached byte has been flushed to the update list.  A failed assertion
  and an access past the end of the object's arrays are \<open>None\<close>.  The functions
  the code marks \<^verbatim>\<open>const\<close> still flush and allocate arrays, so they return the
  new object as well.  \<open>content\<close> is the abstract object, the value of every byte;
  the lemmas show that reads return it and writes update it.
\<close>

section \<open>Memory objects\<close>

record Context =
  isLittleEndian :: bool
  getPointerWidth :: width

record MemoryObject =
  mo_id :: nat
  address :: "64 word"
  mo_size :: nat
  mo_name :: string
  isLocal :: bool
  isGlobal :: bool
  isFixed :: bool
  isUserSpecified :: bool
  isDeterm :: bool
  allocSite :: nat

definition ConstantExpr_create :: "int \<Rightarrow> width \<Rightarrow> expr option" where
  "ConstantExpr_create v w =
     (if w \<le> 64 \<and> bits64_truncateToNBits (word_of_int v) w \<noteq> Some (word_of_int v) then None
      else Some (ConstantExpr_alloc v w))"

definition getBaseExpr :: "Context \<Rightarrow> MemoryObject \<Rightarrow> expr option" where
  "getBaseExpr ctx mo = ConstantExpr_create (uint (address mo)) (getPointerWidth ctx)"

definition getSizeExpr :: "Context \<Rightarrow> MemoryObject \<Rightarrow> expr option" where
  "getSizeExpr ctx mo = ConstantExpr_create (int (mo_size mo)) (getPointerWidth ctx)"

definition getOffsetExpr :: "Context \<Rightarrow> MemoryObject \<Rightarrow> expr \<Rightarrow> expr option" where
  "getOffsetExpr ctx mo pointer = do { base \<leftarrow> getBaseExpr ctx mo; SubExpr_create pointer base }"

definition getBoundsCheckOffset :: "Context \<Rightarrow> MemoryObject \<Rightarrow> expr \<Rightarrow> expr option" where
  "getBoundsCheckOffset ctx mo offset =
     (if mo_size mo = 0 then Some (ConstantExpr_alloc 0 1)
      else do { sz \<leftarrow> getSizeExpr ctx mo; UltExpr_create offset sz })"

definition getBoundsCheckOffset_bytes :: "Context \<Rightarrow> MemoryObject \<Rightarrow> expr \<Rightarrow> nat \<Rightarrow> expr option" where
  "getBoundsCheckOffset_bytes ctx mo offset bytes =
     (if bytes \<le> mo_size mo
      then UltExpr_create offset (ConstantExpr_alloc (int (mo_size mo - bytes + 1)) (getPointerWidth ctx))
      else Some (ConstantExpr_alloc 0 1))"

definition getBoundsCheckPointer :: "Context \<Rightarrow> MemoryObject \<Rightarrow> expr \<Rightarrow> expr option" where
  "getBoundsCheckPointer ctx mo pointer =
     do { off \<leftarrow> getOffsetExpr ctx mo pointer; getBoundsCheckOffset ctx mo off }"

definition getBoundsCheckPointer_bytes :: "Context \<Rightarrow> MemoryObject \<Rightarrow> expr \<Rightarrow> nat \<Rightarrow> expr option" where
  "getBoundsCheckPointer_bytes ctx mo pointer bytes =
     do { off \<leftarrow> getOffsetExpr ctx mo pointer; getBoundsCheckOffset_bytes ctx mo off bytes }"

definition MemoryObject_compare :: "MemoryObject \<Rightarrow> MemoryObject \<Rightarrow> int" where
  "MemoryObject_compare a b =
     (if mo_id a = mo_id b then 0
      else if address a \<noteq> address b then (if address a < address b then -1 else 1)
      else if mo_size a \<noteq> mo_size b then (if mo_size a < mo_size b then -1 else 1)
      else if allocSite a \<noteq> allocSite b then (if allocSite a < allocSite b then -1 else 1)
      else 0)"

section \<open>Object states\<close>

record UpdateList =
  ul_root :: "array option"
  ul_head :: updates

definition UpdateList_extend :: "UpdateList \<Rightarrow> expr \<Rightarrow> expr \<Rightarrow> UpdateList option" where
  "UpdateList_extend ul index value =
     (case ul_root ul of
        Some root \<Rightarrow>
          if arr_domain root = getWidth index \<and> arr_range root = getWidth value
          then Some (ul\<lparr>ul_head := (index, value) # ul_head ul\<rparr>) else None
      | None \<Rightarrow> Some (ul\<lparr>ul_head := (index, value) # ul_head ul\<rparr>))"

text \<open>
  \<open>kinst\<close> is the instruction that wrote a byte (a pointer, possibly null).
  The arrays that the code allocates on demand are optional.
\<close>

record ObjectState =
  copyOnWriteOwner :: "32 word"
  os_object :: MemoryObject
  concreteStore :: "8 word list"
  flagStore :: "64 word list"
  kinstStore :: "nat option list"
  concreteMask :: "BitArray option"
  flushMask :: "BitArray option"
  knownSymbolics :: "expr option list option"
  os_updates :: UpdateList
  os_size :: nat
  readOnly :: bool
  untaggedWriteCnt :: nat

text \<open>The array cache of the memory manager and the static counters of the two array names.\<close>

record Arrays =
  arrayCache :: ArrayCache
  tmp_arr_id :: nat
  const_arr_id :: nat

definition FLAG_INTERNAL :: "64 word" where
  "FLAG_INTERNAL = 4"

definition FLAG_INITIALIZATION :: "64 word" where
  "FLAG_INITIALIZATION = 8"

section \<open>The caches of a byte\<close>

definition isByteConcrete :: "ObjectState \<Rightarrow> nat \<Rightarrow> bool" where
  "isByteConcrete os offset = (case concreteMask os of None \<Rightarrow> True | Some m \<Rightarrow> BitArray_get m offset)"

definition isByteFlushed :: "ObjectState \<Rightarrow> nat \<Rightarrow> bool" where
  "isByteFlushed os offset = (case flushMask os of None \<Rightarrow> False | Some m \<Rightarrow> \<not> BitArray_get m offset)"

definition knownSymbolic :: "ObjectState \<Rightarrow> nat \<Rightarrow> expr option" where
  "knownSymbolic os offset = (case knownSymbolics os of None \<Rightarrow> None | Some ks \<Rightarrow> ks ! offset)"

definition isByteKnownSymbolic :: "ObjectState \<Rightarrow> nat \<Rightarrow> bool" where
  "isByteKnownSymbolic os offset \<longleftrightarrow> knownSymbolic os offset \<noteq> None"

definition markByteConcrete :: "nat \<Rightarrow> ObjectState \<Rightarrow> ObjectState" where
  "markByteConcrete offset os =
     (case concreteMask os of None \<Rightarrow> os | Some m \<Rightarrow> os\<lparr>concreteMask := Some (BitArray_set m offset)\<rparr>)"

definition markByteSymbolic :: "nat \<Rightarrow> ObjectState \<Rightarrow> ObjectState" where
  "markByteSymbolic offset os =
     (let m = (case concreteMask os of None \<Rightarrow> BitArray_new (os_size os) True | Some m \<Rightarrow> m)
      in os\<lparr>concreteMask := Some (BitArray_unset m offset)\<rparr>)"

definition markByteUnflushed :: "nat \<Rightarrow> ObjectState \<Rightarrow> ObjectState" where
  "markByteUnflushed offset os =
     (case flushMask os of None \<Rightarrow> os | Some m \<Rightarrow> os\<lparr>flushMask := Some (BitArray_set m offset)\<rparr>)"

definition markByteFlushed :: "nat \<Rightarrow> ObjectState \<Rightarrow> ObjectState" where
  "markByteFlushed offset os =
     (case flushMask os of
        None \<Rightarrow> os\<lparr>flushMask := Some (BitArray_new (os_size os) False)\<rparr>
      | Some m \<Rightarrow> os\<lparr>flushMask := Some (BitArray_unset m offset)\<rparr>)"

definition setKnownSymbolic :: "nat \<Rightarrow> expr option \<Rightarrow> ObjectState \<Rightarrow> ObjectState" where
  "setKnownSymbolic offset v os =
     (case knownSymbolics os of
        Some ks \<Rightarrow> os\<lparr>knownSymbolics := Some (ks[offset := v])\<rparr>
      | None \<Rightarrow>
          (case v of
             None \<Rightarrow> os
           | Some e \<Rightarrow> os\<lparr>knownSymbolics := Some ((replicate (os_size os) None)[offset := Some e])\<rparr>))"

definition makeConcrete :: "ObjectState \<Rightarrow> ObjectState" where
  "makeConcrete os = os\<lparr>concreteMask := None, flushMask := None, knownSymbolics := None\<rparr>"

primrec makeSymbolic_loop :: "nat \<Rightarrow> ObjectState \<Rightarrow> ObjectState" where
  "makeSymbolic_loop 0 os = os"
| "makeSymbolic_loop (Suc i) os =
     markByteFlushed i (setKnownSymbolic i None (markByteSymbolic i (makeSymbolic_loop i os)))"

definition makeSymbolic :: "ObjectState \<Rightarrow> ObjectState option" where
  "makeSymbolic os = (if ul_head (os_updates os) = [] then Some (makeSymbolic_loop (os_size os) os) else None)"

section \<open>Construction\<close>

definition ObjectState_base :: "MemoryObject \<Rightarrow> UpdateList \<Rightarrow> ObjectState" where
  "ObjectState_base mo ul =
     \<lparr>copyOnWriteOwner = 0, os_object = mo, concreteStore = replicate (mo_size mo) 0,
      flagStore = replicate (mo_size mo) FLAG_INTERNAL, kinstStore = replicate (mo_size mo) None,
      concreteMask = None, flushMask = None, knownSymbolics = None, os_updates = ul,
      os_size = mo_size mo, readOnly = False, untaggedWriteCnt = 0\<rparr>"

text \<open>Decimal digits, as \<^verbatim>\<open>llvm::utostr\<close> prints them.\<close>

fun utostr :: "nat \<Rightarrow> string" where
  "utostr n = (if n < 10 then [char_of (48 + n)] else utostr (n div 10) @ [char_of (48 + n mod 10)])"

definition ObjectState_new :: "bool \<Rightarrow> Arrays \<Rightarrow> MemoryObject \<Rightarrow> (ObjectState \<times> Arrays) option" where
  "ObjectState_new UseConstantArrays st mo =
     (if \<not> UseConstantArrays then
        do { let ident = (tmp_arr_id st + 1) mod 2 ^ 32;
             (array, ac) \<leftarrow> CreateArray (arrayCache st) (''tmp_arr'' @ utostr ident) (mo_size mo) [] 32 8;
             Some (ObjectState_base mo \<lparr>ul_root = Some array, ul_head = []\<rparr>,
                   st\<lparr>arrayCache := ac, tmp_arr_id := ident\<rparr>) }
      else Some (ObjectState_base mo \<lparr>ul_root = None, ul_head = []\<rparr>, st))"

definition ObjectState_symbolic :: "MemoryObject \<Rightarrow> array \<Rightarrow> ObjectState option" where
  "ObjectState_symbolic mo array = makeSymbolic (ObjectState_base mo \<lparr>ul_root = Some array, ul_head = []\<rparr>)"

definition ObjectState_copy :: "ObjectState \<Rightarrow> ObjectState option" where
  "ObjectState_copy os =
     (if readOnly os then None
      else Some (os\<lparr>copyOnWriteOwner := 0,
                    concreteMask := map_option (\<lambda>m. BitArray_copy m (os_size os)) (concreteMask os),
                    flushMask := map_option (\<lambda>m. BitArray_copy m (os_size os)) (flushMask os),
                    readOnly := False, untaggedWriteCnt := 0\<rparr>))"

definition initializeToZero :: "ObjectState \<Rightarrow> ObjectState" where
  "initializeToZero os =
     (makeConcrete os)\<lparr>concreteStore := replicate (os_size os) 0,
        flagStore := replicate (os_size os) FLAG_INITIALIZATION, kinstStore := replicate (os_size os) None\<rparr>"

definition initializeToRandom :: "ObjectState \<Rightarrow> ObjectState" where
  "initializeToRandom os =
     (makeConcrete os)\<lparr>concreteStore := replicate (os_size os) 0xAB,
        flagStore := replicate (os_size os) FLAG_INITIALIZATION, kinstStore := replicate (os_size os) None\<rparr>"

section \<open>The update list\<close>

text \<open>
  The constant array of \<^verbatim>\<open>getUpdates\<close>: the oldest writes, as long as index and
  value are constants, go into the initial contents.
\<close>

fun pull_concrete_writes :: "apint list \<Rightarrow> updates \<Rightarrow> (apint list \<times> updates) option" where
  "pull_concrete_writes Contents [] = Some (Contents, [])"
| "pull_concrete_writes Contents ((i, v) # Writes) =
     (case (as_const i, as_const v) of
        (Some Index, Some Value) \<Rightarrow>
          if getBitWidth Index \<le> 64 \<and> apval Index < int (length Contents)
          then pull_concrete_writes (Contents[nat (apval Index) := Value]) Writes else None
      | _ \<Rightarrow> Some (Contents, (i, v) # Writes))"

fun extend_all :: "UpdateList \<Rightarrow> updates \<Rightarrow> UpdateList option" where
  "extend_all ul [] = Some ul"
| "extend_all ul ((i, v) # Writes) = do { ul' \<leftarrow> UpdateList_extend ul i v; extend_all ul' Writes }"

definition getUpdates :: "Arrays \<Rightarrow> ObjectState \<Rightarrow> ((array \<times> updates) \<times> Arrays \<times> ObjectState) option" where
  "getUpdates st os =
     (case ul_root (os_updates os) of
        Some root \<Rightarrow> Some ((root, ul_head (os_updates os)), st, os)
      | None \<Rightarrow>
          do { let Writes = rev (ul_head (os_updates os));
               (Contents, rest) \<leftarrow> pull_concrete_writes (replicate (os_size os) (apint_of 8 0)) Writes;
               let ident = (const_arr_id st + 1) mod 2 ^ 32;
               (array, ac) \<leftarrow> CreateArray (arrayCache st) (''const_arr'' @ utostr ident) (os_size os) Contents 32 8;
               ul \<leftarrow> extend_all \<lparr>ul_root = Some array, ul_head = []\<rparr> rest;
               Some ((array, ul_head ul), st\<lparr>arrayCache := ac, const_arr_id := ident\<rparr>, os\<lparr>os_updates := ul\<rparr>) })"

section \<open>Flushing\<close>

definition fastRangeCheckOffset :: "ObjectState \<Rightarrow> expr \<Rightarrow> nat \<times> nat" where
  "fastRangeCheckOffset os offset = (0, os_size os)"

definition ensureFlushMask :: "ObjectState \<Rightarrow> ObjectState" where
  "ensureFlushMask os =
     (case flushMask os of
        None \<Rightarrow> os\<lparr>flushMask := Some (BitArray_new (os_size os) True)\<rparr> | Some _ \<Rightarrow> os)"

definition unsetFlushMask :: "nat \<Rightarrow> ObjectState \<Rightarrow> ObjectState" where
  "unsetFlushMask offset os = os\<lparr>flushMask := map_option (\<lambda>m. BitArray_unset m offset) (flushMask os)\<rparr>"

definition extend_updates :: "nat \<Rightarrow> expr \<Rightarrow> ObjectState \<Rightarrow> ObjectState option" where
  "extend_updates offset value os =
     do { ul \<leftarrow> UpdateList_extend (os_updates os) (ConstantExpr_alloc (int offset) 32) value;
          Some (os\<lparr>os_updates := ul\<rparr>) }"

definition concrete_byte :: "ObjectState \<Rightarrow> nat \<Rightarrow> expr" where
  "concrete_byte os offset = ConstantExpr_alloc (uint (concreteStore os ! offset)) 8"

definition flushByteForRead :: "nat \<Rightarrow> ObjectState \<Rightarrow> ObjectState option" where
  "flushByteForRead offset os =
     (if \<not> isByteFlushed os offset then
        do { os' \<leftarrow> (if isByteConcrete os offset then extend_updates offset (concrete_byte os offset) os
                    else case knownSymbolic os offset of
                      None \<Rightarrow> None
                    | Some e \<Rightarrow> extend_updates offset e os);
             Some (unsetFlushMask offset os') }
      else Some os)"

definition flushByteForWrite :: "nat \<Rightarrow> ObjectState \<Rightarrow> ObjectState option" where
  "flushByteForWrite offset os =
     (if \<not> isByteFlushed os offset then
        do { os' \<leftarrow> (if isByteConcrete os offset then
                       do { os' \<leftarrow> extend_updates offset (concrete_byte os offset) os;
                            Some (markByteSymbolic offset os') }
                    else case knownSymbolic os offset of
                      None \<Rightarrow> None
                    | Some e \<Rightarrow>
                        do { os' \<leftarrow> extend_updates offset e os; Some (setKnownSymbolic offset None os') });
             Some (unsetFlushMask offset os') }
      else if isByteConcrete os offset then Some (markByteSymbolic offset os)
      else if isByteKnownSymbolic os offset then Some (setKnownSymbolic offset None os)
      else Some os)"

text \<open>The loops of \<^verbatim>\<open>flushRangeForRead\<close> and \<^verbatim>\<open>flushRangeForWrite\<close>: \<open>n\<close> bytes from \<open>base\<close>.\<close>

primrec flush_loop :: "(nat \<Rightarrow> ObjectState \<Rightarrow> ObjectState option) \<Rightarrow> nat \<Rightarrow> nat \<Rightarrow> ObjectState \<Rightarrow> ObjectState option" where
  "flush_loop flush base 0 os = Some os"
| "flush_loop flush base (Suc n) os =
     do { os' \<leftarrow> flush_loop flush base n os;
          if base + n < os_size os' then flush (base + n) os' else None }"

definition flushRangeForRead :: "nat \<Rightarrow> nat \<Rightarrow> ObjectState \<Rightarrow> ObjectState option" where
  "flushRangeForRead rangeBase rangeSize os = flush_loop flushByteForRead rangeBase rangeSize (ensureFlushMask os)"

definition flushRangeForWrite :: "nat \<Rightarrow> nat \<Rightarrow> ObjectState \<Rightarrow> ObjectState option" where
  "flushRangeForWrite rangeBase rangeSize os = flush_loop flushByteForWrite rangeBase rangeSize (ensureFlushMask os)"

section \<open>Reading and writing a byte\<close>

definition read8 :: "nat \<Rightarrow> Arrays \<Rightarrow> ObjectState \<Rightarrow> (expr \<times> Arrays \<times> ObjectState) option" where
  "read8 offset st os =
     (if offset < os_size os then
        if isByteConcrete os offset then Some (concrete_byte os offset, st, os)
        else case knownSymbolic os offset of
          Some e \<Rightarrow> Some (e, st, os)
        | None \<Rightarrow>
            if isByteFlushed os offset then
              do { ((root, us), st', os') \<leftarrow> getUpdates st os;
                   e \<leftarrow> ReadExpr_create root us (ConstantExpr_alloc (int offset) 32);
                   Some (e, st', os') }
            else None
      else None)"

definition read8_expr :: "expr \<Rightarrow> Arrays \<Rightarrow> ObjectState \<Rightarrow> (expr \<times> Arrays \<times> ObjectState) option" where
  "read8_expr offset st os =
     (if as_const offset = None then
        do { let (base, sz) = fastRangeCheckOffset os offset;
             os1 \<leftarrow> flushRangeForRead base sz os;
             ((root, us), st', os') \<leftarrow> getUpdates st os1;
             index \<leftarrow> ZExtExpr_create offset 32;
             e \<leftarrow> ReadExpr_create root us index;
             Some (e, st', os') }
      else None)"

definition increaseUntaggedWriteCnt :: "64 word \<Rightarrow> nat option \<Rightarrow> ObjectState \<Rightarrow> ObjectState" where
  "increaseUntaggedWriteCnt flags kinst os =
     (if flags AND FLAG_INITIALIZATION = 0 \<and> kinst = None
      then os\<lparr>untaggedWriteCnt := (untaggedWriteCnt os + 1) mod 2 ^ 32\<rparr> else os)"

definition setTag :: "nat \<Rightarrow> 64 word \<Rightarrow> nat option \<Rightarrow> ObjectState \<Rightarrow> ObjectState" where
  "setTag offset flags kinst os =
     os\<lparr>flagStore := (flagStore os)[offset := flags], kinstStore := (kinstStore os)[offset := kinst]\<rparr>"

definition write8 :: "nat \<Rightarrow> 8 word \<Rightarrow> 64 word \<Rightarrow> nat option \<Rightarrow> ObjectState \<Rightarrow> ObjectState option" where
  "write8 offset v flags kinst os =
     (if offset < os_size os then
        (let os1 = increaseUntaggedWriteCnt flags kinst os;
             os2 = setTag offset flags kinst (os1\<lparr>concreteStore := (concreteStore os1)[offset := v]\<rparr>)
         in Some (markByteUnflushed offset (markByteConcrete offset (setKnownSymbolic offset None os2))))
      else None)"

definition write8_value :: "nat \<Rightarrow> expr \<Rightarrow> 64 word \<Rightarrow> nat option \<Rightarrow> ObjectState \<Rightarrow> ObjectState option" where
  "write8_value offset value flags kinst os =
     (case as_const value of
        Some CE \<Rightarrow> if getBitWidth CE \<le> 8 then write8 offset (word_of_int (apval CE)) flags kinst os else None
      | None \<Rightarrow>
          if offset < os_size os then
            (let os1 = setTag offset flags kinst (setKnownSymbolic offset (Some value) (increaseUntaggedWriteCnt flags kinst os))
             in Some (markByteUnflushed offset (markByteSymbolic offset os1)))
          else None)"

definition write8_expr :: "expr \<Rightarrow> expr \<Rightarrow> 64 word \<Rightarrow> nat option \<Rightarrow> ObjectState \<Rightarrow> ObjectState option" where
  "write8_expr offset value flags kinst os =
     (if as_const offset = None then
        do { let (base, sz) = fastRangeCheckOffset os offset;
             os1 \<leftarrow> flushRangeForWrite base sz (increaseUntaggedWriteCnt flags kinst os);
             index \<leftarrow> ZExtExpr_create offset 32;
             ul \<leftarrow> UpdateList_extend (os_updates os1) index value;
             Some (os1\<lparr>os_updates := ul\<rparr>) }
      else None)"

section \<open>Reading and writing a value\<close>

text \<open>The byte loop of \<^verbatim>\<open>read\<close>, over the reader of one byte; \<open>Res\<close> starts as the null reference.\<close>

function read_bytes ::
    "bool \<Rightarrow> (nat \<Rightarrow> Arrays \<Rightarrow> ObjectState \<Rightarrow> (expr \<times> Arrays \<times> ObjectState) option) \<Rightarrow> nat \<Rightarrow> nat \<Rightarrow>
     expr option \<Rightarrow> Arrays \<Rightarrow> ObjectState \<Rightarrow> (expr option \<times> Arrays \<times> ObjectState) option" where
  "read_bytes le rd NumBytes i Res st os =
     (if i < NumBytes then
        do { let idx = (if le then i else NumBytes - i - 1);
             (Byte, st', os') \<leftarrow> rd idx st os;
             Res' \<leftarrow> (case Res of Some r \<Rightarrow> ConcatExpr_create Byte r | None \<Rightarrow> Some Byte);
             read_bytes le rd NumBytes (i + 1) (Some Res') st' os' }
      else Some (Res, st, os))"
  by pat_completeness auto
termination read_bytes
  by (relation "measure (\<lambda>(le, rd, N, i, _). N - i)") auto

declare read_bytes.simps [simp del]

definition read_slow ::
    "Context \<Rightarrow> (nat \<Rightarrow> Arrays \<Rightarrow> ObjectState \<Rightarrow> (expr \<times> Arrays \<times> ObjectState) option) \<Rightarrow> width \<Rightarrow>
     Arrays \<Rightarrow> ObjectState \<Rightarrow> (expr \<times> Arrays \<times> ObjectState) option" where
  "read_slow ctx rd w st os =
     (let NumBytes = w div 8
      in if w = NumBytes * 8 then
           do { (Res, st', os') \<leftarrow> read_bytes (isLittleEndian ctx) rd NumBytes 0 None st os;
                r \<leftarrow> Res;
                Some (r, st', os') }
         else None)"

definition read_at ::
    "Context \<Rightarrow> nat \<Rightarrow> width \<Rightarrow> Arrays \<Rightarrow> ObjectState \<Rightarrow> (expr \<times> Arrays \<times> ObjectState) option" where
  "read_at ctx offset w st os =
     (if w = 1 then
        do { (b, st', os') \<leftarrow> read8 offset st os;
             e \<leftarrow> ExtractExpr_create b 0 1;
             Some (e, st', os') }
      else read_slow ctx (\<lambda>idx. read8 ((offset + idx) mod 2 ^ 32)) w st os)"

definition ObjectState_read ::
    "Context \<Rightarrow> expr \<Rightarrow> width \<Rightarrow> Arrays \<Rightarrow> ObjectState \<Rightarrow> (expr \<times> Arrays \<times> ObjectState) option" where
  "ObjectState_read ctx offset w st os =
     do { offset \<leftarrow> ZExtExpr_create offset 32;
          case as_const offset of
            Some CE \<Rightarrow> read_at ctx (nat (apval CE)) w st os
          | None \<Rightarrow>
              if w = 1 then
                do { (b, st', os') \<leftarrow> read8_expr offset st os;
                     e \<leftarrow> ExtractExpr_create b 0 1;
                     Some (e, st', os') }
              else read_slow ctx
                     (\<lambda>idx st os. do { i \<leftarrow> AddExpr_create offset (ConstantExpr_alloc (int idx) 32); read8_expr i st os })
                     w st os }"

text \<open>The byte loop of the writes; \<open>wr i idx\<close> stores byte \<open>i\<close> of the value at offset \<open>idx\<close>.\<close>

function write_bytes ::
    "bool \<Rightarrow> (nat \<Rightarrow> nat \<Rightarrow> ObjectState \<Rightarrow> ObjectState option) \<Rightarrow> nat \<Rightarrow> nat \<Rightarrow> ObjectState \<Rightarrow> ObjectState option" where
  "write_bytes le wr NumBytes i os =
     (if i < NumBytes then
        do { let idx = (if le then i else NumBytes - i - 1);
             os' \<leftarrow> wr i idx os;
             write_bytes le wr NumBytes (i + 1) os' }
      else Some os)"
  by pat_completeness auto
termination write_bytes
  by (relation "measure (\<lambda>(le, wr, N, i, _). N - i)") auto

declare write_bytes.simps [simp del]

definition write16 :: "Context \<Rightarrow> nat \<Rightarrow> 16 word \<Rightarrow> 64 word \<Rightarrow> nat option \<Rightarrow> ObjectState \<Rightarrow> ObjectState option" where
  "write16 ctx offset v flags kinst =
     write_bytes (isLittleEndian ctx) (\<lambda>i idx. write8 ((offset + idx) mod 2 ^ 32) (ucast (drop_bit (8 * i) v)) flags kinst) 2 0"

definition write32 :: "Context \<Rightarrow> nat \<Rightarrow> 32 word \<Rightarrow> 64 word \<Rightarrow> nat option \<Rightarrow> ObjectState \<Rightarrow> ObjectState option" where
  "write32 ctx offset v flags kinst =
     write_bytes (isLittleEndian ctx) (\<lambda>i idx. write8 ((offset + idx) mod 2 ^ 32) (ucast (drop_bit (8 * i) v)) flags kinst) 4 0"

definition write64 :: "Context \<Rightarrow> nat \<Rightarrow> 64 word \<Rightarrow> 64 word \<Rightarrow> nat option \<Rightarrow> ObjectState \<Rightarrow> ObjectState option" where
  "write64 ctx offset v flags kinst =
     write_bytes (isLittleEndian ctx) (\<lambda>i idx. write8 ((offset + idx) mod 2 ^ 32) (ucast (drop_bit (8 * i) v)) flags kinst) 8 0"

definition write_slow :: "Context \<Rightarrow> nat \<Rightarrow> expr \<Rightarrow> 64 word \<Rightarrow> nat option \<Rightarrow> ObjectState \<Rightarrow> ObjectState option" where
  "write_slow ctx offset value flags kinst os =
     (let w = getWidth value
      in if w = 1 then
           do { v \<leftarrow> ZExtExpr_create value 8; write8_value offset v flags kinst os }
         else
           (let NumBytes = w div 8
            in if w = NumBytes * 8 then
                 write_bytes (isLittleEndian ctx)
                   (\<lambda>i idx os. do { b \<leftarrow> ExtractExpr_create value (8 * i) 8; write8_value ((offset + idx) mod 2 ^ 32) b flags kinst os })
                   NumBytes 0 os
               else None))"

definition write_at :: "Context \<Rightarrow> nat \<Rightarrow> expr \<Rightarrow> 64 word \<Rightarrow> nat option \<Rightarrow> ObjectState \<Rightarrow> ObjectState option" where
  "write_at ctx offset value flags kinst os =
     (case as_const value of
        Some CE \<Rightarrow>
          (let w = getBitWidth CE; v = word_of_int (apval CE) :: 64 word
           in if w \<le> 64 \<and> bits64_isPowerOfTwo (of_nat w) then
                (if w = 1 \<or> w = 8 then write8 offset (ucast v) flags kinst os
                 else if w = 16 then write16 ctx offset (ucast v) flags kinst os
                 else if w = 32 then write32 ctx offset (ucast v) flags kinst os
                 else if w = 64 then write64 ctx offset v flags kinst os
                 else None)
              else write_slow ctx offset value flags kinst os)
      | None \<Rightarrow> write_slow ctx offset value flags kinst os)"

definition ObjectState_write ::
    "Context \<Rightarrow> expr \<Rightarrow> expr \<Rightarrow> 64 word \<Rightarrow> nat option \<Rightarrow> ObjectState \<Rightarrow> ObjectState option" where
  "ObjectState_write ctx offset value flags kinst os =
     do { offset \<leftarrow> ZExtExpr_create offset 32;
          case as_const offset of
            Some CE \<Rightarrow> write_at ctx (nat (apval CE)) value flags kinst os
          | None \<Rightarrow>
              (let w = getWidth value
               in if w = 1 then
                    do { v \<leftarrow> ZExtExpr_create value 8; write8_expr offset v flags kinst os }
                  else
                    (let NumBytes = w div 8
                     in if w = NumBytes * 8 then
                          write_bytes (isLittleEndian ctx)
                            (\<lambda>i idx os. do { o' \<leftarrow> AddExpr_create offset (ConstantExpr_alloc (int idx) 32);
                                             b \<leftarrow> ExtractExpr_create value (8 * i) 8;
                                             write8_expr o' b flags kinst os })
                            NumBytes 0 os
                        else None)) }"

section \<open>Well-formed object states and their content\<close>

text \<open>The root of an update list; before the constant array exists, the object is all zeros.\<close>

definition zero_array :: "nat \<Rightarrow> array" where
  "zero_array sz =
     \<lparr>arr_id = 0, arr_name = [], arr_size = sz, arr_domain = 32, arr_range = 8,
      constantValues = replicate sz (apint_of 8 0)\<rparr>"

definition root_array :: "UpdateList \<Rightarrow> nat \<Rightarrow> array" where
  "root_array ul sz = (case ul_root ul of Some a \<Rightarrow> a | None \<Rightarrow> zero_array sz)"

definition ul_array :: "ObjectState \<Rightarrow> array" where
  "ul_array os = root_array (os_updates os) (os_size os)"

definition ul_value :: "env \<Rightarrow> ObjectState \<Rightarrow> nat \<Rightarrow> int option" where
  "ul_value \<sigma> os i = eval_read \<sigma> (ul_array os) (ul_head (os_updates os)) (int i)"

definition content :: "env \<Rightarrow> ObjectState \<Rightarrow> nat \<Rightarrow> int option" where
  "content \<sigma> os i =
     (if isByteConcrete os i then Some (uint (concreteStore os ! i))
      else case knownSymbolic os i of Some e \<Rightarrow> eval \<sigma> e | None \<Rightarrow> ul_value \<sigma> os i)"

definition wf_byte_array :: "array \<Rightarrow> bool" where
  "wf_byte_array a \<longleftrightarrow> wf_array a \<and> arr_domain a = 32 \<and> arr_range a = 8"

text \<open>The shape of an object state: sizes, widths, constant indices in range.\<close>

definition os_shape :: "ObjectState \<Rightarrow> bool" where
  "os_shape os \<longleftrightarrow>
     os_size os + 31 < 2 ^ 32 \<and>
     length (concreteStore os) = os_size os \<and> length (flagStore os) = os_size os \<and>
     length (kinstStore os) = os_size os \<and>
     (\<forall>m. concreteMask os = Some m \<longrightarrow> wf_BitArray (os_size os) m) \<and>
     (\<forall>m. flushMask os = Some m \<longrightarrow> wf_BitArray (os_size os) m) \<and>
     (\<forall>ks. knownSymbolics os = Some ks \<longrightarrow> length ks = os_size os) \<and>
     wf_byte_array (ul_array os) \<and> wf_updates (ul_array os) (ul_head (os_updates os)) \<and>
     (ul_root (os_updates os) = None \<longrightarrow>
        (\<forall>(j, v) \<in> set (ul_head (os_updates os)). \<forall>c. j = ConstantExpr c \<longrightarrow> apval c < int (os_size os)))"

text \<open>The invariants of the comment before \<^verbatim>\<open>fastRangeCheckOffset\<close>, for one byte, and that a
  flushed byte that is still cached has the same value in the update list.\<close>

definition byte_inv :: "ObjectState \<Rightarrow> nat \<Rightarrow> bool" where
  "byte_inv os i \<longleftrightarrow>
     (isByteKnownSymbolic os i \<longrightarrow> \<not> isByteConcrete os i) \<and>
     (\<not> isByteFlushed os i \<longrightarrow> isByteConcrete os i \<or> isByteKnownSymbolic os i) \<and>
     (\<forall>e. knownSymbolic os i = Some e \<longrightarrow> wf_expr e \<and> getWidth e = 8) \<and>
     (isByteFlushed os i \<longrightarrow> (\<forall>\<sigma>. ul_value \<sigma> os i = content \<sigma> os i))"

definition wf_os :: "ObjectState \<Rightarrow> bool" where
  "wf_os os \<longleftrightarrow> os_shape os \<and> (\<forall>i < os_size os. byte_inv os i)"

section \<open>What the marks change\<close>

lemma mark_fields [simp]:
  "os_size (markByteConcrete i os) = os_size os" "os_size (markByteSymbolic i os) = os_size os"
  "os_size (markByteFlushed i os) = os_size os" "os_size (markByteUnflushed i os) = os_size os"
  "os_size (setKnownSymbolic i v os) = os_size os" "os_size (unsetFlushMask i os) = os_size os"
  "os_size (ensureFlushMask os) = os_size os" "os_size (setTag i f k os) = os_size os"
  "os_size (increaseUntaggedWriteCnt f k os) = os_size os"
  "os_updates (markByteConcrete i os) = os_updates os" "os_updates (markByteSymbolic i os) = os_updates os"
  "os_updates (markByteFlushed i os) = os_updates os" "os_updates (markByteUnflushed i os) = os_updates os"
  "os_updates (setKnownSymbolic i v os) = os_updates os" "os_updates (unsetFlushMask i os) = os_updates os"
  "os_updates (ensureFlushMask os) = os_updates os" "os_updates (setTag i f k os) = os_updates os"
  "os_updates (increaseUntaggedWriteCnt f k os) = os_updates os"
  "concreteStore (markByteConcrete i os) = concreteStore os" "concreteStore (markByteSymbolic i os) = concreteStore os"
  "concreteStore (markByteFlushed i os) = concreteStore os" "concreteStore (markByteUnflushed i os) = concreteStore os"
  "concreteStore (setKnownSymbolic i v os) = concreteStore os" "concreteStore (unsetFlushMask i os) = concreteStore os"
  "concreteStore (ensureFlushMask os) = concreteStore os" "concreteStore (setTag i f k os) = concreteStore os"
  "concreteStore (increaseUntaggedWriteCnt f k os) = concreteStore os"
  by (simp_all add: markByteConcrete_def markByteSymbolic_def markByteFlushed_def markByteUnflushed_def
    setKnownSymbolic_def unsetFlushMask_def ensureFlushMask_def setTag_def increaseUntaggedWriteCnt_def Let_def
    split: option.split)

lemma BitArray_get_new_unset [simp]:
  "sz + 31 < 2 ^ 32 \<Longrightarrow> i < sz \<Longrightarrow> j < sz \<Longrightarrow>
   BitArray_get (BitArray_unset (BitArray_new sz v) i) j \<longleftrightarrow> j \<noteq> i \<and> v"
  using BitArray_get_set(2) [OF wf_BitArray_ops(1), of sz i j v] by simp

lemma isByteConcrete_marks:
  assumes "os_shape os" "i < os_size os" "j < os_size os"
  shows "isByteConcrete (markByteConcrete i os) j \<longleftrightarrow> j = i \<or> isByteConcrete os j"
    "isByteConcrete (markByteSymbolic i os) j \<longleftrightarrow> j \<noteq> i \<and> isByteConcrete os j"
    "isByteFlushed (markByteUnflushed i os) j \<longleftrightarrow> j \<noteq> i \<and> isByteFlushed os j"
    "isByteFlushed (ensureFlushMask os) j \<longleftrightarrow> isByteFlushed os j"
    "flushMask os \<noteq> None \<Longrightarrow> isByteFlushed (unsetFlushMask i os) j \<longleftrightarrow> j = i \<or> isByteFlushed os j"
    "knownSymbolic (setKnownSymbolic i v os) j = (if j = i then v else knownSymbolic os j)"
  using assms
  by (auto simp: isByteConcrete_def isByteFlushed_def knownSymbolic_def markByteConcrete_def markByteSymbolic_def
    markByteUnflushed_def ensureFlushMask_def unsetFlushMask_def setKnownSymbolic_def os_shape_def Let_def
    split: option.splits)

text \<open>What each mark leaves alone.\<close>

lemma marks_other [simp]:
  "isByteConcrete (markByteUnflushed i os) j = isByteConcrete os j"
  "isByteConcrete (setKnownSymbolic i v os) j = isByteConcrete os j"
  "isByteConcrete (unsetFlushMask i os) j = isByteConcrete os j"
  "isByteConcrete (ensureFlushMask os) j = isByteConcrete os j"
  "isByteConcrete (setTag i f k os) j = isByteConcrete os j"
  "isByteConcrete (increaseUntaggedWriteCnt f k os) j = isByteConcrete os j"
  "isByteConcrete (os\<lparr>os_updates := ul\<rparr>) j = isByteConcrete os j"
  "isByteConcrete (os\<lparr>concreteStore := cs\<rparr>) j = isByteConcrete os j"
  "isByteFlushed (markByteConcrete i os) j = isByteFlushed os j"
  "isByteFlushed (markByteSymbolic i os) j = isByteFlushed os j"
  "isByteFlushed (setKnownSymbolic i v os) j = isByteFlushed os j"
  "isByteFlushed (setTag i f k os) j = isByteFlushed os j"
  "isByteFlushed (increaseUntaggedWriteCnt f k os) j = isByteFlushed os j"
  "isByteFlushed (os\<lparr>os_updates := ul\<rparr>) j = isByteFlushed os j"
  "isByteFlushed (os\<lparr>concreteStore := cs\<rparr>) j = isByteFlushed os j"
  "knownSymbolic (markByteConcrete i os) j = knownSymbolic os j"
  "knownSymbolic (markByteSymbolic i os) j = knownSymbolic os j"
  "knownSymbolic (markByteUnflushed i os) j = knownSymbolic os j"
  "knownSymbolic (unsetFlushMask i os) j = knownSymbolic os j"
  "knownSymbolic (ensureFlushMask os) j = knownSymbolic os j"
  "knownSymbolic (setTag i f k os) j = knownSymbolic os j"
  "knownSymbolic (increaseUntaggedWriteCnt f k os) j = knownSymbolic os j"
  "knownSymbolic (os\<lparr>os_updates := ul\<rparr>) j = knownSymbolic os j"
  "knownSymbolic (os\<lparr>concreteStore := cs\<rparr>) j = knownSymbolic os j"
  by (simp_all add: isByteConcrete_def isByteFlushed_def knownSymbolic_def markByteConcrete_def markByteSymbolic_def
    markByteUnflushed_def setKnownSymbolic_def unsetFlushMask_def ensureFlushMask_def setTag_def
    increaseUntaggedWriteCnt_def Let_def split: option.split)

lemma ul_cong [simp]:
  "ul_array (os\<lparr>concreteStore := cs\<rparr>) = ul_array os"
  "ul_array (markByteConcrete i os) = ul_array os" "ul_array (markByteSymbolic i os) = ul_array os"
  "ul_array (markByteUnflushed i os) = ul_array os" "ul_array (setKnownSymbolic i v os) = ul_array os"
  "ul_array (unsetFlushMask i os) = ul_array os" "ul_array (ensureFlushMask os) = ul_array os"
  "ul_array (setTag i f k os) = ul_array os" "ul_array (increaseUntaggedWriteCnt f k os) = ul_array os"
  "ul_value \<sigma> (os\<lparr>concreteStore := cs\<rparr>) j = ul_value \<sigma> os j"
  "ul_value \<sigma> (markByteConcrete i os) j = ul_value \<sigma> os j" "ul_value \<sigma> (markByteSymbolic i os) j = ul_value \<sigma> os j"
  "ul_value \<sigma> (markByteUnflushed i os) j = ul_value \<sigma> os j" "ul_value \<sigma> (setKnownSymbolic i v os) j = ul_value \<sigma> os j"
  "ul_value \<sigma> (unsetFlushMask i os) j = ul_value \<sigma> os j" "ul_value \<sigma> (ensureFlushMask os) j = ul_value \<sigma> os j"
  "ul_value \<sigma> (setTag i f k os) j = ul_value \<sigma> os j"
  "ul_value \<sigma> (increaseUntaggedWriteCnt f k os) j = ul_value \<sigma> os j"
  by (simp_all add: ul_array_def ul_value_def)

lemma os_shape_marks [simp, er_wf]:
  assumes "os_shape os"
  shows "os_shape (markByteConcrete i os)" "os_shape (markByteSymbolic i os)" "os_shape (markByteUnflushed i os)"
    "os_shape (setKnownSymbolic i v os)" "os_shape (unsetFlushMask i os)" "os_shape (ensureFlushMask os)"
    "os_shape (setTag i f k os)" "os_shape (increaseUntaggedWriteCnt f k os)"
    "length cs = os_size os \<Longrightarrow> os_shape (os\<lparr>concreteStore := cs\<rparr>)"
proof -
  have BA: "os_size os + 31 < 2 ^ 32" "\<And>m. concreteMask os = Some m \<Longrightarrow> wf_BitArray (os_size os) m"
    "\<And>m. flushMask os = Some m \<Longrightarrow> wf_BitArray (os_size os) m" using assms by (auto simp: os_shape_def)
  note ba = wf_BitArray_ops(1) [OF BA(1)] BA(2,3)
  show "os_shape (markByteConcrete i os)"
    using assms ba by (cases "concreteMask os") (simp_all add: markByteConcrete_def os_shape_def ul_array_def)
  show "os_shape (markByteSymbolic i os)"
    using assms ba by (cases "concreteMask os") (simp_all add: markByteSymbolic_def os_shape_def ul_array_def)
  show "os_shape (markByteUnflushed i os)"
    using assms ba by (cases "flushMask os") (simp_all add: markByteUnflushed_def os_shape_def ul_array_def)
  show "os_shape (setKnownSymbolic i v os)"
    using assms by (cases "knownSymbolics os"; cases v) (simp_all add: setKnownSymbolic_def os_shape_def ul_array_def)
  show "os_shape (unsetFlushMask i os)"
    using assms ba by (cases "flushMask os") (simp_all add: unsetFlushMask_def os_shape_def ul_array_def)
  show "os_shape (ensureFlushMask os)"
    using assms ba by (cases "flushMask os") (simp_all add: ensureFlushMask_def os_shape_def ul_array_def)
  show "os_shape (setTag i f k os)" "os_shape (increaseUntaggedWriteCnt f k os)"
    "length cs = os_size os \<Longrightarrow> os_shape (os\<lparr>concreteStore := cs\<rparr>)"
    using assms by (simp_all add: setTag_def increaseUntaggedWriteCnt_def os_shape_def ul_array_def)
qed

section \<open>Writes of one byte\<close>

text \<open>A byte whose caches and update-list value are unchanged keeps its content and invariant.\<close>

lemma byte_unchanged:
  assumes "isByteConcrete os' i = isByteConcrete os i" "knownSymbolic os' i = knownSymbolic os i"
    "concreteStore os' ! i = concreteStore os ! i" "\<And>\<sigma>. ul_value \<sigma> os' i = ul_value \<sigma> os i"
  shows "content \<sigma> os' i = content \<sigma> os i" "isByteFlushed os' i = isByteFlushed os i \<Longrightarrow> byte_inv os' i = byte_inv os i"
  using assms by (simp_all add: content_def byte_inv_def isByteKnownSymbolic_def cong: option.case_cong)

lemma wf_osD:
  assumes "wf_os os"
  shows "os_shape os" "\<And>i. i < os_size os \<Longrightarrow> byte_inv os i" "os_size os + 31 < 2 ^ 32"
    "length (concreteStore os) = os_size os"
  using assms by (auto simp: wf_os_def os_shape_def)

lemmas mark_simps = isByteConcrete_marks isByteKnownSymbolic_def

lemma write8_ok:
  assumes "wf_os os" "off < os_size os"
  shows "\<exists>os'. write8 off v f k os = Some os' \<and> wf_os os' \<and> os_size os' = os_size os \<and>
    (\<forall>\<sigma>. \<forall>i < os_size os. content \<sigma> os' i = (if i = off then Some (uint v) else content \<sigma> os i))"
proof -
  note wf = wf_osD [OF assms(1)]
  define os1 where "os1 = increaseUntaggedWriteCnt f k os"
  define os2 where "os2 = setTag off f k (os1\<lparr>concreteStore := (concreteStore os1)[off := v]\<rparr>)"
  define os3 where "os3 = setKnownSymbolic off None os2"
  define os4 where "os4 = markByteConcrete off os3"
  define os' where "os' = markByteUnflushed off os4"
  have s1: "os_shape os1" "os_size os1 = os_size os" "concreteStore os1 = concreteStore os"
    using wf(1) by (simp_all add: os1_def)
  have s2: "os_shape os2" "os_size os2 = os_size os" using s1 wf(4) by (simp_all add: os2_def)
  have s3: "os_shape os3" "os_size os3 = os_size os" using s2 by (simp_all add: os3_def)
  have s4: "os_shape os4" "os_size os4 = os_size os" using s3 by (simp_all add: os4_def)
  have s': "os_shape os'" "os_size os' = os_size os" using s4 by (simp_all add: os'_def)
  have kn: "knownSymbolic os' i = (if i = off then None else knownSymbolic os i)"
    and co: "isByteConcrete os' i \<longleftrightarrow> i = off \<or> isByteConcrete os i"
    and fl: "isByteFlushed os' i \<longleftrightarrow> i \<noteq> off \<and> isByteFlushed os i"
    and st: "concreteStore os' ! i = (if i = off then v else concreteStore os ! i)"
    and ul: "ul_value \<sigma> os' i = ul_value \<sigma> os i" if "i < os_size os" for i \<sigma>
  proof -
    have i: "off < os_size os2" "i < os_size os2" "off < os_size os3" "i < os_size os3" "off < os_size os4" "i < os_size os4"
      using that assms(2) s2 s3 s4 by simp_all
    show "knownSymbolic os' i = (if i = off then None else knownSymbolic os i)"
      using isByteConcrete_marks(6) [OF s2(1) i(1,2)] by (simp add: os'_def os4_def os3_def os2_def os1_def)
    show "isByteConcrete os' i \<longleftrightarrow> i = off \<or> isByteConcrete os i"
      using isByteConcrete_marks(1) [OF s3(1) i(3,4)] by (simp add: os'_def os4_def) (simp add: os3_def os2_def os1_def)
    show "isByteFlushed os' i \<longleftrightarrow> i \<noteq> off \<and> isByteFlushed os i"
      using isByteConcrete_marks(3) [OF s4(1) i(5,6)] by (simp add: os'_def) (simp add: os4_def os3_def os2_def os1_def)
    show "concreteStore os' ! i = (if i = off then v else concreteStore os ! i)"
      using that assms(2) wf(4) by (simp add: os'_def os4_def os3_def os2_def os1_def)
    show "ul_value \<sigma> os' i = ul_value \<sigma> os i" by (simp add: os'_def os4_def os3_def os2_def os1_def)
  qed
  have c: "content \<sigma> os' i = (if i = off then Some (uint v) else content \<sigma> os i)" if "i < os_size os" for \<sigma> i
    using that by (simp add: content_def kn co st ul cong: option.case_cong)
  have "byte_inv os' i" if "i < os_size os" for i
  proof (cases "i = off")
    case True
    then show ?thesis using that by (simp add: byte_inv_def isByteKnownSymbolic_def kn co fl)
  next
    case False
    have "byte_inv os' i = byte_inv os i"
      by (rule byte_unchanged(2)) (use that False in \<open>simp_all add: kn co fl st ul\<close>)
    then show ?thesis using wf(2) [OF that] by simp
  qed
  with s' have "wf_os os'" by (simp add: wf_os_def)
  moreover have "write8 off v f k os = Some os'"
    using assms(2) by (simp add: write8_def Let_def os'_def os4_def os3_def os2_def os1_def)
  ultimately show ?thesis using s'(2) c by blast
qed

text \<open>A non-constant byte goes to the cache of known symbolic bytes.\<close>

lemma write8_value_symbolic_ok:
  assumes "wf_os os" "off < os_size os" "as_const e = None" "wf_expr e" "getWidth e = 8"
  shows "\<exists>os'. write8_value off e f k os = Some os' \<and> wf_os os' \<and> os_size os' = os_size os \<and>
    (\<forall>\<sigma>. \<forall>i < os_size os. content \<sigma> os' i = (if i = off then eval \<sigma> e else content \<sigma> os i))"
proof -
  note wf = wf_osD [OF assms(1)]
  define os1 where "os1 = increaseUntaggedWriteCnt f k os"
  define os2 where "os2 = setTag off f k (setKnownSymbolic off (Some e) os1)"
  define os3 where "os3 = markByteSymbolic off os2"
  define os' where "os' = markByteUnflushed off os3"
  have s1: "os_shape os1" "os_size os1 = os_size os" using wf(1) by (simp_all add: os1_def)
  have s2: "os_shape os2" "os_size os2 = os_size os" using s1 by (simp_all add: os2_def)
  have s3: "os_shape os3" "os_size os3 = os_size os" using s2 by (simp_all add: os3_def)
  have s': "os_shape os'" "os_size os' = os_size os" using s3 by (simp_all add: os'_def)
  have kn: "knownSymbolic os' i = (if i = off then Some e else knownSymbolic os i)"
    and co: "isByteConcrete os' i \<longleftrightarrow> i \<noteq> off \<and> isByteConcrete os i"
    and fl: "isByteFlushed os' i \<longleftrightarrow> i \<noteq> off \<and> isByteFlushed os i"
    and st: "concreteStore os' ! i = concreteStore os ! i"
    and ul: "ul_value \<sigma> os' i = ul_value \<sigma> os i" if "i < os_size os" for i \<sigma>
  proof -
    have i: "off < os_size os1" "i < os_size os1" "off < os_size os2" "i < os_size os2" "off < os_size os3" "i < os_size os3"
      using that assms(2) s1 s2 s3 by simp_all
    show "knownSymbolic os' i = (if i = off then Some e else knownSymbolic os i)"
      using isByteConcrete_marks(6) [OF s1(1) i(1,2)] by (simp add: os'_def os3_def os2_def) (simp add: os1_def)
    show "isByteConcrete os' i \<longleftrightarrow> i \<noteq> off \<and> isByteConcrete os i"
      using isByteConcrete_marks(2) [OF s2(1) i(3,4)] by (simp add: os'_def os3_def) (simp add: os2_def os1_def)
    show "isByteFlushed os' i \<longleftrightarrow> i \<noteq> off \<and> isByteFlushed os i"
      using isByteConcrete_marks(3) [OF s3(1) i(5,6)] by (simp add: os'_def) (simp add: os3_def os2_def os1_def)
    show "concreteStore os' ! i = concreteStore os ! i" "ul_value \<sigma> os' i = ul_value \<sigma> os i"
      by (simp_all add: os'_def os3_def os2_def os1_def)
  qed
  have c: "content \<sigma> os' i = (if i = off then eval \<sigma> e else content \<sigma> os i)" if "i < os_size os" for \<sigma> i
    using that by (simp add: content_def kn co st ul cong: option.case_cong)
  have "byte_inv os' i" if "i < os_size os" for i
  proof (cases "i = off")
    case True
    then show ?thesis using that assms(4,5) by (simp add: byte_inv_def isByteKnownSymbolic_def kn co fl)
  next
    case False
    have "byte_inv os' i = byte_inv os i"
      by (rule byte_unchanged(2)) (use that False in \<open>simp_all add: kn co fl st ul\<close>)
    then show ?thesis using wf(2) [OF that] by simp
  qed
  with s' have "wf_os os'" by (simp add: wf_os_def)
  moreover have "write8_value off e f k os = Some os'"
    using assms(2,3) by (simp add: write8_value_def Let_def os'_def os3_def os2_def os1_def)
  ultimately show ?thesis using s'(2) c by blast
qed

lemma write8_value_ok:
  assumes "wf_os os" "off < os_size os" "wf_expr e" "getWidth e = 8"
  shows "\<exists>os'. write8_value off e f k os = Some os' \<and> wf_os os' \<and> os_size os' = os_size os \<and>
    (\<forall>\<sigma>. \<forall>i < os_size os. content \<sigma> os' i = (if i = off then eval \<sigma> e else content \<sigma> os i))"
proof (cases "as_const e")
  case (Some c)
  with assms have c: "e = ConstantExpr c" "getBitWidth c = 8" "0 \<le> apval c" "apval c < 2 ^ 8"
    by (auto simp: wf_apint_def)
  have u: "uint (word_of_int (apval c) :: 8 word) = apval c" using c(3,4) by (simp only: uint_word_of_int) simp
  show ?thesis
    using write8_ok [OF assms(1,2), of "word_of_int (apval c)" f k] unfolding c(1) write8_value_def u eval.simps(1) by (simp add: c(2) split del: if_split)
qed (use write8_value_symbolic_ok assms in blast)

section \<open>The lazily created constant array\<close>

lemma wf_byte_zero_array: "wf_byte_array (zero_array sz)"
  by (auto simp: wf_byte_array_def wf_array_def zero_array_def isConstantArray_def isSymbolicArray_def wf_apint_def)

text \<open>An array with the given initial contents, and writes to it, oldest first.\<close>

definition contents_value :: "env \<Rightarrow> apint list \<Rightarrow> updates \<Rightarrow> nat \<Rightarrow> int option" where
  "contents_value \<sigma> Contents Writes i =
     eval_read \<sigma> ((zero_array (length Contents))\<lparr>constantValues := Contents\<rparr>) (rev Writes) (int i)"

text \<open>The initial contents matter only through the byte that is read.\<close>

lemma eval_read_cong:
  assumes "eval_read \<sigma> a vs n = eval_read \<sigma> b ws n"
  shows "eval_read \<sigma> a (us @ vs) n = eval_read \<sigma> b (us @ ws) n"
  using assms by (induction us) (auto split: option.splits)

lemma pull_concrete_writes_ok:
  assumes "\<forall>c \<in> set Contents. wf_apint c \<and> getBitWidth c = 8"
    and "wf_updates (zero_array sz) Writes"
    and "\<forall>(j, v) \<in> set Writes. \<forall>c. j = ConstantExpr c \<longrightarrow> apval c < int (length Contents)"
  shows "\<exists>C rest. pull_concrete_writes Contents Writes = Some (C, rest) \<and> length C = length Contents \<and>
    (\<forall>c \<in> set C. wf_apint c \<and> getBitWidth c = 8) \<and> wf_updates (zero_array sz) rest \<and> set rest \<subseteq> set Writes \<and>
    (\<forall>\<sigma>. \<forall>i < length Contents. contents_value \<sigma> C rest i = contents_value \<sigma> Contents Writes i)"
  using assms
proof (induction Writes arbitrary: Contents)
  case Nil
  then show ?case by simp
next
  case (Cons w Writes)
  obtain j v where w: "w = (j, v)" by (cases w)
  note 2 = Cons [unfolded w]
  show ?case
  proof (cases "as_const j \<noteq> None \<and> as_const v \<noteq> None")
    case False
    then have "pull_concrete_writes Contents ((j, v) # Writes) = Some (Contents, (j, v) # Writes)"
      by (cases "as_const j"; cases "as_const v") auto
    with 2(2-4) show ?thesis by (simp only: w) simp
  next
    case True
    then obtain c d where cd: "j = ConstantExpr c" "v = ConstantExpr d" by auto
    with 2(3,4) have c: "getBitWidth c = 32" "0 \<le> apval c" "apval c < int (length Contents)"
      and d: "wf_apint d" "getBitWidth d = 8" by (auto simp: wf_apint_def zero_array_def)
    let ?C = "Contents[nat (apval c) := d]"
    have C: "\<forall>c \<in> set ?C. wf_apint c \<and> getBitWidth c = 8" using 2(2) d by (auto dest: set_update_subset_insert [THEN subsetD])
    have "contents_value \<sigma> ?C Writes i = contents_value \<sigma> Contents ((j, v) # Writes) i" if "i < length Contents" for \<sigma> i
    proof -
      have "contents_value \<sigma> ?C [] i = contents_value \<sigma> Contents [(j, v)] i"
        using that c d by (auto simp: contents_value_def cd initial_value_def isConstantArray_def isSymbolicArray_def
          zero_array_def nth_list_update)
      then show ?thesis unfolding contents_value_def by (auto intro: eval_read_cong [where ws = "[(j, v)]" and vs = "[]", simplified])
    qed
    with 2(1) [OF C] cd c 2(3,4) show ?thesis by (auto simp: w)
  qed
qed

lemma extend_all_ok:
  assumes "arr_domain a = 32" "arr_range a = 8" "wf_updates (zero_array sz) ws" "ul_root ul = Some a"
  shows "extend_all ul ws = Some (ul\<lparr>ul_head := rev ws @ ul_head ul\<rparr>)"
  using assms(3,4)
proof (induction ws arbitrary: ul)
  case (Cons w ws)
  then show ?case by (cases w) (simp add: UpdateList_extend_def assms(1,2) zero_array_def)
qed simp

lemma wf_updates_cong: "arr_domain a = arr_domain b \<Longrightarrow> arr_range a = arr_range b \<Longrightarrow> wf_updates a us = wf_updates b us"
  by (simp add: wf_updates_def)

lemma wf_byte_arrayD: "wf_byte_array a \<Longrightarrow> wf_array a \<and> arr_domain a = 32 \<and> arr_range a = 8"
  by (simp add: wf_byte_array_def)

text \<open>Only the values of a constant array matter for its initial content.\<close>

lemma eval_read_constant_array:
  assumes "constantValues a = constantValues b" "arr_size a = arr_size b" "constantValues a \<noteq> []" "n < int (arr_size a)"
  shows "eval_read \<sigma> a us n = eval_read \<sigma> b us n"
proof -
  have "eval_read \<sigma> a [] n = eval_read \<sigma> b [] n"
    using assms by (simp add: initial_value_def isConstantArray_def isSymbolicArray_def)
  from eval_read_cong [OF this, of us] show ?thesis by simp
qed

lemma getUpdates_ok:
  assumes "wf_os os" "0 < os_size os"
  shows "\<exists>a us st' os'. getUpdates st os = Some ((a, us), st', os') \<and> wf_byte_array a \<and> wf_updates a us \<and>
    wf_os os' \<and> os_size os' = os_size os \<and> os_updates os' = \<lparr>ul_root = Some a, ul_head = us\<rparr> \<and>
    os' = os\<lparr>os_updates := os_updates os'\<rparr> \<and>
    (\<forall>\<sigma>. \<forall>i < os_size os. eval_read \<sigma> a us (int i) = ul_value \<sigma> os i \<and> content \<sigma> os' i = content \<sigma> os i)"
proof (cases "ul_root (os_updates os)")
  case (Some a)
  with wf_osD(1) [OF assms(1)] have "wf_byte_array a" "wf_updates a (ul_head (os_updates os))"
    by (simp_all add: os_shape_def ul_array_def root_array_def)
  with Some assms show ?thesis by (simp add: getUpdates_def ul_value_def ul_array_def root_array_def)
next
  case None
  let ?ws = "rev (ul_head (os_updates os))" and ?zs = "replicate (os_size os) (apint_of 8 0)"
  note wf = wf_osD [OF assms(1)]
  have ws: "wf_updates (zero_array (os_size os)) ?ws"
    "\<forall>(j, v) \<in> set ?ws. \<forall>c. j = ConstantExpr c \<longrightarrow> apval c < int (length ?zs)"
    using wf(1) None by (simp_all add: os_shape_def ul_array_def root_array_def wf_updates_def)
  obtain C rest where C: "pull_concrete_writes ?zs ?ws = Some (C, rest)" "length C = os_size os"
    "\<forall>c \<in> set C. wf_apint c \<and> getBitWidth c = 8" "wf_updates (zero_array (os_size os)) rest"
    "\<forall>\<sigma>. \<forall>i < os_size os. contents_value \<sigma> C rest i = contents_value \<sigma> ?zs ?ws i"
    using pull_concrete_writes_ok [OF _ ws] by (auto simp: wf_apint_def)
  define ident where "ident = (const_arr_id st + 1) mod 2 ^ 32"
  define a where "a = \<lparr>arr_id = nextArray (arrayCache st), arr_name = ''const_arr'' @ utostr ident, arr_size = os_size os,
    arr_domain = 32, arr_range = 8, constantValues = C\<rparr>"
  have ne: "C \<noteq> []" using C(2) assms(2) by auto
  obtain ac where ac: "CreateArray (arrayCache st) (''const_arr'' @ utostr ident) (os_size os) C 32 8 = Some (a, ac)"
    using CreateArray_constant [OF ne C(2), of 8] C(3) wf(3) by (simp add: a_def Let_def)
  have wa: "wf_byte_array a"
    using C(2,3) by (auto simp: wf_byte_array_def wf_array_def a_def)
  have ex: "extend_all \<lparr>ul_root = Some a, ul_head = []\<rparr> rest = Some \<lparr>ul_root = Some a, ul_head = rev rest\<rparr>"
    using extend_all_ok [OF _ _ C(4), of a] wa by (simp add: wf_byte_array_def)
  define os' where "os' = os\<lparr>os_updates := \<lparr>ul_root = Some a, ul_head = rev rest\<rparr>\<rparr>"
  have g: "getUpdates st os = Some ((a, rev rest), st\<lparr>arrayCache := ac, const_arr_id := ident\<rparr>, os')"
    using None C(1) ac ex by (simp add: getUpdates_def ident_def os'_def)
  have us: "wf_updates a (rev rest)" using C(4) wa by (simp add: wf_updates_def zero_array_def wf_byte_array_def)
  have v: "eval_read \<sigma> a (rev rest) (int i) = ul_value \<sigma> os i" if "i < os_size os" for \<sigma> i
  proof -
    have "eval_read \<sigma> a (rev rest) (int i) = contents_value \<sigma> C rest i"
      unfolding contents_value_def using that C(2) ne
      by (intro eval_read_constant_array) (simp_all add: a_def zero_array_def)
    also have "\<dots> = contents_value \<sigma> ?zs ?ws i" using C(5) that by simp
    also have "\<dots> = ul_value \<sigma> os i"
      using None by (simp add: contents_value_def ul_value_def ul_array_def root_array_def zero_array_def)
    finally show ?thesis .
  qed
  have uv: "ul_value \<sigma> os' i = ul_value \<sigma> os i" if "i < os_size os" for \<sigma> i
    using v [OF that] by (simp add: ul_value_def os'_def ul_array_def root_array_def)
  have same: "content \<sigma> os' i = content \<sigma> os i" "byte_inv os' i = byte_inv os i" if "i < os_size os" for \<sigma> i
    by (rule byte_unchanged; use uv that in \<open>simp add: os'_def\<close>)+
  have "os_shape os'" using wf(1) wa us by (simp add: os_shape_def os'_def ul_array_def root_array_def)
  with same wf(2) have "wf_os os'" by (simp add: wf_os_def) (simp add: os'_def)
  with g wa us v same show ?thesis by (auto simp: os'_def)
qed

section \<open>Flushing the caches\<close>

lemma ul_value_extend:
  assumes "ul_head ul = (ix, e) # ul_head (os_updates os)" "ul_root ul = ul_root (os_updates os)" "eval \<sigma> ix = Some n"
  shows "ul_value \<sigma> (os\<lparr>os_updates := ul\<rparr>) j = (if n = int j then eval \<sigma> e else ul_value \<sigma> os j)"
  using assms by (simp add: ul_value_def ul_array_def root_array_def)

lemma UpdateList_extend_ok:
  assumes "os_shape os" "wf_expr ix" "getWidth ix = 32" "wf_expr e" "getWidth e = 8"
    and "\<And>c. ix = ConstantExpr c \<Longrightarrow> apval c < int (os_size os)"
  shows "\<exists>ul. UpdateList_extend (os_updates os) ix e = Some ul \<and> ul_root ul = ul_root (os_updates os) \<and>
    ul_head ul = (ix, e) # ul_head (os_updates os) \<and> os_shape (os\<lparr>os_updates := ul\<rparr>)"
proof -
  let ?ul = "os_updates os\<lparr>ul_head := (ix, e) # ul_head (os_updates os)\<rparr>"
  have w: "arr_domain (ul_array os) = 32" "arr_range (ul_array os) = 8"
    using assms(1) by (simp_all add: os_shape_def wf_byte_array_def)
  then have "UpdateList_extend (os_updates os) ix e = Some ?ul"
    using assms(3,5) by (auto simp: UpdateList_extend_def ul_array_def root_array_def split: option.split)
  moreover have "os_shape (os\<lparr>os_updates := ?ul\<rparr>)"
    using assms w by (simp add: os_shape_def ul_array_def root_array_def)
  ultimately show ?thesis by simp
qed

lemma extend_updates_ok:
  assumes "os_shape os" "off < os_size os" "wf_expr e" "getWidth e = 8"
  shows "\<exists>ul. extend_updates off e os = Some (os\<lparr>os_updates := ul\<rparr>) \<and> os_shape (os\<lparr>os_updates := ul\<rparr>) \<and>
    (\<forall>\<sigma> j. ul_value \<sigma> (os\<lparr>os_updates := ul\<rparr>) j = (if j = off then eval \<sigma> e else ul_value \<sigma> os j))"
proof -
  let ?ix = "ConstantExpr_alloc (int off) 32"
  have lt: "int off < 2 ^ 32" using assms(1,2) by (simp add: os_shape_def)
  have ev: "eval \<sigma> ?ix = Some (int off)" for \<sigma>
    using lt by (simp add: ConstantExpr_alloc_def)
  have "wf_expr ?ix" "getWidth ?ix = 32" by (simp_all add: ConstantExpr_alloc_def wf_apint_def)
  moreover have "apval c < int (os_size os)" if "?ix = ConstantExpr c" for c
    using that assms(2) lt by (auto simp: ConstantExpr_alloc_def)
  ultimately obtain ul where ul: "UpdateList_extend (os_updates os) ?ix e = Some ul" "ul_root ul = ul_root (os_updates os)"
    "ul_head ul = (?ix, e) # ul_head (os_updates os)" "os_shape (os\<lparr>os_updates := ul\<rparr>)"
    using UpdateList_extend_ok [OF assms(1) _ _ assms(3,4)] by blast
  then show ?thesis
    using ul_value_extend [OF ul(3,2) ev] by (auto simp: extend_updates_def)
qed

text \<open>The cached value of a byte that has not been flushed.\<close>

definition cached_byte :: "ObjectState \<Rightarrow> nat \<Rightarrow> expr option" where
  "cached_byte os i = (if isByteConcrete os i then Some (concrete_byte os i) else knownSymbolic os i)"

lemma concrete_byte_ok:
  "wf_expr (concrete_byte os i)" "getWidth (concrete_byte os i) = 8"
  "eval \<sigma> (concrete_byte os i) = Some (uint (concreteStore os ! i))"
proof -
  have "uint (concreteStore os ! i) < 2 ^ 8" using uint_lt2p [of "concreteStore os ! i"] by simp
  then show "wf_expr (concrete_byte os i)" "getWidth (concrete_byte os i) = 8"
    "eval \<sigma> (concrete_byte os i) = Some (uint (concreteStore os ! i))"
    by (simp_all add: concrete_byte_def ConstantExpr_alloc_def wf_apint_def)
qed

lemma cached_byte_ok:
  assumes "byte_inv os i" "cached_byte os i = Some e"
  shows "wf_expr e" "getWidth e = 8" "content \<sigma> os i = eval \<sigma> e"
  using assms concrete_byte_ok [where os = os and i = i]
  by (auto simp: cached_byte_def byte_inv_def content_def split: if_splits)

lemma unflushed_cached:
  "byte_inv os i \<Longrightarrow> \<not> isByteFlushed os i \<Longrightarrow> \<exists>e. cached_byte os i = Some e"
  by (auto simp: cached_byte_def byte_inv_def isByteKnownSymbolic_def)

text \<open>What a flush of the byte \<open>off\<close> guarantees; \<open>keep\<close> tells whether the cached value stays.\<close>

definition flushed_byte :: "bool \<Rightarrow> nat \<Rightarrow> ObjectState \<Rightarrow> ObjectState \<Rightarrow> bool" where
  "flushed_byte keep off os os' \<longleftrightarrow>
     wf_os os' \<and> os_size os' = os_size os \<and> flushMask os' \<noteq> None \<and> isByteFlushed os' off \<and>
     (\<not> keep \<longrightarrow> cached_byte os' off = None) \<and>
     (\<forall>j < os_size os. (isByteFlushed os j \<longrightarrow> isByteFlushed os' j) \<and> (cached_byte os j = None \<longrightarrow> cached_byte os' j = None)) \<and>
     (\<forall>\<sigma>. \<forall>j < os_size os. content \<sigma> os' j = content \<sigma> os j)"

lemma flushByteForRead_ok:
  assumes "wf_os os" "off < os_size os" "flushMask os \<noteq> None"
  shows "\<exists>os'. flushByteForRead off os = Some os' \<and> flushed_byte True off os os'"
proof (cases "isByteFlushed os off")
  case True
  then show ?thesis using assms by (simp add: flushByteForRead_def flushed_byte_def)
next
  case False
  note wf = wf_osD [OF assms(1)]
  obtain e where e: "cached_byte os off = Some e" using unflushed_cached wf(2) assms(2) False by blast
  note ce = cached_byte_ok [OF wf(2) [OF assms(2)] e]
  obtain ul where ul: "extend_updates off e os = Some (os\<lparr>os_updates := ul\<rparr>)" "os_shape (os\<lparr>os_updates := ul\<rparr>)"
    "\<And>\<sigma> j. ul_value \<sigma> (os\<lparr>os_updates := ul\<rparr>) j = (if j = off then eval \<sigma> e else ul_value \<sigma> os j)"
    using extend_updates_ok [OF wf(1) assms(2) ce(1,2)] by blast
  define os1 where "os1 = os\<lparr>os_updates := ul\<rparr>"
  define os' where "os' = unsetFlushMask off os1"
  have run: "flushByteForRead off os = Some os'"
    using False e ul(1) by (auto simp: flushByteForRead_def os'_def os1_def cached_byte_def split: if_splits)
  have s: "os_size os' = os_size os" "os_shape os'" "concreteStore os' = concreteStore os"
    using ul(2) by (simp_all add: os'_def os1_def)
  have s': "flushMask os' \<noteq> None" using assms(3) by (simp add: os'_def os1_def unsetFlushMask_def)
  have fl: "isByteFlushed os' j \<longleftrightarrow> j = off \<or> isByteFlushed os j" if "j < os_size os" for j
    using isByteConcrete_marks(5) [of os1 off j] ul(2) assms(2,3) that by (simp add: os'_def os1_def)
  have co: "isByteConcrete os' j = isByteConcrete os j" "knownSymbolic os' j = knownSymbolic os j" for j
    by (simp_all add: os'_def os1_def)
  have uv: "ul_value \<sigma> os' j = (if j = off then eval \<sigma> e else ul_value \<sigma> os j)" for \<sigma> j
    using ul(3) by (simp add: os'_def os1_def)
  have c: "content \<sigma> os' j = content \<sigma> os j" if "j < os_size os" for \<sigma> j
  proof (cases "j = off")
    case True
    with e show ?thesis by (auto simp: content_def co s cached_byte_def split: if_splits)
  next
    case False
    then show ?thesis by (simp add: content_def co s uv cong: option.case_cong)
  qed
  have "byte_inv os' j" if "j < os_size os" for j
    using wf(2) [OF that] c [OF that] ce(3) fl [OF that] uv [of _ j]
    by (auto simp: byte_inv_def co isByteKnownSymbolic_def)
  with s have "wf_os os'" by (simp add: wf_os_def)
  with run s s' fl c assms(2) show ?thesis by (simp add: flushed_byte_def cached_byte_def co concrete_byte_def)
qed

text \<open>Dropping the cached value of a flushed byte.\<close>

definition uncache :: "nat \<Rightarrow> ObjectState \<Rightarrow> ObjectState" where
  "uncache off os =
     (if isByteConcrete os off then markByteSymbolic off os
      else if isByteKnownSymbolic os off then setKnownSymbolic off None os else os)"

lemma uncache_fields [simp]:
  "os_size (uncache off os) = os_size os" "concreteStore (uncache off os) = concreteStore os"
  "os_updates (uncache off os) = os_updates os" "flushMask (uncache off os) = flushMask os"
  "isByteFlushed (uncache off os) j = isByteFlushed os j" "ul_value \<sigma> (uncache off os) j = ul_value \<sigma> os j"
  by (simp_all add: uncache_def markByteSymbolic_def setKnownSymbolic_def Let_def split: option.split)
    (simp_all add: isByteFlushed_def ul_value_def ul_array_def)

lemma uncache_ok:
  assumes "wf_os os" "off < os_size os" "isByteFlushed os off" "flushMask os \<noteq> None"
  shows "flushed_byte False off os (uncache off os)"
proof -
  note wf = wf_osD [OF assms(1)]
  let ?os' = "uncache off os"
  have sh: "os_shape ?os'" using wf(1) by (simp add: uncache_def)
  have co: "isByteConcrete ?os' j \<longleftrightarrow> j \<noteq> off \<and> isByteConcrete os j"
    and kn: "knownSymbolic ?os' j = (if j = off then None else knownSymbolic os j)" if "j < os_size os" for j
    using isByteConcrete_marks(2,6) [OF wf(1) assms(2) that] wf(2) [OF assms(2)]
    by (auto simp: uncache_def byte_inv_def isByteKnownSymbolic_def)
  have c: "content \<sigma> ?os' j = content \<sigma> os j" if "j < os_size os" for \<sigma> j
    using that wf(2) [OF assms(2)] assms(3) by (auto simp: content_def co kn byte_inv_def cong: option.case_cong)
  have "byte_inv ?os' j" if "j < os_size os" for j
    using wf(2) [OF that] c [OF that] assms(3) by (auto simp: byte_inv_def co kn that isByteKnownSymbolic_def)
  with sh have "wf_os ?os'" by (simp add: wf_os_def)
  with c assms show ?thesis by (auto simp: flushed_byte_def cached_byte_def co kn)
qed

lemma flushByteForWrite_split:
  assumes "wf_os os" "off < os_size os" "flushMask os \<noteq> None"
  shows "flushByteForWrite off os = map_option (uncache off) (flushByteForRead off os)"
proof (cases "isByteFlushed os off")
  case True
  then show ?thesis by (simp add: flushByteForWrite_def flushByteForRead_def uncache_def)
next
  case False
  note wf = wf_osD [OF assms(1)]
  have swap: "unsetFlushMask off (markByteSymbolic off o1) = markByteSymbolic off (unsetFlushMask off o1)"
    "unsetFlushMask off (setKnownSymbolic off None o1) = setKnownSymbolic off None (unsetFlushMask off o1)" for o1
    by (simp_all add: unsetFlushMask_def markByteSymbolic_def setKnownSymbolic_def Let_def split: option.split)
  show ?thesis
  proof (cases "isByteConcrete os off")
    case True
    then show ?thesis using False
      by (auto simp: flushByteForWrite_def flushByteForRead_def uncache_def swap extend_updates_def
        split: Option.bind_split)
  next
    case nc: False
    obtain e where "knownSymbolic os off = Some e" using wf(2) [OF assms(2)] False nc
      by (auto simp: byte_inv_def isByteKnownSymbolic_def)
    then show ?thesis using False nc
      by (auto simp: flushByteForWrite_def flushByteForRead_def uncache_def swap extend_updates_def isByteKnownSymbolic_def
        split: Option.bind_split)
  qed
qed

lemma flushByteForWrite_ok:
  assumes "wf_os os" "off < os_size os" "flushMask os \<noteq> None"
  shows "\<exists>os'. flushByteForWrite off os = Some os' \<and> flushed_byte False off os os'"
proof -
  obtain os1 where r: "flushByteForRead off os = Some os1" "flushed_byte True off os os1"
    using flushByteForRead_ok [OF assms] by blast
  then have "flushed_byte False off os1 (uncache off os1)"
    using assms(2) by (intro uncache_ok) (auto simp: flushed_byte_def)
  with r have "flushed_byte False off os (uncache off os1)" by (auto simp: flushed_byte_def)
  with r show ?thesis by (simp add: flushByteForWrite_split [OF assms])
qed

text \<open>The loop over all bytes, for either kind of flush.\<close>

lemma flush_loop_ok:
  assumes step: "\<And>os off. wf_os os \<Longrightarrow> off < os_size os \<Longrightarrow> flushMask os \<noteq> None \<Longrightarrow>
      \<exists>os'. flush off os = Some os' \<and> flushed_byte keep off os os'"
    and "wf_os os" "flushMask os \<noteq> None" "n \<le> os_size os"
  shows "\<exists>os'. flush_loop flush 0 n os = Some os' \<and> wf_os os' \<and> os_size os' = os_size os \<and> flushMask os' \<noteq> None \<and>
    (\<forall>j < n. isByteFlushed os' j \<and> (\<not> keep \<longrightarrow> cached_byte os' j = None)) \<and>
    (\<forall>\<sigma>. \<forall>j < os_size os. content \<sigma> os' j = content \<sigma> os j)"
  using assms(4)
proof (induction n)
  case 0
  then show ?case using assms(2,3) by simp
next
  case (Suc n)
  then obtain os1 where 1: "flush_loop flush 0 n os = Some os1" "wf_os os1" "os_size os1 = os_size os" "flushMask os1 \<noteq> None"
    "\<forall>j < n. isByteFlushed os1 j \<and> (\<not> keep \<longrightarrow> cached_byte os1 j = None)"
    "\<forall>\<sigma>. \<forall>j < os_size os. content \<sigma> os1 j = content \<sigma> os j" by auto
  with step [of os1 n] Suc(2) obtain os' where "flush n os1 = Some os'" "flushed_byte keep n os1 os'" by auto
  with 1 Suc(2) show ?case by (auto simp: flushed_byte_def less_Suc_eq)
qed

lemma ensureFlushMask_ok:
  assumes "wf_os os"
  shows "wf_os (ensureFlushMask os)" "flushMask (ensureFlushMask os) \<noteq> None"
    "i < os_size os \<Longrightarrow> content \<sigma> (ensureFlushMask os) i = content \<sigma> os i"
proof -
  note wf = wf_osD [OF assms]
  have same: "content \<sigma> (ensureFlushMask os) i = content \<sigma> os i" "byte_inv (ensureFlushMask os) i = byte_inv os i"
    if "i < os_size os" for \<sigma> i
    by (rule byte_unchanged; use isByteConcrete_marks(4) [OF wf(1) that that] in simp)+
  then show "i < os_size os \<Longrightarrow> content \<sigma> (ensureFlushMask os) i = content \<sigma> os i" by simp
  show "wf_os (ensureFlushMask os)" using wf same by (simp add: wf_os_def)
  show "flushMask (ensureFlushMask os) \<noteq> None" by (cases "flushMask os") (simp_all add: ensureFlushMask_def)
qed

lemma flushRange_ok:
  assumes "wf_os os"
  shows "\<exists>os'. flushRangeForRead 0 (os_size os) os = Some os' \<and> wf_os os' \<and> os_size os' = os_size os \<and>
      (\<forall>\<sigma>. \<forall>j < os_size os. ul_value \<sigma> os' j = content \<sigma> os j \<and> content \<sigma> os' j = content \<sigma> os j)"
    "\<exists>os'. flushRangeForWrite 0 (os_size os) os = Some os' \<and> wf_os os' \<and> os_size os' = os_size os \<and>
      (\<forall>j < os_size os. isByteFlushed os' j \<and> cached_byte os' j = None) \<and>
      (\<forall>\<sigma>. \<forall>j < os_size os. ul_value \<sigma> os' j = content \<sigma> os j)"
proof -
  note en = ensureFlushMask_ok [OF assms]
  have ulc: "ul_value \<sigma> o1 j = content \<sigma> o1 j" if "wf_os o1" "j < os_size o1" "isByteFlushed o1 j" for \<sigma> o1 j
    using that wf_osD(2) [OF that(1,2)] by (simp add: byte_inv_def)
  obtain os1 where "flush_loop flushByteForRead 0 (os_size os) (ensureFlushMask os) = Some os1" "wf_os os1"
    "os_size os1 = os_size os" "\<forall>j < os_size os. isByteFlushed os1 j"
    "\<forall>\<sigma>. \<forall>j < os_size os. content \<sigma> os1 j = content \<sigma> (ensureFlushMask os) j"
    using flush_loop_ok [OF flushByteForRead_ok en(1,2), of "os_size os"] by auto
  with en(3) ulc show "\<exists>os'. flushRangeForRead 0 (os_size os) os = Some os' \<and> wf_os os' \<and> os_size os' = os_size os \<and>
      (\<forall>\<sigma>. \<forall>j < os_size os. ul_value \<sigma> os' j = content \<sigma> os j \<and> content \<sigma> os' j = content \<sigma> os j)"
    by (simp add: flushRangeForRead_def)
  obtain os2 where "flush_loop flushByteForWrite 0 (os_size os) (ensureFlushMask os) = Some os2" "wf_os os2"
    "os_size os2 = os_size os" "\<forall>j < os_size os. isByteFlushed os2 j \<and> cached_byte os2 j = None"
    "\<forall>\<sigma>. \<forall>j < os_size os. content \<sigma> os2 j = content \<sigma> (ensureFlushMask os) j"
    using flush_loop_ok [OF flushByteForWrite_ok en(1,2), of "os_size os"] by auto
  with en(3) ulc show "\<exists>os'. flushRangeForWrite 0 (os_size os) os = Some os' \<and> wf_os os' \<and> os_size os' = os_size os \<and>
      (\<forall>j < os_size os. isByteFlushed os' j \<and> cached_byte os' j = None) \<and>
      (\<forall>\<sigma>. \<forall>j < os_size os. ul_value \<sigma> os' j = content \<sigma> os j)"
    by (simp add: flushRangeForWrite_def)
qed

section \<open>Reads of one byte and writes at a symbolic offset\<close>

text \<open>What a read guarantees: the object keeps its content, and the expression has the value \<open>V\<close>.\<close>

definition reads :: "(env \<Rightarrow> int option) \<Rightarrow> width \<Rightarrow> ObjectState \<Rightarrow> (expr \<times> Arrays \<times> ObjectState) option \<Rightarrow> bool" where
  "reads V w os r \<longleftrightarrow>
     (\<exists>e st' os'. r = Some (e, st', os') \<and> wf_expr e \<and> getWidth e = w \<and>
        (\<forall>\<sigma> v. V \<sigma> = Some v \<longrightarrow> eval \<sigma> e = Some v) \<and>
        wf_os os' \<and> os_size os' = os_size os \<and>
        (\<forall>\<sigma>. \<forall>i < os_size os. content \<sigma> os' i = content \<sigma> os i))"

lemma read8_ok:
  assumes "wf_os os" "off < os_size os"
  shows "reads (\<lambda>\<sigma>. content \<sigma> os off) 8 os (read8 off st os)"
proof -
  note wf = wf_osD [OF assms(1)]
  show ?thesis
  proof (cases "cached_byte os off")
    case (Some e)
    then have "read8 off st os = Some (e, st, os)"
      using assms(2) by (auto simp: read8_def cached_byte_def split: if_splits)
    then show ?thesis
      using cached_byte_ok [OF wf(2) [OF assms(2)] Some] assms(1) by (simp add: reads_def)
  next
    case None
    then have nc: "\<not> isByteConcrete os off" "knownSymbolic os off = None"
      by (auto simp: cached_byte_def split: if_splits)
    with wf(2) [OF assms(2)] have fl: "isByteFlushed os off" by (auto simp: byte_inv_def isByteKnownSymbolic_def)
    obtain a us st' os' where g: "getUpdates st os = Some ((a, us), st', os')" "wf_byte_array a" "wf_updates a us"
      "wf_os os'" "os_size os' = os_size os"
      and v: "\<And>\<sigma> i. i < os_size os \<Longrightarrow> eval_read \<sigma> a us (int i) = ul_value \<sigma> os i \<and> content \<sigma> os' i = content \<sigma> os i"
      using getUpdates_ok [OF assms(1), of st] assms(2) by fastforce
    let ?ix = "ConstantExpr_alloc (int off) 32"
    have ix: "wf_expr ?ix" "getWidth ?ix = 32" "eval \<sigma> ?ix = Some (int off)" for \<sigma>
      using assms(2) wf(3) by (simp_all add: ConstantExpr_alloc_def wf_apint_def)
    have "wf_expr (ReadExpr a us ?ix)" using g(2,3) ix by (simp add: wf_byte_array_def)
    from ReadExpr_create_sound [OF this] obtain e where
      e: "ReadExpr_create a us ?ix = Some e" "wf_expr e" "getWidth e = arr_range a" "refines (ReadExpr a us ?ix) e"
      by (auto elim: createsE)
    have "content \<sigma> os off = eval \<sigma> (ReadExpr a us ?ix)" for \<sigma>
      using v [OF assms(2), of \<sigma>] nc unfolding eval.simps(3) ix(3) by (simp add: content_def)
    with e g v fl nc assms(2) show ?thesis
      by (auto simp: reads_def read8_def wf_byte_array_def refines_def)
  qed
qed

lemma ZExt32_same: "getWidth e = 32 \<Longrightarrow> ZExtExpr_create e 32 = Some e"
  by (simp add: ZExtExpr_create_def ZExtExpr_create_with_def)

text \<open>A read at a symbolic offset: the value of the byte the offset evaluates to.\<close>

lemma read8_expr_ok:
  assumes "wf_os os" "0 < os_size os" "wf_expr off" "getWidth off = 32" "as_const off = None"
  shows "reads (\<lambda>\<sigma>. do { n \<leftarrow> eval \<sigma> off; if n < int (os_size os) then content \<sigma> os (nat n) else None }) 8 os
    (read8_expr off st os)"
proof -
  obtain os1 where f: "flushRangeForRead 0 (os_size os) os = Some os1" "wf_os os1" "os_size os1 = os_size os"
    and c: "\<And>\<sigma> j. j < os_size os \<Longrightarrow> ul_value \<sigma> os1 j = content \<sigma> os j \<and> content \<sigma> os1 j = content \<sigma> os j"
    using flushRange_ok(1) [OF assms(1)] by blast
  obtain a us st' os' where g: "getUpdates st os1 = Some ((a, us), st', os')" "wf_byte_array a" "wf_updates a us"
    "wf_os os'" "os_size os' = os_size os"
    and v: "\<And>\<sigma> i. i < os_size os \<Longrightarrow> eval_read \<sigma> a us (int i) = ul_value \<sigma> os1 i \<and> content \<sigma> os' i = content \<sigma> os1 i"
    using getUpdates_ok [OF f(2), of st] assms(2) f(3) by fastforce
  have "wf_expr (ReadExpr a us off)" using g(2,3) assms(3,4) by (simp add: wf_byte_array_def)
  from ReadExpr_create_sound [OF this] obtain e where
    e: "ReadExpr_create a us off = Some e" "wf_expr e" "getWidth e = arr_range a" "refines (ReadExpr a us off) e"
    by (auto elim: createsE)
  have run: "read8_expr off st os = Some (e, st', os')"
    using assms(5) f(1) g(1) e(1) ZExt32_same [OF assms(4)] by (simp add: read8_expr_def fastRangeCheckOffset_def)
  have "eval \<sigma> e = Some x" if "eval \<sigma> off = Some n" "n < int (os_size os)" "content \<sigma> os (nat n) = Some x" for \<sigma> n x
  proof -
    have "0 \<le> n" using eval_range(1) [OF assms(3) that(1)] .
    with v [of "nat n" \<sigma>] c [of "nat n" \<sigma>] that have "eval \<sigma> (ReadExpr a us off) = Some x" by simp
    then show ?thesis by (rule refinesD [OF e(4)])
  qed
  with run e g v c show ?thesis
    unfolding reads_def run by (auto simp: wf_byte_array_def split: if_splits)
qed

text \<open>A write at a symbolic offset replaces the byte the offset evaluates to.\<close>

definition written_content :: "env \<Rightarrow> int option \<Rightarrow> int option \<Rightarrow> (nat \<Rightarrow> int option) \<Rightarrow> nat \<Rightarrow> int option" where
  "written_content \<sigma> n v c i = (case n of None \<Rightarrow> None | Some m \<Rightarrow> if m = int i then v else c i)"

lemma increaseUntaggedWriteCnt_ok:
  assumes "wf_os os"
  shows "wf_os (increaseUntaggedWriteCnt f k os)" "content \<sigma> (increaseUntaggedWriteCnt f k os) i = content \<sigma> os i"
proof -
  note wf = wf_osD [OF assms]
  have same: "content \<sigma> (increaseUntaggedWriteCnt f k os) i = content \<sigma> os i"
    "byte_inv (increaseUntaggedWriteCnt f k os) i = byte_inv os i" for \<sigma> i
    by (rule byte_unchanged; simp)+
  show "content \<sigma> (increaseUntaggedWriteCnt f k os) i = content \<sigma> os i" by (rule same)
  show "wf_os (increaseUntaggedWriteCnt f k os)" using wf same by (simp add: wf_os_def)
qed

lemma write8_expr_ok:
  assumes "wf_os os" "wf_expr off" "getWidth off = 32" "as_const off = None" "wf_expr e" "getWidth e = 8"
  shows "\<exists>os'. write8_expr off e f k os = Some os' \<and> wf_os os' \<and> os_size os' = os_size os \<and>
    (\<forall>\<sigma>. \<forall>i < os_size os. content \<sigma> os' i = written_content \<sigma> (eval \<sigma> off) (eval \<sigma> e) (content \<sigma> os) i)"
proof -
  define os0 where "os0 = increaseUntaggedWriteCnt f k os"
  have os0: "wf_os os0" "os_size os0 = os_size os" "content \<sigma> os0 i = content \<sigma> os i" for \<sigma> i
    using increaseUntaggedWriteCnt_ok [OF assms(1)] by (simp_all add: os0_def)
  obtain os1 where f1: "flushRangeForWrite 0 (os_size os) os0 = Some os1" "wf_os os1" "os_size os1 = os_size os"
    and un: "\<And>j. j < os_size os \<Longrightarrow> isByteFlushed os1 j \<and> cached_byte os1 j = None"
    and c: "\<And>\<sigma> j. j < os_size os \<Longrightarrow> ul_value \<sigma> os1 j = content \<sigma> os j"
    using flushRange_ok(2) [OF os0(1)] os0(2,3) by auto
  note wf1 = wf_osD [OF f1(2)]
  obtain ul where ul: "UpdateList_extend (os_updates os1) off e = Some ul" "ul_root ul = ul_root (os_updates os1)"
    "ul_head ul = (off, e) # ul_head (os_updates os1)" "os_shape (os1\<lparr>os_updates := ul\<rparr>)"
    using UpdateList_extend_ok [OF wf1(1) assms(2,3,5,6)] assms(4) by fastforce
  let ?os' = "os1\<lparr>os_updates := ul\<rparr>"
  have run: "write8_expr off e f k os = Some ?os'"
    using assms(4) f1(1) ul(1) ZExt32_same [OF assms(3)]
    by (simp add: write8_expr_def fastRangeCheckOffset_def os0_def [symmetric])
  have uv: "ul_value \<sigma> ?os' i = written_content \<sigma> (eval \<sigma> off) (eval \<sigma> e) (ul_value \<sigma> os1) i" for \<sigma> i
    using ul_value_extend [OF ul(3,2), of \<sigma>] ul(2,3)
    by (cases "eval \<sigma> off") (simp_all add: written_content_def ul_value_def)
  have nc: "\<not> isByteConcrete ?os' i" "knownSymbolic ?os' i = None" "isByteFlushed ?os' i" if "i < os_size os" for i
    using un [OF that] by (auto simp: cached_byte_def split: if_splits)
  have cv: "content \<sigma> ?os' i = ul_value \<sigma> ?os' i" if "i < os_size os" for \<sigma> i
    using nc [OF that] by (simp add: content_def)
  have "byte_inv ?os' i" if "i < os_size os" for i
    using nc [OF that] cv [OF that] by (simp add: byte_inv_def isByteKnownSymbolic_def)
  with ul(4) f1(3) have "wf_os ?os'" by (simp add: wf_os_def)
  moreover have "content \<sigma> ?os' i = written_content \<sigma> (eval \<sigma> off) (eval \<sigma> e) (content \<sigma> os) i" if "i < os_size os" for \<sigma> i
    unfolding cv [OF that] uv using c [OF that, of \<sigma>] by (simp add: written_content_def split: option.split)
  ultimately show ?thesis using run f1(3) by auto
qed

end
