(* ===== verification/ER_MemoryValues.thy ===== *)
theory ER_MemoryValues
  imports ER_Memory
begin

unbundle bit_operations_syntax

text \<open>
  Reads and writes of whole values on an object state: the byte loops of
  \<^verbatim>\<open>ObjectState::read\<close> and \<^verbatim>\<open>ObjectState::write\<close> in both byte orders, at constant
  and symbolic offsets, refine reading and updating the abstract content; what
  was written is read back.  Then the constructors and initialisers, the bounds
  checks of \<^verbatim>\<open>MemoryObject\<close>, and the transfer of constants to the host's memory.
\<close>

section \<open>Values of several bytes\<close>

fun bytes_val :: "(nat \<Rightarrow> int option) \<Rightarrow> nat \<Rightarrow> int option" where
  "bytes_val f 0 = Some 0"
| "bytes_val f (Suc n) = do { b \<leftarrow> f n; r \<leftarrow> bytes_val f n; Some (b * 2 ^ (8 * n) + r) }"

definition byte_pos :: "bool \<Rightarrow> nat \<Rightarrow> nat \<Rightarrow> nat" where
  "byte_pos le N i = (if le then i else N - i - 1)"

lemma byte_pos_less [simp]: "i < N \<Longrightarrow> byte_pos le N i < N"
  by (simp add: byte_pos_def)

lemma byte_pos_inverse [simp]: "i < N \<Longrightarrow> byte_pos le N (byte_pos le N i) = i"
  by (simp add: byte_pos_def)

lemma bytes_val_cong: "(\<And>i. i < N \<Longrightarrow> f i = g i) \<Longrightarrow> bytes_val f N = bytes_val g N"
  by (induction N) auto

lemma bytes_val_split:
  assumes "0 \<le> v" "v < 2 ^ (8 * N)"
  shows "bytes_val (\<lambda>i. Some (v div 2 ^ (8 * i) mod 2 ^ 8)) N = Some v"
proof -
  have "bytes_val (\<lambda>i. Some (v div 2 ^ (8 * i) mod 2 ^ 8)) n = Some (v mod 2 ^ (8 * n))" for n
  proof (induction n)
    case (Suc n)
    have "v mod 2 ^ (8 * Suc n) = v mod (2 ^ (8 * n) * 2 ^ 8)" by (simp add: power_add mult.commute)
    also have "\<dots> = 2 ^ (8 * n) * (v div 2 ^ (8 * n) mod 2 ^ 8) + v mod 2 ^ (8 * n)" by (rule zmod_zmult2_eq) simp
    finally show ?case using Suc by (simp add: mult.commute)
  qed simp
  from this [of N] assms show ?thesis by simp
qed

text \<open>An object with a given size, and a given content under the assignments \<open>Q\<close>.\<close>

definition holds_on :: "(env \<Rightarrow> bool) \<Rightarrow> nat \<Rightarrow> (env \<Rightarrow> nat \<Rightarrow> int option) \<Rightarrow> ObjectState \<Rightarrow> bool" where
  "holds_on Q S C os \<longleftrightarrow> wf_os os \<and> os_size os = S \<and> (\<forall>\<sigma>. Q \<sigma> \<longrightarrow> (\<forall>i < S. content \<sigma> os i = C \<sigma> i))"

abbreviation holds :: "nat \<Rightarrow> (env \<Rightarrow> nat \<Rightarrow> int option) \<Rightarrow> ObjectState \<Rightarrow> bool" where
  "holds \<equiv> holds_on (\<lambda>_. True)"

lemma holds_self: "wf_os os \<Longrightarrow> holds (os_size os) (\<lambda>\<sigma>. content \<sigma> os) os"
  by (simp add: holds_on_def)

lemma reads_holds:
  assumes "reads V w os r" "holds S C os"
  obtains e st' os' where "r = Some (e, st', os')" "wf_expr e" "getWidth e = w"
    "\<And>\<sigma> v. V \<sigma> = Some v \<Longrightarrow> eval \<sigma> e = Some v" "holds S C os'"
  using assms by (auto simp: reads_def holds_on_def)

lemma readsI:
  assumes "r = Some (e, st', os')" "wf_expr e" "getWidth e = w" "\<And>\<sigma> v. V \<sigma> = Some v \<Longrightarrow> eval \<sigma> e = Some v"
    "holds (os_size os) (\<lambda>\<sigma>. content \<sigma> os) os'"
  shows "reads V w os r"
  using assms by (auto simp: reads_def holds_on_def)

lemma read_bytes_ok:
  assumes rd: "\<And>idx st os. idx < N \<Longrightarrow> holds S C os \<Longrightarrow> reads (V idx) 8 os (rd idx st os)"
    and "i \<le> N" "0 < N" "holds S C os"
    and "case Res of None \<Rightarrow> i = 0
      | Some r \<Rightarrow> 0 < i \<and> wf_expr r \<and> getWidth r = 8 * i \<and>
          (\<forall>\<sigma> v. bytes_val (\<lambda>j. V (byte_pos le N j) \<sigma>) i = Some v \<longrightarrow> eval \<sigma> r = Some v)"
  shows "\<exists>e st' os'. read_bytes le rd N i Res st os = Some (Some e, st', os') \<and> wf_expr e \<and> getWidth e = 8 * N \<and>
    (\<forall>\<sigma> v. bytes_val (\<lambda>j. V (byte_pos le N j) \<sigma>) N = Some v \<longrightarrow> eval \<sigma> e = Some v) \<and> holds S C os'"
  using assms(2,4,5)
proof (induction "N - i" arbitrary: i Res st os)
  case 0
  then have "i = N" by simp
  with 0(3,4) assms(3) show ?case by (cases Res) (auto simp: read_bytes.simps)
next
  case (Suc d)
  then have i: "i < N" by simp
  obtain b st' os' where
    b: "rd (byte_pos le N i) st os = Some (b, st', os')" "wf_expr b" "getWidth b = 8"
      "\<And>\<sigma> v. V (byte_pos le N i) \<sigma> = Some v \<Longrightarrow> eval \<sigma> b = Some v" "holds S C os'"
    by (rule reads_holds [OF rd [OF byte_pos_less [OF i] Suc(4)] Suc(4)]) blast
  obtain r' where r': "(case Res of Some r \<Rightarrow> ConcatExpr_create b r | None \<Rightarrow> Some b) = Some r'"
    "wf_expr r'" "getWidth r' = 8 * Suc i"
    "\<forall>\<sigma> v. bytes_val (\<lambda>j. V (byte_pos le N j) \<sigma>) (Suc i) = Some v \<longrightarrow> eval \<sigma> r' = Some v"
  proof (cases Res)
    case None
    with Suc(5) b show thesis by (intro that [of b]) auto
  next
    case (Some r)
    with Suc(5) have r: "wf_expr r" "getWidth r = 8 * i"
      "\<forall>\<sigma> v. bytes_val (\<lambda>j. V (byte_pos le N j) \<sigma>) i = Some v \<longrightarrow> eval \<sigma> r = Some v" by auto
    from ConcatExpr_create_sound [of b r] b(2) r(1) obtain r' where
      "ConcatExpr_create b r = Some r'" "wf_expr r'" "getWidth r' = getWidth (ConcatExpr b r)" "refines (ConcatExpr b r) r'"
      by (auto elim: createsE)
    with Some b r show thesis by (intro that [of r']) (auto simp: refines_def)
  qed
  have "read_bytes le rd N i Res st os = read_bytes le rd N (Suc i) (Some r') st' os'"
    using i b(1) r'(1) by (subst read_bytes.simps) (simp add: byte_pos_def split: option.splits)
  moreover from Suc(1) [of "Suc i" os' "Some r'" st'] Suc(2) i r' b(5)
  have "\<exists>e st'' os''. read_bytes le rd N (Suc i) (Some r') st' os' = Some (Some e, st'', os'') \<and> wf_expr e \<and> getWidth e = 8 * N \<and>
    (\<forall>\<sigma> v. bytes_val (\<lambda>j. V (byte_pos le N j) \<sigma>) N = Some v \<longrightarrow> eval \<sigma> e = Some v) \<and> holds S C os''" by auto
  ultimately show ?case by simp
qed

lemma read_slow_ok:
  assumes "\<And>idx st o1. idx < N \<Longrightarrow> holds (os_size os) (\<lambda>\<sigma>. content \<sigma> os) o1 \<Longrightarrow> reads (V idx) 8 o1 (rd idx st o1)"
    and "wf_os os" "0 < N"
  shows "reads (\<lambda>\<sigma>. bytes_val (\<lambda>j. V (byte_pos (isLittleEndian ctx) N j) \<sigma>) N) (8 * N) os (read_slow ctx rd (8 * N) st os)"
proof -
  from read_bytes_ok [where rd = rd and V = V, OF assms(1) _ assms(3) holds_self [OF assms(2)],
      where i = 0 and Res = None and le = "isLittleEndian ctx" and st = st]
  obtain e st' os' where "read_bytes (isLittleEndian ctx) rd N 0 None st os = Some (Some e, st', os')" "wf_expr e"
    "getWidth e = 8 * N"
    "\<And>\<sigma> v. bytes_val (\<lambda>j. V (byte_pos (isLittleEndian ctx) N j) \<sigma>) N = Some v \<Longrightarrow> eval \<sigma> e = Some v"
    "holds (os_size os) (\<lambda>\<sigma>. content \<sigma> os) os'" by auto
  then show ?thesis by (intro readsI) (auto simp: read_slow_def)
qed

text \<open>The value a read of width \<open>w\<close> at \<open>off\<close> stands for.\<close>

definition object_value :: "Context \<Rightarrow> env \<Rightarrow> ObjectState \<Rightarrow> nat \<Rightarrow> width \<Rightarrow> int option" where
  "object_value ctx \<sigma> os off w =
     (if w = 1 then map_option (\<lambda>v. v mod 2) (content \<sigma> os off)
      else bytes_val (\<lambda>i. content \<sigma> os (off + byte_pos (isLittleEndian ctx) (w div 8) i)) (w div 8))"

definition access_width :: "width \<Rightarrow> bool" where
  "access_width w \<longleftrightarrow> w = 1 \<or> (0 < w \<and> w mod 8 = 0)"

definition access_bytes :: "width \<Rightarrow> nat" where
  "access_bytes w = (if w = 1 then 1 else w div 8)"

lemma reads_Extract_bool:
  assumes "reads V 8 os r"
  shows "reads (\<lambda>\<sigma>. map_option (\<lambda>v. v mod 2) (V \<sigma>)) 1 os
    (do { (b, st', os') \<leftarrow> r; e \<leftarrow> ExtractExpr_create b 0 1; Some (e, st', os') })"
proof -
  from assms obtain b st' os' where b: "r = Some (b, st', os')" "wf_expr b" "getWidth b = 8"
    "\<forall>\<sigma> v. V \<sigma> = Some v \<longrightarrow> eval \<sigma> b = Some v"
    "wf_os os' \<and> os_size os' = os_size os \<and> (\<forall>\<sigma>. \<forall>i < os_size os. content \<sigma> os' i = content \<sigma> os i)"
    unfolding reads_def by auto
  from ExtractExpr_create_sound [of b 0 1] b(2,3) obtain e where
    e: "ExtractExpr_create b 0 1 = Some e" "wf_expr e" "getWidth e = 1" "refines (ExtractExpr b 0 1) e"
    by (auto elim: createsE)
  have "eval \<sigma> e = Some (v mod 2)" if "V \<sigma> = Some v" for \<sigma> v
    using refinesD [OF e(4), of \<sigma> "v mod 2"] b(4) that by simp
  with b e show ?thesis unfolding reads_def by auto
qed

lemma read_at_ok:
  assumes "wf_os os" "access_width w" "off + access_bytes w \<le> os_size os"
  shows "reads (\<lambda>\<sigma>. object_value ctx \<sigma> os off w) w os (read_at ctx off w st os)"
proof (cases "w = 1")
  case True
  then show ?thesis
    using reads_Extract_bool [OF read8_ok [OF assms(1), of off st]] assms(3)
    by (simp add: read_at_def object_value_def access_bytes_def)
next
  case False
  define N where "N = w div 8"
  have N: "w = 8 * N" "0 < N" "off + N \<le> os_size os"
    using assms(2,3) False by (auto simp: N_def access_width_def access_bytes_def)
  have "reads (\<lambda>\<sigma>. content \<sigma> os (off + idx)) 8 o1 (read8 ((off + idx) mod 2 ^ 32) st o1)"
    if "idx < N" "holds (os_size os) (\<lambda>\<sigma>. content \<sigma> os) o1" for idx st o1
  proof -
    have "off + idx < os_size o1" "wf_os o1" "(off + idx) mod 2 ^ 32 = off + idx"
      using that N(3) wf_osD(3) [OF assms(1)] by (auto simp: holds_on_def)
    with read8_ok [of o1 "off + idx" st] that(2) show ?thesis by (auto simp: reads_def holds_on_def)
  qed
  from read_slow_ok [where rd = "\<lambda>idx. read8 ((off + idx) mod 2 ^ 32)" and V = "\<lambda>idx \<sigma>. content \<sigma> os (off + idx)",
      OF this assms(1) N(2)] False show ?thesis
    by (simp add: read_at_def object_value_def N(1))
qed

section \<open>Writes of several bytes\<close>

text \<open>The content after byte \<open>i\<close> of a value, for all \<open>i < N\<close>, is stored at \<open>off\<close>.\<close>

definition stored :: "bool \<Rightarrow> (env \<Rightarrow> nat) \<Rightarrow> nat \<Rightarrow> (env \<Rightarrow> nat \<Rightarrow> int option) \<Rightarrow> (env \<Rightarrow> nat \<Rightarrow> int option) \<Rightarrow> env \<Rightarrow> nat \<Rightarrow> int option" where
  "stored le off N B C \<sigma> p = (if off \<sigma> \<le> p \<and> p < off \<sigma> + N then B \<sigma> (byte_pos le N (p - off \<sigma>)) else C \<sigma> p)"

lemma write_bytes_ok:
  assumes wr: "\<And>i C o1. i < N \<Longrightarrow> holds_on Q S C o1 \<Longrightarrow>
      \<exists>o2. wr i (byte_pos le N i) o1 = Some o2 \<and>
        holds_on Q S (\<lambda>\<sigma> p. if p = off \<sigma> + byte_pos le N i then B \<sigma> i else C \<sigma> p) o2"
    and "i \<le> N" "holds_on Q S C os"
  shows "\<exists>os'. write_bytes le wr N i os = Some os' \<and>
    holds_on Q S (\<lambda>\<sigma> p. if off \<sigma> \<le> p \<and> p < off \<sigma> + N \<and> i \<le> byte_pos le N (p - off \<sigma>) then B \<sigma> (byte_pos le N (p - off \<sigma>)) else C \<sigma> p) os'"
  using assms(2,3)
proof (induction "N - i" arbitrary: i C os)
  case 0
  have "\<not> N \<le> byte_pos le N (p - off \<sigma>)" if "off \<sigma> \<le> p" "p < off \<sigma> + N" for \<sigma> p
    using byte_pos_less [of "p - off \<sigma>" N le] that by linarith
  then have "(\<lambda>\<sigma> p. if off \<sigma> \<le> p \<and> p < off \<sigma> + N \<and> N \<le> byte_pos le N (p - off \<sigma>) then B \<sigma> (byte_pos le N (p - off \<sigma>)) else C \<sigma> p) = C"
    by (intro ext) auto
  with 0 show ?case by (simp add: write_bytes.simps)
next
  case (Suc d)
  then have i: "i < N" by simp
  let ?C = "\<lambda>\<sigma> p. if p = off \<sigma> + byte_pos le N i then B \<sigma> i else C \<sigma> p"
  from wr [OF i Suc(4)] obtain o2 where o2: "wr i (byte_pos le N i) os = Some o2" "holds_on Q S ?C o2" by blast
  have "d = N - Suc i" using Suc(2) by linarith
  from Suc(1) [OF this, of ?C o2] i o2(2) obtain os' where os': "write_bytes le wr N (Suc i) o2 = Some os'"
    "holds_on Q S (\<lambda>\<sigma> p. if off \<sigma> \<le> p \<and> p < off \<sigma> + N \<and> Suc i \<le> byte_pos le N (p - off \<sigma>) then B \<sigma> (byte_pos le N (p - off \<sigma>)) else ?C \<sigma> p) os'"
    by auto
  have "write_bytes le wr N i os = Some os'"
    using i o2(1) os'(1) by (subst write_bytes.simps) (simp add: byte_pos_def)
  moreover have "(if off \<sigma> \<le> p \<and> p < off \<sigma> + N \<and> Suc i \<le> byte_pos le N (p - off \<sigma>) then B \<sigma> (byte_pos le N (p - off \<sigma>)) else ?C \<sigma> p) =
      (if off \<sigma> \<le> p \<and> p < off \<sigma> + N \<and> i \<le> byte_pos le N (p - off \<sigma>) then B \<sigma> (byte_pos le N (p - off \<sigma>)) else C \<sigma> p)" for \<sigma> p
  proof (cases "off \<sigma> \<le> p \<and> p < off \<sigma> + N \<and> byte_pos le N (p - off \<sigma>) = i")
    case True
    then have "p = off \<sigma> + byte_pos le N i" using byte_pos_inverse [of "p - off \<sigma>" N le] by auto
    with True show ?thesis by simp
  next
    case False
    have "p \<noteq> off \<sigma> + byte_pos le N i" using False i by auto
    with False show ?thesis by auto
  qed
  ultimately show ?case using os'(2) by simp
qed

lemma write_bytes_stored:
  assumes "\<And>i C o1. i < N \<Longrightarrow> holds_on Q S C o1 \<Longrightarrow>
      \<exists>o2. wr i (byte_pos le N i) o1 = Some o2 \<and>
        holds_on Q S (\<lambda>\<sigma> p. if p = off \<sigma> + byte_pos le N i then B \<sigma> i else C \<sigma> p) o2"
    and "holds_on Q S C os"
  shows "\<exists>os'. write_bytes le wr N 0 os = Some os' \<and> holds_on Q S (stored le off N B C) os'"
proof -
  have "stored le off N B C = (\<lambda>\<sigma> p. if off \<sigma> \<le> p \<and> p < off \<sigma> + N \<and> 0 \<le> byte_pos le N (p - off \<sigma>)
      then B \<sigma> (byte_pos le N (p - off \<sigma>)) else C \<sigma> p)"
    by (intro ext) (simp add: stored_def)
  with write_bytes_ok [where wr = wr and B = B and S = S and off = off and Q = Q and le = le, OF assms(1) _ assms(2), where i = 0]
  show ?thesis by simp
qed

lemma write8_holds:
  assumes "holds S C os" "off < S"
  shows "\<exists>os'. write8 off v f k os = Some os' \<and> holds S (\<lambda>\<sigma> p. if p = off then Some (uint v) else C \<sigma> p) os'"
  using write8_ok [of os off v f k] assms by (auto simp: holds_on_def)

lemma write8_value_holds:
  assumes "holds S C os" "off < S" "wf_expr e" "getWidth e = 8"
  shows "\<exists>os'. write8_value off e f k os = Some os' \<and> holds S (\<lambda>\<sigma> p. if p = off then eval \<sigma> e else C \<sigma> p) os'"
  using write8_value_ok [of os off e f k] assms by (auto simp: holds_on_def)

lemma offset32:
  assumes "holds S C os" "off + N \<le> S" "i < N"
  shows "(off + byte_pos le N i) mod 2 ^ 32 = off + byte_pos le N i" "off + byte_pos le N i < S"
  using byte_pos_less [OF assms(3), of le] assms(1,2) wf_osD(3) [of os] by (auto simp: holds_on_def)

definition value_byte :: "expr \<Rightarrow> env \<Rightarrow> nat \<Rightarrow> int option" where
  "value_byte e \<sigma> i = map_option (\<lambda>v. v div 2 ^ (8 * i) mod 2 ^ 8) (eval \<sigma> e)"

text \<open>The loops over constant bytes, for a word of any size.\<close>

lemma write_word_ok:
  fixes x :: "'a::len word"
  assumes "holds S C os" "off + N \<le> S" "8 * N \<le> LENGTH('a)"
  shows "\<exists>os'. write_bytes le (\<lambda>i idx. write8 ((off + idx) mod 2 ^ 32) (ucast (drop_bit (8 * i) x)) f k) N 0 os = Some os' \<and>
    holds S (stored le (\<lambda>_. off) N (\<lambda>\<sigma> i. Some (uint x div 2 ^ (8 * i) mod 2 ^ 8)) C) os'"
proof (rule write_bytes_stored [where off = "\<lambda>_. off", OF _ assms(1)])
  fix i C' o1 assume i: "i < N" "holds S C' o1"
  have "uint (ucast (drop_bit (8 * i) x) :: 8 word) = uint x div 2 ^ (8 * i) mod 2 ^ 8"
    by (simp add: unsigned_ucast_eq unsigned_drop_bit_eq) (simp add: drop_bit_eq_div take_bit_eq_mod)
  with write8_holds [OF i(2) offset32(2) [OF i(2) assms(2) i(1), of le], of "ucast (drop_bit (8 * i) x)" f k]
    offset32(1) [OF i(2) assms(2) i(1), of le]
  show "\<exists>o2. write8 ((off + byte_pos le N i) mod 2 ^ 32) (ucast (drop_bit (8 * i) x)) f k o1 = Some o2 \<and>
      holds S (\<lambda>\<sigma> p. if p = off + byte_pos le N i then Some (uint x div 2 ^ (8 * i) mod 2 ^ 8) else C' \<sigma> p) o2"
    by (simp cong: if_cong)
qed

definition bytes_of :: "expr \<Rightarrow> nat \<Rightarrow> (env \<Rightarrow> nat \<Rightarrow> int option) \<Rightarrow> bool" where
  "bytes_of e N B \<longleftrightarrow> (\<forall>\<sigma> i v. i < N \<longrightarrow> value_byte e \<sigma> i = Some v \<longrightarrow> B \<sigma> i = Some v)"

lemma Extract_byte:
  assumes "wf_expr e" "getWidth e = 8 * N" "i < N"
  shows "\<exists>b. ExtractExpr_create e (8 * i) 8 = Some b \<and> wf_expr b \<and> getWidth b = 8 \<and>
    (\<forall>\<sigma> v. value_byte e \<sigma> i = Some v \<longrightarrow> eval \<sigma> b = Some v)"
  using ExtractExpr_create_sound [of e "8 * i" 8] assms
  by (auto elim!: createsE simp: value_byte_def refines_def)

lemma write_slow_ok:
  assumes "holds S C os" "wf_expr e" "getWidth e = 8 * N" "0 < N" "off + N \<le> S"
  shows "\<exists>os' B. write_slow ctx off e f k os = Some os' \<and> bytes_of e N B \<and>
    holds S (stored (isLittleEndian ctx) (\<lambda>_. off) N B C) os'"
proof -
  let ?le = "isLittleEndian ctx"
  let ?wr = "\<lambda>i idx os. do { b \<leftarrow> ExtractExpr_create e (8 * i) 8; write8_value ((off + idx) mod 2 ^ 32) b f k os }"
  define B where "B = (\<lambda>\<sigma> i. eval \<sigma> (the (ExtractExpr_create e (8 * i) 8)))"
  have "\<exists>os'. write_bytes ?le ?wr N 0 os = Some os' \<and> holds S (stored ?le (\<lambda>_. off) N B C) os'"
  proof (rule write_bytes_stored [where off = "\<lambda>_. off", OF _ assms(1)])
    fix i C' o1 assume i: "i < N" "holds S C' o1"
    obtain b where b: "ExtractExpr_create e (8 * i) 8 = Some b" "wf_expr b" "getWidth b = 8"
      using Extract_byte [OF assms(2,3) i(1)] by blast
    from write8_value_holds [OF i(2) offset32(2) [OF i(2) assms(5) i(1), of ?le] b(2,3), of f k]
      offset32(1) [OF i(2) assms(5) i(1), of ?le] b(1)
    show "\<exists>o2. ?wr i (byte_pos ?le N i) o1 = Some o2 \<and>
        holds S (\<lambda>\<sigma> p. if p = off + byte_pos ?le N i then B \<sigma> i else C' \<sigma> p) o2"
      by (simp add: B_def cong: if_cong)
  qed
  moreover have "bytes_of e N B"
    unfolding bytes_of_def B_def using Extract_byte [OF assms(2,3)] by fastforce
  ultimately show ?thesis using assms(3,4) by (auto simp: write_slow_def Let_def)
qed

text \<open>A boolean is stored as a byte.\<close>

lemma write_slow_bool:
  assumes "holds S C os" "wf_expr e" "getWidth e = 1" "off < S"
  shows "\<exists>os' B. write_slow ctx off e f k os = Some os' \<and> bytes_of e 1 B \<and> holds S (stored le (\<lambda>_. off) 1 B C) os'"
proof -
  obtain z where z: "ZExtExpr_create e 8 = Some z" "wf_expr z" "getWidth z = 8"
    "\<And>\<sigma> v. eval \<sigma> e = Some v \<Longrightarrow> eval \<sigma> z = Some (v mod 2 ^ 8)"
    using ZExtExpr_create_sound [OF assms(2), of 8] by auto
  from write8_value_holds [OF assms(1,4) z(2,3), of f k] obtain os' where
    "write8_value off z f k os = Some os'" "holds S (\<lambda>\<sigma> p. if p = off then eval \<sigma> z else C \<sigma> p) os'" by blast
  moreover have "(\<lambda>\<sigma> p. if p = off then eval \<sigma> z else C \<sigma> p) = stored le (\<lambda>_. off) 1 (\<lambda>\<sigma> i. eval \<sigma> z) C"
    by (intro ext) (auto simp: stored_def)
  moreover have "bytes_of e 1 (\<lambda>\<sigma> i. eval \<sigma> z)" using z(4) by (auto simp: bytes_of_def value_byte_def)
  ultimately show ?thesis using assms(3) z(1) by (auto simp: write_slow_def)
qed

text \<open>The value of a constant of at most 64 bits in a machine word of its size.\<close>

lemma const_word:
  assumes "wf_apint c" "getBitWidth c = LENGTH('a::len)"  "LENGTH('a) \<le> 64"
  shows "uint (ucast (word_of_int (apval c) :: 64 word) :: 'a word) = apval c"
proof -
  have r: "0 \<le> apval c" "apval c < 2 ^ LENGTH('a)" using assms by (auto simp: wf_apint_def)
  then have "apval c < 2 ^ 64" using pow2_less_le [OF _ assms(3)] by simp
  with r show ?thesis
    by (simp add: unsigned_ucast_eq take_bit_eq_mod uint_word_of_int mod_pow2_small)
qed

lemma write_at_ok:
  assumes "holds S C os" "wf_expr e" "access_width (getWidth e)" "off + access_bytes (getWidth e) \<le> S"
  shows "\<exists>os' B. write_at ctx off e f k os = Some os' \<and> bytes_of e (access_bytes (getWidth e)) B \<and>
    holds S (stored (isLittleEndian ctx) (\<lambda>_. off) (access_bytes (getWidth e)) B C) os'"
proof -
  let ?w = "getWidth e" and ?le = "isLittleEndian ctx"
  define N where "N = access_bytes ?w"
  have slow: "\<exists>os' B. write_slow ctx off e f k os = Some os' \<and> bytes_of e N B \<and> holds S (stored ?le (\<lambda>_. off) N B C) os'"
  proof (cases "?w = 1")
    case True
    then show ?thesis using write_slow_bool [OF assms(1,2) True, of off] assms(4) by (simp add: N_def access_bytes_def)
  next
    case False
    then have "?w = 8 * N" "0 < N" using assms(3) by (auto simp: N_def access_width_def access_bytes_def)
    then show ?thesis using write_slow_ok [OF assms(1,2)] assms(4) by (simp add: N_def)
  qed
  show ?thesis
  proof (cases "as_const e")
    case None
    then show ?thesis using slow by (simp add: write_at_def N_def)
  next
    case (Some c)
    then have c: "e = ConstantExpr c" "wf_apint c" "getBitWidth c = ?w" using assms(2) by auto
    let ?B = "\<lambda>\<sigma> i. Some (apval c div 2 ^ (8 * i) mod 2 ^ 8)"
    have bo: "bytes_of e n ?B" for n
      by (auto simp: bytes_of_def value_byte_def c(1))
    have word: "\<exists>os'. write_bytes ?le (\<lambda>i idx. write8 ((off + idx) mod 2 ^ 32) (ucast (drop_bit (8 * i) x)) f k) n 0 os = Some os' \<and>
        holds S (stored ?le (\<lambda>_. off) n ?B C) os'"
      if "uint x = apval c" "off + n \<le> S" "8 * n \<le> LENGTH('a)" for n and x :: "'a::len word"
      using write_word_ok [OF assms(1) that(2,3), of ?le x f k] unfolding that(1) .
    have byte: "\<exists>os'. write8 off x f k os = Some os' \<and> holds S (stored ?le (\<lambda>_. off) 1 ?B C) os'"
      if "uint x = apval c" "off + 1 \<le> S" for x :: "8 word"
    proof -
      have "apval c mod 2 ^ 8 = apval c" using that(1) uint_lt2p [of x] uint_ge_0 [of x] by (simp add: mod_pos_pos_trivial)
      then have "stored ?le (\<lambda>_. off) 1 ?B C = (\<lambda>\<sigma> p. if p = off then Some (uint x) else C \<sigma> p)"
        using that(1) by (intro ext) (auto simp: stored_def byte_pos_def)
      then show ?thesis using write8_holds [OF assms(1), of off x f k] that(2) by simp
    qed
    have cases: "?w \<in> {1, 8, 16, 32, 64} \<or> \<not> (?w \<le> 64 \<and> bits64_isPowerOfTwo (of_nat ?w))"
    proof (rule ccontr)
      assume "\<not> ?thesis"
      then have w: "?w \<notin> {1, 8, 16, 32, 64}" "?w \<le> 64" "bits64_isPowerOfTwo (of_nat ?w)" by auto
      with assms(3) have "?w = 24 \<or> ?w = 40 \<or> ?w = 48 \<or> ?w = 56" unfolding access_width_def by auto
      with w(3) show False by (auto simp: bits64_isPowerOfTwo_def)
    qed
    have at: "write_at ctx off e f k os =
        (let v = word_of_int (apval c) :: 64 word
         in if ?w \<le> 64 \<and> bits64_isPowerOfTwo (of_nat ?w) then
              (if ?w = 1 \<or> ?w = 8 then write8 off (ucast v) f k os
               else if ?w = 16 then write16 ctx off (ucast v) f k os
               else if ?w = 32 then write32 ctx off (ucast v) f k os
               else if ?w = 64 then write64 ctx off v f k os
               else None)
            else write_slow ctx off e f k os)"
      using c by (simp add: write_at_def Let_def)
    have p2: "bits64_isPowerOfTwo (of_nat ?w)" if "?w \<in> {1, 8, 16, 32, 64}"
      using that by (auto simp: bits64_isPowerOfTwo_def)
    have u1: "uint (ucast (word_of_int (apval c) :: 64 word) :: 8 word) = apval c" if "?w = 1"
      using that c(2,3) by (auto simp: wf_apint_def dest!: bit_value_cases [simplified])
    note cw = const_word [OF c(2)]
    from cases consider (1) "?w = 1" | (8) "?w = 8" | (16) "?w = 16" | (32) "?w = 32" | (64) "?w = 64"
      | (other) "\<not> (?w \<le> 64 \<and> bits64_isPowerOfTwo (of_nat ?w))" by auto
    then show ?thesis
    proof cases
      case 1
      with at p2 byte [OF u1] bo assms(4) show ?thesis by (auto simp: access_bytes_def)
    next
      case 8
      with at p2 byte [OF cw] bo assms(4) c(3) show ?thesis by (auto simp: access_bytes_def)
    next
      case 16
      with at p2 word [of "ucast (word_of_int (apval c) :: 64 word) :: 16 word" 2] cw [where 'a = 16] bo assms(4) c(3)
      show ?thesis by (auto simp: access_bytes_def write16_def)
    next
      case 32
      with at p2 word [of "ucast (word_of_int (apval c) :: 64 word) :: 32 word" 4] cw [where 'a = 32] bo assms(4) c(3)
      show ?thesis by (auto simp: access_bytes_def write32_def)
    next
      case 64
      with at p2 word [of "word_of_int (apval c) :: 64 word" 8] cw [where 'a = 64] bo assms(4) c(3)
      show ?thesis by (auto simp: access_bytes_def write64_def)
    next
      case other
      with at slow show ?thesis by (simp add: N_def)
    qed
  qed
qed

text \<open>What was written is read back.\<close>

lemma bytes_of_val:
  assumes "wf_expr e" "access_width (getWidth e)" "bytes_of e (access_bytes (getWidth e)) B" "eval \<sigma> e = Some v"
  shows "bytes_val (B \<sigma>) (access_bytes (getWidth e)) = Some v"
proof -
  let ?N = "access_bytes (getWidth e)"
  have "v < 2 ^ (8 * ?N)"
    using pow2_less_le [OF eval_range(2) [OF assms(1,4)], of "8 * ?N"] assms(2)
    by (auto simp: access_width_def access_bytes_def)
  with bytes_val_split [of v ?N] eval_range(1) [OF assms(1,4)]
  have "bytes_val (\<lambda>i. Some (v div 2 ^ (8 * i) mod 2 ^ 8)) ?N = Some v" by simp
  moreover have "bytes_val (B \<sigma>) ?N = bytes_val (\<lambda>i. Some (v div 2 ^ (8 * i) mod 2 ^ 8)) ?N"
    using assms(3,4) by (intro bytes_val_cong) (simp add: bytes_of_def value_byte_def)
  ultimately show ?thesis by simp
qed

lemma write_read_value:
  assumes "holds_on Q S (stored (isLittleEndian ctx) off (access_bytes (getWidth e)) B C) os" "Q \<sigma>"
    "wf_expr e" "access_width (getWidth e)" "off \<sigma> + access_bytes (getWidth e) \<le> S"
    "bytes_of e (access_bytes (getWidth e)) B" "eval \<sigma> e = Some v"
  shows "object_value ctx \<sigma> os (off \<sigma>) (getWidth e) = Some v"
proof -
  let ?N = "access_bytes (getWidth e)" and ?le = "isLittleEndian ctx"
  have at: "content \<sigma> os (off \<sigma> + byte_pos ?le ?N i) = B \<sigma> i" if "i < ?N" for i
  proof -
    have lt: "byte_pos ?le ?N i < ?N" "off \<sigma> + byte_pos ?le ?N i < S"
      using byte_pos_less [OF that, of ?le] assms(5) by linarith+
    then have "content \<sigma> os (off \<sigma> + byte_pos ?le ?N i) = stored ?le off ?N B C \<sigma> (off \<sigma> + byte_pos ?le ?N i)"
      using assms(1,2) by (simp add: holds_on_def)
    also have "\<dots> = B \<sigma> i" using lt(1) that by (simp add: stored_def)
    finally show ?thesis .
  qed
  have v: "bytes_val (B \<sigma>) ?N = Some v" by (rule bytes_of_val [OF assms(3,4,6,7)])
  have same: "bytes_val (\<lambda>i. content \<sigma> os (off \<sigma> + byte_pos ?le ?N i)) ?N = bytes_val (B \<sigma>) ?N"
    by (rule bytes_val_cong) (rule at)
  show ?thesis
  proof (cases "getWidth e = 1")
    case True
    have "byte_pos ?le 1 0 = 0" by (simp add: byte_pos_def)
    with True have "content \<sigma> os (off \<sigma>) = Some v"
      using at [of 0] v by (auto simp: access_bytes_def)
    moreover have "v mod 2 = v" using eval_range [OF assms(3,7)] True by simp
    ultimately show ?thesis using True by (simp add: object_value_def)
  next
    case False
    then show ?thesis using same v by (simp add: object_value_def access_bytes_def)
  qed
qed

text \<open>Bytes outside the written range keep their content.\<close>

lemma write_frame:
  assumes "holds_on Q S (stored le off N B C) os" "Q \<sigma>" "p < S" "p < off \<sigma> \<or> off \<sigma> + N \<le> p"
  shows "content \<sigma> os p = C \<sigma> p"
  using assms by (auto simp: holds_on_def stored_def)

section \<open>Access at an arbitrary offset\<close>

text \<open>
  The byte accesses of a symbolic offset assert that the offset of every byte
  is not a constant expression.
\<close>

definition symbolic_offsets :: "expr \<Rightarrow> nat \<Rightarrow> bool" where
  "symbolic_offsets off N \<longleftrightarrow>
     (\<forall>idx < N. \<forall>i. AddExpr_create off (ConstantExpr_alloc (int idx) 32) = Some i \<longrightarrow> as_const i = None)"

definition valid_offset :: "expr \<Rightarrow> width \<Rightarrow> bool" where
  "valid_offset off w \<longleftrightarrow>
     wf_expr off \<and> getWidth off = 32 \<and> (as_const off = None \<longrightarrow> w = 1 \<or> symbolic_offsets off (w div 8))"

text \<open>The assignments under which an access of width \<open>w\<close> at \<open>off\<close> is in bounds.\<close>

definition in_bounds :: "expr \<Rightarrow> width \<Rightarrow> nat \<Rightarrow> env \<Rightarrow> bool" where
  "in_bounds off w S \<sigma> \<longleftrightarrow> (\<exists>n. eval \<sigma> off = Some n \<and> n + int (access_bytes w) \<le> int S)"

definition offset_of :: "expr \<Rightarrow> env \<Rightarrow> nat" where
  "offset_of off \<sigma> = (case eval \<sigma> off of None \<Rightarrow> 0 | Some n \<Rightarrow> nat n)"

lemma Add_offset:
  assumes "wf_expr off" "getWidth off = 32" "idx < 2 ^ 32"
  shows "\<exists>i. AddExpr_create off (ConstantExpr_alloc (int idx) 32) = Some i \<and> wf_expr i \<and> getWidth i = 32 \<and>
    (\<forall>\<sigma> n. eval \<sigma> off = Some n \<longrightarrow> eval \<sigma> i = Some ((n + int idx) mod 2 ^ 32))"
proof -
  have "int idx < 2 ^ 32" using assms(3) by (metis of_nat_less_iff of_nat_numeral of_nat_power)
  then have c: "wf_expr (ConstantExpr_alloc (int idx) 32)" "getWidth (ConstantExpr_alloc (int idx) 32) = 32"
    "eval \<sigma> (ConstantExpr_alloc (int idx) 32) = Some (int idx)" for \<sigma>
    by (simp_all add: ConstantExpr_alloc_def wf_apint_def)
  with AddExpr_create_sound [of off "ConstantExpr_alloc (int idx) 32"] assms show ?thesis
    by (auto elim!: createsE simp: refines_def)
qed

lemma in_bounds_offset:
  assumes "wf_expr off" "in_bounds off w S \<sigma>"
  shows "eval \<sigma> off = Some (int (offset_of off \<sigma>))" "offset_of off \<sigma> + access_bytes w \<le> S"
  using assms eval_range(1) [OF assms(1), of \<sigma>] by (auto simp: in_bounds_def offset_of_def)

lemma reads_mono:
  "reads V w os r \<Longrightarrow> (\<And>\<sigma> v. V' \<sigma> = Some v \<Longrightarrow> V \<sigma> = Some v) \<Longrightarrow> reads V' w os r"
  by (auto simp: reads_def)

text \<open>A read returns an expression for the value at the offset, under every assignment in bounds.\<close>

lemma ObjectState_read_ok:
  assumes "wf_os os" "access_width w" "valid_offset off w" "in_bounds off w (os_size os) \<sigma>\<^sub>0"
  shows "reads (\<lambda>\<sigma>. if in_bounds off w (os_size os) \<sigma> then object_value ctx \<sigma> os (offset_of off \<sigma>) w else None) w os
    (ObjectState_read ctx off w st os)"
proof -
  note off = assms(3) [unfolded valid_offset_def]
  have wo: "wf_expr off" "getWidth off = 32" and z: "ZExtExpr_create off 32 = Some off"
    using off by (auto simp: ZExt32_same)
  show ?thesis
  proof (cases "as_const off")
    case (Some c)
    have c: "eval \<sigma> off = Some (apval c)" "offset_of off \<sigma> = nat (apval c)" for \<sigma>
      using Some by (auto simp: offset_of_def)
    have "nat (apval c) + access_bytes w \<le> os_size os" using in_bounds_offset(2) [OF wo(1) assms(4)] c(2) by simp
    from read_at_ok [OF assms(1,2) this, of ctx st] show ?thesis
      using Some z by (auto simp: ObjectState_read_def reads_def offset_of_def)
  next
    case None
    have size: "0 < os_size os" using in_bounds_offset(2) [OF wo(1) assms(4)] assms(2)
      by (auto simp: access_width_def access_bytes_def split: if_splits)
    show ?thesis
    proof (cases "w = 1")
      case True
      have "reads (\<lambda>\<sigma>. map_option (\<lambda>v. v mod 2) (do { n \<leftarrow> eval \<sigma> off; if n < int (os_size os) then content \<sigma> os (nat n) else None }))
          1 os (ObjectState_read ctx off w st os)"
        using reads_Extract_bool [OF read8_expr_ok [OF assms(1) size wo None, of st]] True None z
        by (simp add: ObjectState_read_def)
      then show ?thesis
        unfolding True
      proof (rule reads_mono)
        fix \<sigma> v assume v: "(if in_bounds off 1 (os_size os) \<sigma> then object_value ctx \<sigma> os (offset_of off \<sigma>) 1 else None) = Some v"
        then have ib: "in_bounds off 1 (os_size os) \<sigma>" by (auto split: if_splits)
        from in_bounds_offset [OF wo(1) this] v ib
        show "map_option (\<lambda>v. v mod 2) (do { n \<leftarrow> eval \<sigma> off; if n < int (os_size os) then content \<sigma> os (nat n) else None }) = Some v"
          by (simp add: object_value_def access_bytes_def)
      qed
    next
      case False
      define N where "N = w div 8"
      have N: "w = 8 * N" "0 < N" "symbolic_offsets off N" "access_bytes w = N"
        using assms(2) off None False by (auto simp: N_def access_width_def access_bytes_def)
      have S: "N \<le> os_size os" "os_size os < 2 ^ 32"
        using in_bounds_offset(2) [OF wo(1) assms(4)] N(4) wf_osD(3) [OF assms(1)] by auto
      let ?V = "\<lambda>idx \<sigma>. if in_bounds off w (os_size os) \<sigma> then content \<sigma> os (offset_of off \<sigma> + idx) else None"
      let ?rd = "\<lambda>idx st os. do { i \<leftarrow> AddExpr_create off (ConstantExpr_alloc (int idx) 32); read8_expr i st os }"
      have "reads (?V idx) 8 o1 (?rd idx st o1)" if "idx < N" "holds (os_size os) (\<lambda>\<sigma>. content \<sigma> os) o1" for idx st o1
      proof -
        from Add_offset [OF wo, of idx] that(1) S obtain i where
          i: "AddExpr_create off (ConstantExpr_alloc (int idx) 32) = Some i" "wf_expr i" "getWidth i = 32"
            "\<And>\<sigma> n. eval \<sigma> off = Some n \<Longrightarrow> eval \<sigma> i = Some ((n + int idx) mod 2 ^ 32)" by auto
        have o1: "wf_os o1" "os_size o1 = os_size os" and "as_const i = None"
          using that(2) N(3) i(1) that(1) by (auto simp: holds_on_def symbolic_offsets_def)
        with read8_expr_ok [OF o1(1) _ i(2,3), of st] size have
          r: "reads (\<lambda>\<sigma>. do { n \<leftarrow> eval \<sigma> i; if n < int (os_size o1) then content \<sigma> o1 (nat n) else None }) 8 o1 (read8_expr i st o1)"
          by simp
        have "do { n \<leftarrow> eval \<sigma> i; if n < int (os_size o1) then content \<sigma> o1 (nat n) else None } = Some v"
          if "?V idx \<sigma> = Some v" for \<sigma> v
        proof -
          from that have b: "in_bounds off w (os_size os) \<sigma>" "content \<sigma> os (offset_of off \<sigma> + idx) = Some v"
            by (auto split: if_splits)
          note ob = in_bounds_offset [OF wo(1) b(1)]
          have lt: "offset_of off \<sigma> + idx < os_size os" using ob(2) N(4) \<open>idx < N\<close> by linarith
          then have "eval \<sigma> i = Some (int (offset_of off \<sigma> + idx))" using i(4) [OF ob(1)] S(2) by simp
          with lt b(2) \<open>holds (os_size os) (\<lambda>\<sigma>. content \<sigma> os) o1\<close> o1(2) show ?thesis
            by (simp add: holds_on_def nat_int_add)
        qed
        with r i(1) show ?thesis by (auto simp: reads_def)
      qed
      from read_slow_ok [where rd = ?rd and V = ?V, OF this assms(1) N(2), of ctx st] have
        "reads (\<lambda>\<sigma>. bytes_val (\<lambda>j. ?V (byte_pos (isLittleEndian ctx) N j) \<sigma>) N) w os (ObjectState_read ctx off w st os)"
        using False None z by (simp add: ObjectState_read_def N(1) [symmetric])
      then show ?thesis
        using False by (auto simp: reads_def object_value_def N_def [symmetric] split: if_splits)
    qed
  qed
qed

text \<open>A write changes exactly the bytes at the offset, under every assignment in bounds.\<close>

lemma write8_expr_holds:
  assumes "holds_on Q S C os" "wf_expr off" "getWidth off = 32" "as_const off = None" "wf_expr e" "getWidth e = 8"
    and "\<And>\<sigma>. Q \<sigma> \<Longrightarrow> eval \<sigma> off = Some (int (P \<sigma>))"
  shows "\<exists>os'. write8_expr off e f k os = Some os' \<and> holds_on Q S (\<lambda>\<sigma> p. if p = P \<sigma> then eval \<sigma> e else C \<sigma> p) os'"
  using write8_expr_ok [OF _ assms(2-6), of os f k] assms(1,7) by (auto simp: holds_on_def written_content_def)

lemma holds_weaken: "holds S C os \<Longrightarrow> holds_on Q S C os"
  by (simp add: holds_on_def)

lemma stored_const_offset:
  assumes "\<And>\<sigma>. Q \<sigma> \<Longrightarrow> off \<sigma> = n" "holds_on Q S (stored le (\<lambda>_. n) N B C) os"
  shows "holds_on Q S (stored le off N B C) os"
  using assms by (auto simp: holds_on_def stored_def)

lemma write_symbolic_ok:
  assumes "holds S C os" "wf_expr e" "access_width (getWidth e)" "getWidth e \<noteq> 1" "wf_expr off" "getWidth off = 32"
    "as_const off = None" "symbolic_offsets off (getWidth e div 8)" "getWidth e div 8 \<le> S"
  shows "\<exists>os' B. ObjectState_write ctx off e f k os = Some os' \<and> bytes_of e (getWidth e div 8) B \<and>
    holds_on (in_bounds off (getWidth e) S) S (stored (isLittleEndian ctx) (offset_of off) (getWidth e div 8) B C) os'"
proof -
  define N where "N = getWidth e div 8"
  have N: "getWidth e = 8 * N" "access_bytes (getWidth e) = N"
    using assms(3,4) by (auto simp: N_def access_width_def access_bytes_def)
  let ?le = "isLittleEndian ctx" and ?Q = "in_bounds off (getWidth e) S"
  let ?wr = "\<lambda>i idx os. do { o' \<leftarrow> AddExpr_create off (ConstantExpr_alloc (int idx) 32);
     b \<leftarrow> ExtractExpr_create e (8 * i) 8; write8_expr o' b f k os }"
  define B where "B = (\<lambda>\<sigma> i. eval \<sigma> (the (ExtractExpr_create e (8 * i) 8)))"
  have "\<exists>os'. write_bytes ?le ?wr N 0 os = Some os' \<and> holds_on ?Q S (stored ?le (offset_of off) N B C) os'"
  proof (rule write_bytes_stored [OF _ holds_weaken [OF assms(1)]])
    fix i C' o1 assume i: "i < N" "holds_on ?Q S C' o1"
    let ?idx = "byte_pos ?le N i"
    have S: "S < 2 ^ 32" using i(2) wf_osD(3) [of o1] by (auto simp: holds_on_def)
    have idx: "?idx < N" using i(1) by simp
    with assms(9) S have "?idx < 2 ^ 32" unfolding N_def by linarith
    from Add_offset [OF assms(5,6) this] obtain o' where
      o': "AddExpr_create off (ConstantExpr_alloc (int ?idx) 32) = Some o'" "wf_expr o'" "getWidth o' = 32"
        "\<And>\<sigma> n. eval \<sigma> off = Some n \<Longrightarrow> eval \<sigma> o' = Some ((n + int ?idx) mod 2 ^ 32)" by auto
    have "as_const o' = None" using assms(8) o'(1) idx by (auto simp: symbolic_offsets_def N_def)
    obtain b where b: "ExtractExpr_create e (8 * i) 8 = Some b" "wf_expr b" "getWidth b = 8"
      using Extract_byte [OF assms(2) N(1) i(1)] by blast
    have "eval \<sigma> o' = Some (int (offset_of off \<sigma> + ?idx))" if "?Q \<sigma>" for \<sigma>
    proof -
      note ob = in_bounds_offset [OF assms(5) that]
      have "offset_of off \<sigma> + ?idx < 2 ^ 32" using ob(2) N(2) idx S by linarith
      then show ?thesis using o'(4) [OF ob(1)] by simp
    qed
    from write8_expr_holds [OF i(2) o'(2,3) \<open>as_const o' = None\<close> b(2,3) this, of f k] o'(1) b(1)
    show "\<exists>o2. ?wr i ?idx o1 = Some o2 \<and>
        holds_on ?Q S (\<lambda>\<sigma> p. if p = offset_of off \<sigma> + ?idx then B \<sigma> i else C' \<sigma> p) o2"
      by (simp add: B_def cong: if_cong)
  qed
  moreover have "bytes_of e N B"
    unfolding bytes_of_def B_def using Extract_byte [OF assms(2) N(1)] by fastforce
  ultimately show ?thesis
    using assms(4,7) ZExt32_same [OF assms(6)] N(1) by (auto simp: ObjectState_write_def Let_def)
qed

lemma ObjectState_write_ok:
  assumes "wf_os os" "wf_expr e" "access_width (getWidth e)" "valid_offset off (getWidth e)"
    "in_bounds off (getWidth e) (os_size os) \<sigma>\<^sub>0"
  shows "\<exists>os' B. ObjectState_write ctx off e f k os = Some os' \<and> bytes_of e (access_bytes (getWidth e)) B \<and>
    holds_on (in_bounds off (getWidth e) (os_size os)) (os_size os)
      (stored (isLittleEndian ctx) (offset_of off) (access_bytes (getWidth e)) B (\<lambda>\<sigma>. content \<sigma> os)) os'"
proof -
  note off = assms(4) [unfolded valid_offset_def]
  have wo: "wf_expr off" "getWidth off = 32" and z: "ZExtExpr_create off 32 = Some off"
    using off by (auto simp: ZExt32_same)
  let ?w = "getWidth e" and ?Q = "in_bounds off (getWidth e) (os_size os)"
  note h = holds_self [OF assms(1)] and ib = in_bounds_offset [OF wo(1)]
  show ?thesis
  proof (cases "as_const off")
    case (Some c)
    have c: "offset_of off \<sigma> = nat (apval c)" for \<sigma> using Some by (auto simp: offset_of_def)
    have "nat (apval c) + access_bytes ?w \<le> os_size os" using ib(2) [OF assms(5)] c by simp
    from write_at_ok [OF h assms(2,3) this, of ctx f k] obtain os' B where
      "write_at ctx (nat (apval c)) e f k os = Some os'" "bytes_of e (access_bytes ?w) B"
      "holds_on ?Q (os_size os) (stored (isLittleEndian ctx) (\<lambda>_. nat (apval c)) (access_bytes ?w) B (\<lambda>\<sigma>. content \<sigma> os)) os'"
      by (auto intro: holds_weaken)
    then show ?thesis using Some z stored_const_offset [OF c] by (auto simp: ObjectState_write_def)
  next
    case None
    show ?thesis
    proof (cases "?w = 1")
      case False
      then have "symbolic_offsets off (?w div 8)" "access_bytes ?w = ?w div 8" using off None by (auto simp: access_bytes_def)
      with write_symbolic_ok [OF h assms(2,3) False wo None, of ctx f k] ib(2) [OF assms(5)] show ?thesis by simp
    next
      case True
      from ZExtExpr_create_sound [OF assms(2), of 8] obtain v where
        v: "ZExtExpr_create e 8 = Some v" "wf_expr v" "getWidth v = 8" "\<And>\<sigma> x. eval \<sigma> e = Some x \<Longrightarrow> eval \<sigma> v = Some (x mod 2 ^ 8)"
        by auto
      from write8_expr_holds [OF holds_weaken [OF h] wo None v(2,3), where Q = ?Q and P = "offset_of off" and f = f and k = k, OF ib(1) [where w = ?w and S = "os_size os"]] obtain os' where
        w: "write8_expr off v f k os = Some os'"
          "holds_on ?Q (os_size os) (\<lambda>\<sigma> p. if p = offset_of off \<sigma> then eval \<sigma> v else content \<sigma> os p) os'" by auto
      have "(\<lambda>\<sigma> p. if p = offset_of off \<sigma> then eval \<sigma> v else content \<sigma> os p) =
          stored (isLittleEndian ctx) (offset_of off) 1 (\<lambda>\<sigma> i. eval \<sigma> v) (\<lambda>\<sigma>. content \<sigma> os)"
        by (intro ext) (auto simp: stored_def)
      moreover have "bytes_of e 1 (\<lambda>\<sigma> i. eval \<sigma> v)" using v(4) by (auto simp: bytes_of_def value_byte_def)
      ultimately show ?thesis
        using True None z v(1) w by (auto simp: ObjectState_write_def access_bytes_def)
    qed
  qed
qed

section \<open>Construction and initialisation\<close>

lemma wf_os_concrete:
  assumes "os_shape os" "concreteMask os = None" "flushMask os = None" "knownSymbolics os = None"
  shows "wf_os os" "content \<sigma> os i = Some (uint (concreteStore os ! i))"
  using assms by (simp_all add: wf_os_def byte_inv_def content_def isByteConcrete_def isByteFlushed_def
    isByteKnownSymbolic_def knownSymbolic_def)

lemma ObjectState_base_shape:
  assumes "mo_size mo + 31 < 2 ^ 32" "wf_byte_array (root_array ul (mo_size mo))" "ul_head ul = []"
  shows "os_shape (ObjectState_base mo ul)"
  using assms by (simp add: os_shape_def ObjectState_base_def ul_array_def)

lemma ObjectState_new_ok:
  assumes "mo_size mo + 31 < 2 ^ 32"
  shows "\<exists>os. ObjectState_new True st mo = Some (os, st) \<and> wf_os os \<and> os_size os = mo_size mo \<and> os_object os = mo \<and>
    (\<forall>\<sigma>. \<forall>i < mo_size mo. content \<sigma> os i = Some 0)"
proof -
  let ?os = "ObjectState_base mo \<lparr>ul_root = None, ul_head = []\<rparr>"
  have "os_shape ?os"
    by (rule ObjectState_base_shape) (use assms in \<open>simp_all add: root_array_def wf_byte_zero_array\<close>)
  moreover have "concreteMask ?os = None" "flushMask ?os = None" "knownSymbolics ?os = None"
    by (simp_all add: ObjectState_base_def)
  ultimately show ?thesis
    using wf_os_concrete [of ?os] by (auto simp: ObjectState_new_def) (auto simp: ObjectState_base_def)
qed

lemma initialize_ok:
  assumes "wf_os os"
  shows "wf_os (initializeToZero os)" "wf_os (initializeToRandom os)"
    "i < os_size os \<Longrightarrow> content \<sigma> (initializeToZero os) i = Some 0"
    "i < os_size os \<Longrightarrow> content \<sigma> (initializeToRandom os) i = Some 0xAB"
proof -
  note wf = wf_osD [OF assms]
  have z: "os_shape (initializeToZero os)" "os_shape (initializeToRandom os)"
    using wf(1) by (simp_all add: os_shape_def initializeToZero_def initializeToRandom_def makeConcrete_def ul_array_def)
  have n: "concreteMask (initializeToZero os) = None" "flushMask (initializeToZero os) = None" "knownSymbolics (initializeToZero os) = None"
    "concreteMask (initializeToRandom os) = None" "flushMask (initializeToRandom os) = None" "knownSymbolics (initializeToRandom os) = None"
    by (simp_all add: initializeToZero_def initializeToRandom_def makeConcrete_def)
  show "wf_os (initializeToZero os)" "wf_os (initializeToRandom os)"
    using wf_os_concrete(1) z n by blast+
  show "i < os_size os \<Longrightarrow> content \<sigma> (initializeToZero os) i = Some 0"
    using wf_os_concrete(2) [OF z(1) n(1-3)] by (simp add: initializeToZero_def)
  show "i < os_size os \<Longrightarrow> content \<sigma> (initializeToRandom os) i = Some 0xAB"
    using wf_os_concrete(2) [OF z(2) n(4-6)] by (simp add: initializeToRandom_def)
qed

lemma makeSymbolic_loop_ok:
  assumes "os_shape os" "n \<le> os_size os" "knownSymbolics os = None" "flushMask os = None"
  shows "os_shape (makeSymbolic_loop n os) \<and> os_size (makeSymbolic_loop n os) = os_size os \<and>
    os_updates (makeSymbolic_loop n os) = os_updates os \<and> os_object (makeSymbolic_loop n os) = os_object os \<and>
    knownSymbolics (makeSymbolic_loop n os) = None \<and>
    (\<forall>i < n. \<not> isByteConcrete (makeSymbolic_loop n os) i) \<and>
    (0 < n \<longrightarrow> (\<forall>i < os_size os. isByteFlushed (makeSymbolic_loop n os) i))"
  using assms(2)
proof (induction n)
  case 0
  then show ?case using assms by simp
next
  case (Suc n)
  define os1 where "os1 = makeSymbolic_loop n os"
  define os2 where "os2 = markByteSymbolic n os1"
  have 1: "os_shape os1" "os_size os1 = os_size os" "os_updates os1 = os_updates os" "os_object os1 = os_object os"
    "knownSymbolics os1 = None" "\<forall>i < n. \<not> isByteConcrete os1 i" "0 < n \<longrightarrow> (\<forall>i < os_size os. isByteFlushed os1 i)"
    using Suc by (simp_all add: os1_def)
  have 2: "os_shape os2" "os_size os2 = os_size os" "os_updates os2 = os_updates os" "os_object os2 = os_object os"
    "knownSymbolics os2 = None" "flushMask os2 = flushMask os1"
    using 1 by (simp_all add: os2_def) (simp_all add: markByteSymbolic_def Let_def)
  have c: "\<not> isByteConcrete os2 i" if "i < Suc n" for i
    using isByteConcrete_marks(2) [OF 1(1), of n i] 1(2,6) Suc(2) that by (auto simp: os2_def less_Suc_eq)
  have eq: "makeSymbolic_loop (Suc n) os = markByteFlushed n os2"
    using 2(5) by (simp add: os2_def os1_def setKnownSymbolic_def)
  have BA: "os_size os + 31 < 2 ^ 32" "\<And>m. flushMask os2 = Some m \<Longrightarrow> wf_BitArray (os_size os) m"
    using 2(1,2) by (auto simp: os_shape_def)
  have sh: "os_shape (markByteFlushed n os2)"
    using 2(1,2) BA wf_BitArray_ops(1) [OF BA(1)]
    by (cases "flushMask os2") (simp_all add: markByteFlushed_def os_shape_def ul_array_def)
  have fl: "isByteFlushed (markByteFlushed n os2) i" if "i < os_size os" for i
  proof (cases "flushMask os2")
    case None
    then show ?thesis using that BA(1) 2(2) by (simp add: markByteFlushed_def isByteFlushed_def)
  next
    case (Some m)
    have "0 < n \<Longrightarrow> isByteFlushed os1 i" using 1(7) that by simp
    moreover have "n = 0 \<Longrightarrow> flushMask os1 = None" using assms(4) by (simp add: os1_def)
    ultimately have "\<not> BitArray_get m i" using Some 2(6) by (cases n) (auto simp: isByteFlushed_def)
    with Some BA(2) [OF Some] Suc(2) that show ?thesis by (simp add: markByteFlushed_def isByteFlushed_def)
  qed
  show ?case unfolding eq
    using sh 2 c fl by (auto simp: markByteFlushed_def isByteConcrete_def split: option.splits)
qed

text \<open>A new symbolic object has the initial content of its array.\<close>

lemma ObjectState_symbolic_ok:
  assumes "mo_size mo + 31 < 2 ^ 32" "wf_byte_array a"
  shows "\<exists>os. ObjectState_symbolic mo a = Some os \<and> wf_os os \<and> os_size os = mo_size mo \<and> os_object os = mo \<and>
    (\<forall>\<sigma>. \<forall>i < mo_size mo. content \<sigma> os i = Some (initial_value \<sigma> a (int i)))"
proof -
  let ?os0 = "ObjectState_base mo \<lparr>ul_root = Some a, ul_head = []\<rparr>"
  define os where "os = makeSymbolic_loop (mo_size mo) ?os0"
  have "os_shape ?os0" by (rule ObjectState_base_shape) (use assms in \<open>simp_all add: root_array_def\<close>)
  moreover have "knownSymbolics ?os0 = None" "flushMask ?os0 = None" "os_size ?os0 = mo_size mo" "os_object ?os0 = mo"
    "os_updates ?os0 = \<lparr>ul_root = Some a, ul_head = []\<rparr>" by (simp_all add: ObjectState_base_def)
  ultimately have os: "os_shape os" "os_size os = mo_size mo" "os_updates os = \<lparr>ul_root = Some a, ul_head = []\<rparr>"
    "os_object os = mo" "knownSymbolics os = None" "\<forall>i < mo_size mo. \<not> isByteConcrete os i"
    "\<forall>i < mo_size mo. isByteFlushed os i"
    using makeSymbolic_loop_ok [of ?os0 "mo_size mo"] by (auto simp: os_def)
  have c: "content \<sigma> os i = Some (initial_value \<sigma> a (int i)) \<and> byte_inv os i" if "i < mo_size mo" for \<sigma> i
    using os that by (simp add: content_def byte_inv_def isByteKnownSymbolic_def knownSymbolic_def ul_value_def
      ul_array_def root_array_def)
  have "ObjectState_symbolic mo a = Some os"
    by (simp add: ObjectState_symbolic_def makeSymbolic_def os_def) (simp add: ObjectState_base_def)
  with os c show ?thesis by (auto simp: wf_os_def)
qed

text \<open>A copy has the same content; copying a read-only object fails.\<close>

lemma ObjectState_copy_ok:
  assumes "wf_os os"
  shows "ObjectState_copy os = (if readOnly os then None else Some (os\<lparr>copyOnWriteOwner := 0, readOnly := False, untaggedWriteCnt := 0\<rparr>))"
proof -
  have "map_option (\<lambda>m. BitArray_copy m (os_size os)) (concreteMask os) = concreteMask os"
    "map_option (\<lambda>m. BitArray_copy m (os_size os)) (flushMask os) = flushMask os"
    using wf_osD(1) [OF assms] by (cases "concreteMask os", simp_all add: os_shape_def)
      (use wf_osD(1) [OF assms] in \<open>cases "flushMask os", simp_all add: os_shape_def\<close>)
  then show ?thesis by (simp add: ObjectState_copy_def)
qed

lemma owner_irrelevant:
  "content \<sigma> (os\<lparr>copyOnWriteOwner := k\<rparr>) i = content \<sigma> os i" "wf_os (os\<lparr>copyOnWriteOwner := k\<rparr>) = wf_os os"
  "content \<sigma> (os\<lparr>untaggedWriteCnt := n\<rparr>) i = content \<sigma> os i" "wf_os (os\<lparr>untaggedWriteCnt := n\<rparr>) = wf_os os"
  by (simp_all add: content_def wf_os_def byte_inv_def isByteConcrete_def isByteFlushed_def isByteKnownSymbolic_def
    knownSymbolic_def ul_value_def ul_array_def os_shape_def cong: option.case_cong)

lemma readOnly_irrelevant:
  "content \<sigma> (os\<lparr>readOnly := b\<rparr>) i = content \<sigma> os i" "wf_os (os\<lparr>readOnly := b\<rparr>) = wf_os os"
  by (simp_all add: content_def wf_os_def byte_inv_def isByteConcrete_def isByteFlushed_def isByteKnownSymbolic_def
    knownSymbolic_def ul_value_def ul_array_def os_shape_def cong: option.case_cong)

section \<open>Bounds checks\<close>

lemma ConstantExpr_create_ok:
  assumes "0 < w" "w \<le> 64" "0 \<le> v" "v < 2 ^ w"
  shows "ConstantExpr_create v w = Some (ConstantExpr_alloc v w)"
proof -
  have "take_bit w (word_of_int v :: 64 word) = word_of_int v"
    using assms by (simp add: take_bit_word_eq_self take_bit_of_int take_bit_int_eq_self)
  then show ?thesis using assms by (simp add: ConstantExpr_create_def bits64_truncate_take_bit)
qed

lemma alloc_ok:
  assumes "0 < w" "0 \<le> v" "v < 2 ^ w"
  shows "wf_expr (ConstantExpr_alloc v w)" "getWidth (ConstantExpr_alloc v w) = w" "eval \<sigma> (ConstantExpr_alloc v w) = Some v"
  using assms by (simp_all add: ConstantExpr_alloc_def wf_apint_def)

text \<open>An object that lies in the address space of the pointer width.\<close>

definition wf_mo :: "Context \<Rightarrow> MemoryObject \<Rightarrow> bool" where
  "wf_mo ctx mo \<longleftrightarrow>
     0 < getPointerWidth ctx \<and> getPointerWidth ctx \<le> 64 \<and>
     uint (address mo) + int (mo_size mo) < 2 ^ getPointerWidth ctx"

lemma getOffsetExpr_ok:
  assumes "wf_mo ctx mo" "wf_expr p" "getWidth p = getPointerWidth ctx"
  shows "\<exists>e. getOffsetExpr ctx mo p = Some e \<and> wf_expr e \<and> getWidth e = getPointerWidth ctx \<and>
    (\<forall>\<sigma> a. eval \<sigma> p = Some a \<longrightarrow> eval \<sigma> e = Some ((a - uint (address mo)) mod 2 ^ getPointerWidth ctx))"
proof -
  let ?w = "getPointerWidth ctx" and ?b = "uint (address mo)"
  have w: "0 < ?w" "?w \<le> 64" "0 \<le> ?b" "?b < 2 ^ ?w" using assms(1) by (auto simp: wf_mo_def)
  note base = ConstantExpr_create_ok [OF w] and c = alloc_ok [OF w(1,3,4)]
  from SubExpr_create_sound [of p "ConstantExpr_alloc ?b ?w"] c assms(2,3) obtain e where
    "SubExpr_create p (ConstantExpr_alloc ?b ?w) = Some e" "wf_expr e" "getWidth e = ?w"
    "refines (BinaryExpr Sub p (ConstantExpr_alloc ?b ?w)) e"
    by (auto elim: createsE)
  then show ?thesis using base c assms(3) by (auto simp: getOffsetExpr_def getBaseExpr_def refines_def)
qed

lemma offset_in_range:
  assumes "0 \<le> a" "a < 2 ^ w" "0 \<le> b" "0 \<le> n" "b + n \<le> 2 ^ w"
  shows "(a - b) mod 2 ^ w < n \<longleftrightarrow> b \<le> a \<and> a < b + (n::int)"
proof (cases "b \<le> a")
  case True
  then have "(a - b) mod 2 ^ w = a - b" using assms by (intro mod_pow2_small) auto
  with True show ?thesis by linarith
next
  case False
  have "(a - b) mod 2 ^ w = (a - b + 2 ^ w) mod 2 ^ w" by simp
  also have "\<dots> = a - b + 2 ^ w" using assms False by (intro mod_pow2_small) auto
  finally show ?thesis using assms False by simp
qed

lemma Ult_eval:
  assumes "wf_expr l" "wf_expr r" "getWidth l = getWidth r"
  shows "\<exists>e. UltExpr_create l r = Some e \<and> wf_expr e \<and> getWidth e = 1 \<and>
    (\<forall>\<sigma> a b. eval \<sigma> l = Some a \<longrightarrow> eval \<sigma> r = Some b \<longrightarrow> eval \<sigma> e = Some (bool_val (a < b)))"
  using Ult_create.create_sound_nodiv [of l r] assms by (auto elim!: createsE simp: refines_def)

lemma getBoundsCheckPointer_bytes_ok:
  assumes "wf_mo ctx mo" "wf_expr p" "getWidth p = getPointerWidth ctx" "0 < n"
  shows "\<exists>e. getBoundsCheckPointer_bytes ctx mo p n = Some e \<and> wf_expr e \<and> getWidth e = 1 \<and>
    (\<forall>\<sigma> a. eval \<sigma> p = Some a \<longrightarrow> eval \<sigma> e = Some (bool_val
       (uint (address mo) \<le> a \<and> a + int n \<le> uint (address mo) + int (mo_size mo))))"
proof -
  let ?w = "getPointerWidth ctx"
  obtain off where off: "getOffsetExpr ctx mo p = Some off" "wf_expr off" "getWidth off = ?w"
    "\<And>\<sigma> a. eval \<sigma> p = Some a \<Longrightarrow> eval \<sigma> off = Some ((a - uint (address mo)) mod 2 ^ ?w)"
    using getOffsetExpr_ok [OF assms(1-3)] by blast
  note mo = assms(1) [unfolded wf_mo_def]
  show ?thesis
  proof (cases "n \<le> mo_size mo")
    case False
    then have "eval \<sigma> (ConstantExpr_alloc 0 1) = Some (bool_val
       (uint (address mo) \<le> a \<and> a + int n \<le> uint (address mo) + int (mo_size mo)))" for \<sigma> a
      by (auto simp: ConstantExpr_alloc_def bool_val_def)
    with False off(1) show ?thesis
      by (simp add: getBoundsCheckPointer_bytes_def getBoundsCheckOffset_bytes_def ConstantExpr_alloc_def wf_apint_def)
  next
    case True
    let ?k = "int (mo_size mo - n + 1)"
    have k: "0 \<le> ?k" "?k < 2 ^ ?w" "uint (address mo) + ?k \<le> 2 ^ ?w" 
      using mo True assms(4) uint_ge_0 [of "address mo"] by linarith+
    note c = alloc_ok [of ?w ?k]
    obtain e where e: "UltExpr_create off (ConstantExpr_alloc ?k ?w) = Some e" "wf_expr e" "getWidth e = 1"
      "\<And>\<sigma> a b. eval \<sigma> off = Some a \<Longrightarrow> eval \<sigma> (ConstantExpr_alloc ?k ?w) = Some b \<Longrightarrow> eval \<sigma> e = Some (bool_val (a < b))"
      using Ult_eval [of off "ConstantExpr_alloc ?k ?w"] off(2,3) c k mo by auto
    have "eval \<sigma> e = Some (bool_val (uint (address mo) \<le> a \<and> a + int n \<le> uint (address mo) + int (mo_size mo)))"
      if a: "eval \<sigma> p = Some a" for \<sigma> a
    proof -
      have r: "0 \<le> a" "a < 2 ^ ?w" using eval_range [OF assms(2) a] assms(3) by simp_all
      have "eval \<sigma> e = Some (bool_val ((a - uint (address mo)) mod 2 ^ ?w < ?k))"
        by (rule e(4) [OF off(4) [OF a] c(3)]) (use k mo in auto)
      also have "(a - uint (address mo)) mod 2 ^ ?w < ?k \<longleftrightarrow> uint (address mo) \<le> a \<and> a < uint (address mo) + ?k"
        using offset_in_range [OF r uint_ge_0 k(1,3)] by blast
      also have "\<dots> \<longleftrightarrow> uint (address mo) \<le> a \<and> a + int n \<le> uint (address mo) + int (mo_size mo)"
        using True by (auto simp: of_nat_diff)
      finally show ?thesis .
    qed
    with e off(1) True show ?thesis by (simp add: getBoundsCheckPointer_bytes_def getBoundsCheckOffset_bytes_def)
  qed
qed

lemma getBoundsCheckPointer_ok:
  assumes "wf_mo ctx mo" "wf_expr p" "getWidth p = getPointerWidth ctx"
  shows "\<exists>e. getBoundsCheckPointer ctx mo p = Some e \<and> wf_expr e \<and> getWidth e = 1 \<and>
    (\<forall>\<sigma> a. eval \<sigma> p = Some a \<longrightarrow> eval \<sigma> e = Some (bool_val
       (uint (address mo) \<le> a \<and> a < uint (address mo) + int (mo_size mo))))"
proof -
  let ?w = "getPointerWidth ctx"
  obtain off where off: "getOffsetExpr ctx mo p = Some off" "wf_expr off" "getWidth off = ?w"
    "\<And>\<sigma> a. eval \<sigma> p = Some a \<Longrightarrow> eval \<sigma> off = Some ((a - uint (address mo)) mod 2 ^ ?w)"
    using getOffsetExpr_ok [OF assms(1-3)] by blast
  note mo = assms(1) [unfolded wf_mo_def]
  show ?thesis
  proof (cases "mo_size mo = 0")
    case True
    then show ?thesis using off(1)
      by (auto simp: getBoundsCheckPointer_def getBoundsCheckOffset_def ConstantExpr_alloc_def wf_apint_def bool_val_def)
  next
    case False
    let ?k = "int (mo_size mo)"
    have k: "0 < ?w" "?w \<le> 64" "0 \<le> ?k" "?k < 2 ^ ?w" "uint (address mo) + ?k \<le> 2 ^ ?w"
      using mo uint_ge_0 [of "address mo"] by linarith+
    note c = alloc_ok [OF k(1,3,4)]
    obtain e where e: "UltExpr_create off (ConstantExpr_alloc ?k ?w) = Some e" "wf_expr e" "getWidth e = 1"
      "\<And>\<sigma> a b. eval \<sigma> off = Some a \<Longrightarrow> eval \<sigma> (ConstantExpr_alloc ?k ?w) = Some b \<Longrightarrow> eval \<sigma> e = Some (bool_val (a < b))"
      using Ult_eval [of off "ConstantExpr_alloc ?k ?w"] off(2,3) c by auto
    have "eval \<sigma> e = Some (bool_val (uint (address mo) \<le> a \<and> a < uint (address mo) + int (mo_size mo)))"
      if a: "eval \<sigma> p = Some a" for \<sigma> a
      using e(4) [OF off(4) [OF a] c(3)] offset_in_range [OF _ _ uint_ge_0 k(3,5), of a] eval_range [OF assms(2) a] assms(3)
      by simp
    with e off(1) False ConstantExpr_create_ok [OF k(1-4)] show ?thesis
      by (simp add: getBoundsCheckPointer_def getBoundsCheckOffset_def getSizeExpr_def)
  qed
qed

section \<open>Values in the host's memory\<close>

text \<open>
  \<^verbatim>\<open>ConstantExpr::toMemory\<close> and \<^verbatim>\<open>fromMemory\<close> on a little-endian host: the bytes
  stored for a constant and the constant loaded from them.  The width 80 is the
  extended floating point format, stored as its ten bytes.
\<close>

definition store_bytes :: "nat \<Rightarrow> int \<Rightarrow> 8 word list" where
  "store_bytes n v = map (\<lambda>i. word_of_int (v div 2 ^ (8 * i))) [0..<n]"

definition load_bytes :: "nat \<Rightarrow> 8 word list \<Rightarrow> int" where
  "load_bytes n bs = foldr (\<lambda>b acc. uint b + 2 ^ 8 * acc) (take n bs) 0"

definition toMemory :: "apint \<Rightarrow> 8 word list option" where
  "toMemory c =
     (let w = getBitWidth c in
      if w = 1 then Some (store_bytes 1 (apval c))
      else if w = 8 then Some (store_bytes 1 (apval c))
      else if w = 16 then Some (store_bytes 2 (apval c))
      else if w = 32 then Some (store_bytes 4 (apval c))
      else if w = 64 then Some (store_bytes 8 (apval c))
      else if w = 80 then Some (store_bytes 10 (apval c))
      else None)"

definition fromMemory :: "8 word list \<Rightarrow> width \<Rightarrow> expr option" where
  "fromMemory bs w =
     (if w = 1 then ConstantExpr_create (load_bytes 1 bs) w
      else if w = 8 then ConstantExpr_create (load_bytes 1 bs) w
      else if w = 16 then ConstantExpr_create (load_bytes 2 bs) w
      else if w = 32 then ConstantExpr_create (load_bytes 4 bs) w
      else if w = 64 then ConstantExpr_create (load_bytes 8 bs) w
      else Some (ConstantExpr_alloc (load_bytes (8 * ((w + 63) div 64)) bs) w))"

lemma load_store_bytes:
  "load_bytes n (store_bytes n v @ rest) = v mod 2 ^ (8 * n)"
proof -
  have "foldr (\<lambda>b acc. uint b + 2 ^ 8 * acc) (map (\<lambda>i. word_of_int (v div 2 ^ (8 * i)) :: 8 word) [k..<k + n]) 0 =
      v div 2 ^ (8 * k) mod 2 ^ (8 * n)" for k
  proof (induction n arbitrary: k)
    case (Suc n)
    have u: "uint (word_of_int (v div 2 ^ (8 * k)) :: 8 word) = v div 2 ^ (8 * k) mod 2 ^ 8"
      by (simp only: uint_word_of_int) simp
    have d: "v div 2 ^ (8 * Suc k) = v div 2 ^ (8 * k) div 2 ^ 8"
      by (simp add: power_add zdiv_zmult2_eq [symmetric] mult.commute)
    have "v div 2 ^ (8 * k) mod 2 ^ (8 * Suc n) = v div 2 ^ (8 * k) mod (2 ^ 8 * 2 ^ (8 * n))"
      by (simp add: power_add)
    also have "\<dots> = 2 ^ 8 * (v div 2 ^ (8 * k) div 2 ^ 8 mod 2 ^ (8 * n)) + v div 2 ^ (8 * k) mod 2 ^ 8"
      by (rule zmod_zmult2_eq) simp
    finally have "v div 2 ^ (8 * k) mod 2 ^ (8 * Suc n) =
        v div 2 ^ (8 * k) mod 2 ^ 8 + 2 ^ 8 * (v div 2 ^ (8 * Suc k) mod 2 ^ (8 * n))"
      unfolding d by linarith
    moreover have "[k..<k + Suc n] = k # [Suc k..<Suc k + n]" by (simp add: upt_rec)
    ultimately show ?case using Suc [of "Suc k"] u by (simp del: power_Suc mult_Suc_right)
  qed simp
  from this [of 0] show ?thesis by (simp add: load_bytes_def store_bytes_def)
qed

lemma toMemory_fromMemory:
  assumes "wf_apint c" "getBitWidth c \<in> {1, 8, 16, 32, 64}" "toMemory c = Some bs"
  shows "fromMemory (bs @ rest) (getBitWidth c) = Some (ConstantExpr c)"
proof -
  have c: "0 \<le> apval c" "apval c < 2 ^ getBitWidth c" "0 < getBitWidth c" "getBitWidth c \<le> 64"
    using assms(1,2) by (auto simp: wf_apint_def)
  have "ConstantExpr_alloc (apval c) (getBitWidth c) = ConstantExpr c"
    using c by (cases c) (simp add: ConstantExpr_alloc_def apint_of_def take_bit_int_eq_self)
  then have cr: "ConstantExpr_create (apval c) (getBitWidth c) = Some (ConstantExpr c)"
    using ConstantExpr_create_ok [OF c(3,4,1,2)] by simp
  have v: "apval c mod 2 ^ (8 * n) = apval c" if "getBitWidth c \<le> 8 * n" for n
    using c pow2_less_le [OF c(2) that] by (intro mod_pow2_small)
  from assms(2) consider "getBitWidth c = 1" | "getBitWidth c = 8" | "getBitWidth c = 16" | "getBitWidth c = 32" | "getBitWidth c = 64"
    by auto
  then show ?thesis
  proof cases
    case 1 with assms(3) cr v [of 1] load_store_bytes [of 1 "apval c" rest] show ?thesis by (auto simp: toMemory_def fromMemory_def)
  next
    case 2 with assms(3) cr v [of 1] load_store_bytes [of 1 "apval c" rest] show ?thesis by (auto simp: toMemory_def fromMemory_def)
  next
    case 3 with assms(3) cr v [of 2] load_store_bytes [of 2 "apval c" rest] show ?thesis by (auto simp: toMemory_def fromMemory_def)
  next
    case 4 with assms(3) cr v [of 4] load_store_bytes [of 4 "apval c" rest] show ?thesis by (auto simp: toMemory_def fromMemory_def)
  next
    case 5 with assms(3) cr v [of 8] load_store_bytes [of 8 "apval c" rest] show ?thesis by (auto simp: toMemory_def fromMemory_def)
  qed
qed

text \<open>
  The bytes the solver gives for the symbolic bytes before an external call;
  \<open>getValue\<close> is the solver, with \<open>None\<close> for a query that failed.
\<close>

fun flushToConcreteStore_loop :: "(expr \<Rightarrow> apint option) \<Rightarrow> nat list \<Rightarrow> ObjectState \<Rightarrow> ObjectState option" where
  "flushToConcreteStore_loop getValue [] os = Some os"
| "flushToConcreteStore_loop getValue (i # is) os =
     (case knownSymbolic os i of
        None \<Rightarrow> flushToConcreteStore_loop getValue is os
      | Some e \<Rightarrow>
          (case getValue e of
             None \<Rightarrow> flushToConcreteStore_loop getValue is os
           | Some ce \<Rightarrow>
               do { bs \<leftarrow> toMemory ce;
                    let cs = concreteStore os in
                    if i + length bs \<le> length cs
                    then flushToConcreteStore_loop getValue is (os\<lparr>concreteStore := take i cs @ bs @ drop (i + length bs) cs\<rparr>)
                    else None }))"

definition flushToConcreteStore :: "(expr \<Rightarrow> apint option) \<Rightarrow> ObjectState \<Rightarrow> ObjectState option" where
  "flushToConcreteStore getValue os = flushToConcreteStore_loop getValue [0..<os_size os] os"

lemma flushToConcreteStore_loop_ok:
  assumes "wf_os os" "\<And>e c. getValue e = Some c \<Longrightarrow> wf_apint c \<and> getBitWidth c = getWidth e" "set is \<subseteq> {..<os_size os}"
  shows "\<exists>os'. flushToConcreteStore_loop getValue is os = Some os' \<and> wf_os os' \<and> os_size os' = os_size os \<and>
    (\<forall>\<sigma>. \<forall>i < os_size os. content \<sigma> os' i = content \<sigma> os i)"
  using assms(1,3)
proof (induction "is" arbitrary: os)
  case (Cons i "is")
  note wf = wf_osD [OF Cons(2)]
  show ?case
  proof (cases "\<exists>e ce. knownSymbolic os i = Some e \<and> getValue e = Some ce")
    case False
    then have "flushToConcreteStore_loop getValue (i # is) os = flushToConcreteStore_loop getValue is os"
      by (auto split: option.splits)
    with Cons show ?thesis by simp
  next
    case True
    then obtain e ce where e: "knownSymbolic os i = Some e" "getValue e = Some ce" by auto
    have i: "i < os_size os" using Cons(3) by simp
    with wf(2) e(1) have inv: "byte_inv os i" "getWidth e = 8" "\<not> isByteConcrete os i"
      by (auto simp: byte_inv_def isByteKnownSymbolic_def)
    with assms(2) [OF e(2)] have "toMemory ce = Some (store_bytes 1 (apval ce))" by (simp add: toMemory_def Let_def)
    moreover have "store_bytes 1 (apval ce) = [word_of_int (apval ce)]" by (simp add: store_bytes_def)
    moreover have "take i (concreteStore os) @ [v] @ drop (i + 1) (concreteStore os) = (concreteStore os)[i := v]" for v
      using i wf(4) by (simp add: upd_conv_take_nth_drop)
    ultimately have run: "flushToConcreteStore_loop getValue (i # is) os =
        flushToConcreteStore_loop getValue is (os\<lparr>concreteStore := (concreteStore os)[i := word_of_int (apval ce)]\<rparr>)"
      using e i wf(4) by simp
    let ?os1 = "os\<lparr>concreteStore := (concreteStore os)[i := word_of_int (apval ce)]\<rparr>"
    have same: "content \<sigma> ?os1 j = content \<sigma> os j" "byte_inv ?os1 j = byte_inv os j" for \<sigma> j
    proof -
      have c: "content \<sigma> ?os1 j = content \<sigma> os j" for \<sigma>
        using inv(3) by (cases "j = i") (simp_all add: content_def cong: option.case_cong)
      then show "content \<sigma> ?os1 j = content \<sigma> os j" by simp
      from c show "byte_inv ?os1 j = byte_inv os j" by (simp add: byte_inv_def isByteKnownSymbolic_def)
    qed
    have "wf_os ?os1" using wf same(2) by (simp add: wf_os_def)
    from Cons(1) [OF this] Cons(3) show ?thesis unfolding run using same(1) by simp
  qed
qed simp

end
