(* ===== verification/ER_ImmutableTree.thy ===== *)
theory ER_ImmutableTree
  imports ER_Prelude
begin

text \<open>
  The persistent search trees of \<^verbatim>\<open>include/klee/Internal/ADT/ImmutableTree.h\<close>:
  nodes with a stored height, rebalanced when the heights of two siblings
  differ by more than two, parameterised by the key of a value (\<open>kov\<close>) and
  the comparison of keys (\<open>cmp\<close>).  Sharing and reference counts are memory
  management and are not modelled; an operation returns the new tree.
  The operations are specified by their effect on the inorder list, the
  iterators by the part of that list they have still to visit.
\<close>

section \<open>Nodes\<close>

text \<open>\<open>Terminator\<close> is the static node \<^verbatim>\<open>Node::terminator\<close>.\<close>

datatype 'v itree = Terminator | Node "'v itree" "'v itree" 'v nat

fun node_height :: "'v itree \<Rightarrow> nat" where
  "node_height Terminator = 0"
| "node_height (Node l r v h) = h"

fun isTerminator :: "'v itree \<Rightarrow> bool" where
  "isTerminator Terminator = True"
| "isTerminator (Node l r v h) = False"

definition new_Node :: "'v itree \<Rightarrow> 'v itree \<Rightarrow> 'v \<Rightarrow> 'v itree" where
  "new_Node l r v = Node l r v (max (node_height l) (node_height r) + 1)"

text \<open>
  The terminator has height 0, so in \<open>balance\<close> the subtree that is taken apart
  is a proper node; the last equations of the case distinctions are never used.
\<close>

definition balance :: "'v itree \<Rightarrow> 'v \<Rightarrow> 'v itree \<Rightarrow> 'v itree" where
  "balance l v r =
     (if node_height l > node_height r + 2 then
        (case l of
           Node ll lr lv _ \<Rightarrow>
             if node_height ll \<ge> node_height lr then new_Node ll (new_Node lr r v) lv
             else (case lr of
               Node lrl lrr lrv _ \<Rightarrow> new_Node (new_Node ll lrl lv) (new_Node lrr r v) lrv
             | Terminator \<Rightarrow> new_Node l r v)
         | Terminator \<Rightarrow> new_Node l r v)
      else if node_height r > node_height l + 2 then
        (case r of
           Node rl rr rv _ \<Rightarrow>
             if node_height rr \<ge> node_height rl then new_Node (new_Node l rl v) rr rv
             else (case rl of
               Node rll rlr rlv _ \<Rightarrow> new_Node (new_Node l rll v) (new_Node rlr rr rv) rlv
             | Terminator \<Rightarrow> new_Node l r v)
         | Terminator \<Rightarrow> new_Node l r v)
      else new_Node l r v)"

fun itree_size :: "'v itree \<Rightarrow> nat" where
  "itree_size Terminator = 0"
| "itree_size (Node l r v h) = itree_size l + 1 + itree_size r"

text \<open>\<open>None\<close> stands for a pop from the empty tree, which would read the terminator's value.\<close>

fun popMin :: "'v itree \<Rightarrow> ('v \<times> 'v itree) option" where
  "popMin Terminator = None"
| "popMin (Node l r v h) =
     (if isTerminator l then Some (v, r)
      else map_option (\<lambda>(m, l'). (m, balance l' v r)) (popMin l))"

fun popMax :: "'v itree \<Rightarrow> ('v \<times> 'v itree) option" where
  "popMax Terminator = None"
| "popMax (Node l r v h) =
     (if isTerminator r then Some (v, l)
      else map_option (\<lambda>(m, r'). (m, balance l v r')) (popMax r))"

fun itree_insert :: "('v \<Rightarrow> 'k) \<Rightarrow> ('k \<Rightarrow> 'k \<Rightarrow> bool) \<Rightarrow> 'v \<Rightarrow> 'v itree \<Rightarrow> 'v itree" where
  "itree_insert kov cmp v Terminator = new_Node Terminator Terminator v"
| "itree_insert kov cmp v (Node l r x h) =
     (if cmp (kov v) (kov x) then balance (itree_insert kov cmp v l) x r
      else if cmp (kov x) (kov v) then balance l x (itree_insert kov cmp v r)
      else Node l r x h)"

fun itree_replace :: "('v \<Rightarrow> 'k) \<Rightarrow> ('k \<Rightarrow> 'k \<Rightarrow> bool) \<Rightarrow> 'v \<Rightarrow> 'v itree \<Rightarrow> 'v itree" where
  "itree_replace kov cmp v Terminator = new_Node Terminator Terminator v"
| "itree_replace kov cmp v (Node l r x h) =
     (if cmp (kov v) (kov x) then balance (itree_replace kov cmp v l) x r
      else if cmp (kov x) (kov v) then balance l x (itree_replace kov cmp v r)
      else new_Node l r v)"

fun itree_remove :: "('v \<Rightarrow> 'k) \<Rightarrow> ('k \<Rightarrow> 'k \<Rightarrow> bool) \<Rightarrow> 'k \<Rightarrow> 'v itree \<Rightarrow> 'v itree" where
  "itree_remove kov cmp k Terminator = Terminator"
| "itree_remove kov cmp k (Node l r x h) =
     (if cmp k (kov x) then balance (itree_remove kov cmp k l) x r
      else if cmp (kov x) k then balance l x (itree_remove kov cmp k r)
      else if isTerminator l then r
      else if isTerminator r then l
      else (case popMin r of Some (m, nr) \<Rightarrow> balance l m nr | None \<Rightarrow> l))"

section \<open>Queries\<close>

fun itree_count :: "('v \<Rightarrow> 'k) \<Rightarrow> ('k \<Rightarrow> 'k \<Rightarrow> bool) \<Rightarrow> 'k \<Rightarrow> 'v itree \<Rightarrow> nat" where
  "itree_count kov cmp k Terminator = 0"
| "itree_count kov cmp k (Node l r x h) =
     (if cmp k (kov x) then itree_count kov cmp k l
      else if cmp (kov x) k then itree_count kov cmp k r
      else 1)"

fun itree_lookup :: "('v \<Rightarrow> 'k) \<Rightarrow> ('k \<Rightarrow> 'k \<Rightarrow> bool) \<Rightarrow> 'k \<Rightarrow> 'v itree \<Rightarrow> 'v option" where
  "itree_lookup kov cmp k Terminator = None"
| "itree_lookup kov cmp k (Node l r x h) =
     (if cmp k (kov x) then itree_lookup kov cmp k l
      else if cmp (kov x) k then itree_lookup kov cmp k r
      else Some x)"

text \<open>The loop of \<^verbatim>\<open>lookup_previous\<close>; \<open>result\<close> is the last node passed on the right.\<close>

fun lookup_previous_loop ::
    "('v \<Rightarrow> 'k) \<Rightarrow> ('k \<Rightarrow> 'k \<Rightarrow> bool) \<Rightarrow> 'k \<Rightarrow> 'v itree \<Rightarrow> 'v option \<Rightarrow> 'v option" where
  "lookup_previous_loop kov cmp k Terminator result = result"
| "lookup_previous_loop kov cmp k (Node l r x h) result =
     (if cmp k (kov x) then lookup_previous_loop kov cmp k l result
      else if cmp (kov x) k then lookup_previous_loop kov cmp k r (Some x)
      else Some x)"

definition lookup_previous :: "('v \<Rightarrow> 'k) \<Rightarrow> ('k \<Rightarrow> 'k \<Rightarrow> bool) \<Rightarrow> 'k \<Rightarrow> 'v itree \<Rightarrow> 'v option" where
  "lookup_previous kov cmp k t = lookup_previous_loop kov cmp k t None"

fun itree_min :: "'v itree \<Rightarrow> 'v option" where
  "itree_min Terminator = None"
| "itree_min (Node l r v h) = (if isTerminator l then Some v else itree_min l)"

fun itree_max :: "'v itree \<Rightarrow> 'v option" where
  "itree_max Terminator = None"
| "itree_max (Node l r v h) = (if isTerminator r then Some v else itree_max r)"

section \<open>Iterators\<close>

text \<open>
  An iterator is a stack of nodes, the current one on top (here: first).  A
  \<^verbatim>\<open>FixedStack\<close> has the height of the root as its capacity; a push
  beyond it would write past the array and is \<open>None\<close>.
\<close>

record 'v iterator =
  it_root :: "'v itree"
  it_stack :: "'v itree list"

fun push_lefts :: "nat \<Rightarrow> 'v itree \<Rightarrow> 'v itree list \<Rightarrow> 'v itree list option" where
  "push_lefts cap Terminator s = Some s"
| "push_lefts cap (Node l r v h) s =
     (if length s < cap then push_lefts cap l (Node l r v h # s) else None)"

fun push_rights :: "nat \<Rightarrow> 'v itree \<Rightarrow> 'v itree list \<Rightarrow> 'v itree list option" where
  "push_rights cap Terminator s = Some s"
| "push_rights cap (Node l r v h) s =
     (if length s < cap then push_rights cap r (Node l r v h # s) else None)"

definition it_new :: "'v itree \<Rightarrow> bool \<Rightarrow> 'v iterator option" where
  "it_new root atBeginning =
     (if atBeginning
      then map_option (\<lambda>s. \<lparr>it_root = root, it_stack = s\<rparr>) (push_lefts (node_height root) root [])
      else Some \<lparr>it_root = root, it_stack = []\<rparr>)"

fun it_deref :: "'v iterator \<Rightarrow> 'v option" where
  "it_deref it = (case it_stack it of Node l r v h # s \<Rightarrow> Some v | _ \<Rightarrow> None)"

fun node_left :: "'v itree \<Rightarrow> 'v itree" where
  "node_left Terminator = Terminator"
| "node_left (Node l r v h) = l"

fun node_right :: "'v itree \<Rightarrow> 'v itree" where
  "node_right Terminator = Terminator"
| "node_right (Node l r v h) = r"

text \<open>Pop until the node above was reached from its left (right) child.\<close>

fun pop_from_right :: "'v itree \<Rightarrow> 'v itree list \<Rightarrow> 'v itree list" where
  "pop_from_right prev [] = []"
| "pop_from_right prev (n # s) = (if prev = node_left n then n # s else pop_from_right n s)"

fun pop_from_left :: "'v itree \<Rightarrow> 'v itree list \<Rightarrow> 'v itree list" where
  "pop_from_left prev [] = []"
| "pop_from_left prev (n # s) = (if prev = node_right n then n # s else pop_from_left n s)"

definition it_next :: "'v iterator \<Rightarrow> 'v iterator option" where
  "it_next it =
     (case it_stack it of
        [] \<Rightarrow> None
      | n # s \<Rightarrow>
          map_option (\<lambda>s'. it\<lparr>it_stack := s'\<rparr>)
            (if isTerminator (node_right n) then Some (pop_from_right n s)
             else push_lefts (node_height (it_root it)) (node_right n) (n # s)))"

definition it_prev :: "'v iterator \<Rightarrow> 'v iterator option" where
  "it_prev it =
     map_option (\<lambda>s'. it\<lparr>it_stack := s'\<rparr>)
       (case it_stack it of
          [] \<Rightarrow> push_rights (node_height (it_root it)) (it_root it) []
        | n # s \<Rightarrow>
            (if isTerminator (node_left n) then Some (pop_from_left n s)
             else push_rights (node_height (it_root it)) (node_left n) (n # s)))"

definition it_begin :: "'v itree \<Rightarrow> 'v iterator option" where
  "it_begin t = it_new t True"

definition it_end :: "'v itree \<Rightarrow> 'v iterator option" where
  "it_end t = it_new t False"

text \<open>The descent of \<^verbatim>\<open>lower_bound\<close>; the flag tells that the key was met.\<close>

fun lower_bound_loop ::
    "('v \<Rightarrow> 'k) \<Rightarrow> ('k \<Rightarrow> 'k \<Rightarrow> bool) \<Rightarrow> 'k \<Rightarrow> nat \<Rightarrow> 'v itree \<Rightarrow> 'v itree list \<Rightarrow>
     ('v itree list \<times> bool) option" where
  "lower_bound_loop kov cmp k cap Terminator s = Some (s, False)"
| "lower_bound_loop kov cmp k cap (Node l r x h) s =
     (if length s < cap then
        (if cmp k (kov x) then lower_bound_loop kov cmp k cap l (Node l r x h # s)
         else if cmp (kov x) k then lower_bound_loop kov cmp k cap r (Node l r x h # s)
         else Some (Node l r x h # s, True))
      else None)"

definition lower_bound :: "('v \<Rightarrow> 'k) \<Rightarrow> ('k \<Rightarrow> 'k \<Rightarrow> bool) \<Rightarrow> 'k \<Rightarrow> 'v itree \<Rightarrow> 'v iterator option" where
  "lower_bound kov cmp k t =
     do { (s, found) \<leftarrow> lower_bound_loop kov cmp k (node_height t) t [];
          let it = \<lparr>it_root = t, it_stack = s\<rparr> in
          if found then Some it
          else case it_deref it of
            Some x \<Rightarrow> if cmp (kov x) k then it_next it else Some it
          | None \<Rightarrow> Some it }"

definition itree_find :: "('v \<Rightarrow> 'k) \<Rightarrow> ('k \<Rightarrow> 'k \<Rightarrow> bool) \<Rightarrow> 'k \<Rightarrow> 'v itree \<Rightarrow> 'v iterator option" where
  "itree_find kov cmp k t =
     do { e \<leftarrow> it_end t;
          it \<leftarrow> lower_bound kov cmp k t;
          case it_deref it of
            Some x \<Rightarrow> Some (if it_stack it = it_stack e \<or> cmp k (kov x) then e else it)
          | None \<Rightarrow> Some e }"

definition upper_bound :: "('v \<Rightarrow> 'k) \<Rightarrow> ('k \<Rightarrow> 'k \<Rightarrow> bool) \<Rightarrow> 'k \<Rightarrow> 'v itree \<Rightarrow> 'v iterator option" where
  "upper_bound kov cmp k t =
     do { e \<leftarrow> it_end t;
          it \<leftarrow> lower_bound kov cmp k t;
          case it_deref it of
            Some x \<Rightarrow>
              if it_stack it \<noteq> it_stack e \<and> \<not> cmp k (kov x) then it_next it else Some it
          | None \<Rightarrow> Some it }"

section \<open>Invariants\<close>

fun inorder :: "'v itree \<Rightarrow> 'v list" where
  "inorder Terminator = []"
| "inorder (Node l r v h) = inorder l @ v # inorder r"

fun balanced :: "'v itree \<Rightarrow> bool" where
  "balanced Terminator = True"
| "balanced (Node l r v h) =
     (balanced l \<and> balanced r \<and> h = max (node_height l) (node_height r) + 1 \<and>
      node_height l \<le> node_height r + 2 \<and> node_height r \<le> node_height l + 2)"

lemma isTerminator_iff [simp]: "isTerminator t \<longleftrightarrow> t = Terminator"
  by (cases t) auto

lemma node_height_new [simp]: "node_height (new_Node l r v) = max (node_height l) (node_height r) + 1"
  by (simp add: new_Node_def)

lemma inorder_new [simp]: "inorder (new_Node l r v) = inorder l @ v # inorder r"
  by (simp add: new_Node_def)

lemma inorder_balance [simp]: "inorder (balance l v r) = inorder l @ v # inorder r"
  by (auto simp: balance_def split: itree.split)

lemma balanced_new [simp]:
  "balanced (new_Node l r v) \<longleftrightarrow>
     balanced l \<and> balanced r \<and> node_height l \<le> node_height r + 2 \<and> node_height r \<le> node_height l + 2"
  by (simp add: new_Node_def)

lemma height_pos [simp]: "balanced (Node l r v h) \<Longrightarrow> 0 < h"
  by simp

text \<open>
  Rebalancing restores the invariant when the heights differ by at most three,
  and the height drops by at most one.
\<close>

lemma balanced_balance:
  assumes "balanced l" "balanced r" "node_height l \<le> node_height r + 3" "node_height r \<le> node_height l + 3"
  shows "balanced (balance l v r)"
  using assms by (auto simp: balance_def max_def split!: itree.split if_splits)

lemma height_balance:
  assumes "balanced l" "balanced r" "node_height l \<le> node_height r + 3" "node_height r \<le> node_height l + 3"
  shows "node_height (balance l v r) \<le> max (node_height l) (node_height r) + 1"
    "max (node_height l) (node_height r) \<le> node_height (balance l v r)"
  using assms by (auto simp: balance_def max_def split!: itree.split if_splits)

lemma height_balance_eq:
  assumes "node_height l \<le> node_height r + 2" "node_height r \<le> node_height l + 2"
  shows "node_height (balance l v r) = max (node_height l) (node_height r) + 1"
  using assms by (simp add: balance_def)

text \<open>Replacing one side by a tree whose height differs by at most one.\<close>

lemma balance_grow:
  assumes "balanced (Node l r x h)"
  shows "balanced l' \<Longrightarrow> node_height l \<le> node_height l' \<Longrightarrow> node_height l' \<le> node_height l + 1 \<Longrightarrow>
      balanced (balance l' v r) \<and> h \<le> node_height (balance l' v r) \<and> node_height (balance l' v r) \<le> h + 1"
    "balanced r' \<Longrightarrow> node_height r \<le> node_height r' \<Longrightarrow> node_height r' \<le> node_height r + 1 \<Longrightarrow>
      balanced (balance l v r') \<and> h \<le> node_height (balance l v r') \<and> node_height (balance l v r') \<le> h + 1"
proof -
  show "balanced (balance l' v r) \<and> h \<le> node_height (balance l' v r) \<and> node_height (balance l' v r) \<le> h + 1"
    if "balanced l'" "node_height l \<le> node_height l'" "node_height l' \<le> node_height l + 1"
    using assms that balanced_balance [of l' r v] height_balance [of l' r v] height_balance_eq [of l' r v]
    by (cases "node_height l' \<le> node_height r + 2") auto
  show "balanced (balance l v r') \<and> h \<le> node_height (balance l v r') \<and> node_height (balance l v r') \<le> h + 1"
    if "balanced r'" "node_height r \<le> node_height r'" "node_height r' \<le> node_height r + 1"
    using assms that balanced_balance [of l r' v] height_balance [of l r' v] height_balance_eq [of l r' v]
    by (cases "node_height r' \<le> node_height l + 2") auto
qed

lemma balance_shrink:
  assumes "balanced (Node l r x h)"
  shows "balanced l' \<Longrightarrow> node_height l \<le> node_height l' + 1 \<Longrightarrow> node_height l' \<le> node_height l \<Longrightarrow>
      balanced (balance l' v r) \<and> h \<le> node_height (balance l' v r) + 1 \<and> node_height (balance l' v r) \<le> h"
    "balanced r' \<Longrightarrow> node_height r \<le> node_height r' + 1 \<Longrightarrow> node_height r' \<le> node_height r \<Longrightarrow>
      balanced (balance l v r') \<and> h \<le> node_height (balance l v r') + 1 \<and> node_height (balance l v r') \<le> h"
proof -
  show "balanced (balance l' v r) \<and> h \<le> node_height (balance l' v r) + 1 \<and> node_height (balance l' v r) \<le> h"
    if "balanced l'" "node_height l \<le> node_height l' + 1" "node_height l' \<le> node_height l"
    using assms that balanced_balance [of l' r v] height_balance [of l' r v] height_balance_eq [of l' r v]
    by (cases "node_height r \<le> node_height l' + 2") auto
  show "balanced (balance l v r') \<and> h \<le> node_height (balance l v r') + 1 \<and> node_height (balance l v r') \<le> h"
    if "balanced r'" "node_height r \<le> node_height r' + 1" "node_height r' \<le> node_height r"
    using assms that balanced_balance [of l r' v] height_balance [of l r' v] height_balance_eq [of l r' v]
    by (cases "node_height l \<le> node_height r' + 2") auto
qed

lemma popMin_Some: "t \<noteq> Terminator \<Longrightarrow> \<exists>m t'. popMin t = Some (m, t')"
  by (induction t) auto

lemma popMax_Some: "t \<noteq> Terminator \<Longrightarrow> \<exists>m t'. popMax t = Some (m, t')"
  by (induction t) auto

lemma inorder_popMin: "popMin t = Some (m, t') \<Longrightarrow> inorder t = m # inorder t'"
  by (induction t arbitrary: m t') (auto split: if_splits)

lemma inorder_popMax: "popMax t = Some (m, t') \<Longrightarrow> inorder t = inorder t' @ [m]"
  by (induction t arbitrary: m t') (auto split: if_splits)

lemma balanced_popMin:
  "popMin t = Some (m, t') \<Longrightarrow> balanced t \<Longrightarrow>
     balanced t' \<and> node_height t \<le> node_height t' + 1 \<and> node_height t' \<le> node_height t"
proof (induction t arbitrary: m t')
  case (Node l r v h)
  show ?case
  proof (cases "l = Terminator")
    case True
    then show ?thesis using Node by auto
  next
    case False
    with Node(3) obtain l' where "popMin l = Some (m, l')" "t' = balance l' v r" by auto
    with Node(1) [of m l'] Node(4) balance_shrink(1) [OF Node(4), of l' v] show ?thesis by simp
  qed
qed simp

lemma balanced_popMax:
  "popMax t = Some (m, t') \<Longrightarrow> balanced t \<Longrightarrow>
     balanced t' \<and> node_height t \<le> node_height t' + 1 \<and> node_height t' \<le> node_height t"
proof (induction t arbitrary: m t')
  case (Node l r v h)
  show ?case
  proof (cases "r = Terminator")
    case True
    then show ?thesis using Node by auto
  next
    case False
    with Node(3) obtain r' where "popMax r = Some (m, r')" "t' = balance l v r'" by auto
    with Node(2) [of m r'] Node(4) balance_shrink(2) [OF Node(4), of r' v] show ?thesis by simp
  qed
qed simp

lemma balanced_insert:
  "balanced t \<Longrightarrow> balanced (itree_insert kov cmp v t) \<and>
     node_height t \<le> node_height (itree_insert kov cmp v t) \<and>
     node_height (itree_insert kov cmp v t) \<le> node_height t + 1"
proof (induction t)
  case (Node l r x h)
  note g = balance_grow(1) [OF Node(3), of "itree_insert kov cmp v l" x]
    balance_grow(2) [OF Node(3), of "itree_insert kov cmp v r" x]
  show ?case using Node g by auto
qed simp

lemma balanced_replace:
  "balanced t \<Longrightarrow> balanced (itree_replace kov cmp v t) \<and>
     node_height t \<le> node_height (itree_replace kov cmp v t) \<and>
     node_height (itree_replace kov cmp v t) \<le> node_height t + 1"
proof (induction t)
  case (Node l r x h)
  note g = balance_grow(1) [OF Node(3), of "itree_replace kov cmp v l" x]
    balance_grow(2) [OF Node(3), of "itree_replace kov cmp v r" x]
  show ?case using Node g by auto
qed simp

lemma balanced_remove:
  "balanced t \<Longrightarrow> balanced (itree_remove kov cmp k t) \<and>
     node_height t \<le> node_height (itree_remove kov cmp k t) + 1 \<and>
     node_height (itree_remove kov cmp k t) \<le> node_height t"
proof (induction t)
  case (Node l r x h)
  note g = balance_shrink(1) [OF Node(3), of "itree_remove kov cmp k l" x]
    balance_shrink(2) [OF Node(3), of "itree_remove kov cmp k r" x]
  have "balanced (balance l m nr) \<and> h \<le> node_height (balance l m nr) + 1 \<and> node_height (balance l m nr) \<le> h"
    if "popMin r = Some (m, nr)" for m nr
    using balanced_popMin [OF that] Node(3) balance_shrink(2) [OF Node(3), of nr m] by simp
  then show ?case
    using Node g popMin_Some [of r] by (auto split: option.split)
qed simp

text \<open>A balanced tree has logarithmic height: the number of values grows with the height.\<close>

fun min_nodes :: "nat \<Rightarrow> nat" where
  "min_nodes 0 = 0"
| "min_nodes (Suc 0) = 1"
| "min_nodes (Suc (Suc 0)) = 2"
| "min_nodes (Suc (Suc (Suc n))) = min_nodes (Suc (Suc n)) + min_nodes n + 1"

lemma itree_size_inorder: "itree_size t = length (inorder t)"
  by (induction t) auto

lemma min_nodes_mono_Suc: "min_nodes n \<le> min_nodes (Suc n)"
  by (induction n rule: min_nodes.induct) auto

lemma min_nodes_mono: "m \<le> n \<Longrightarrow> min_nodes m \<le> min_nodes n"
  by (rule lift_Suc_mono_le [of min_nodes]) (auto simp: min_nodes_mono_Suc)

lemma balanced_min_nodes: "balanced t \<Longrightarrow> min_nodes (node_height t) \<le> itree_size t"
proof (induction t)
  case (Node l r v h)
  have m: "min_nodes (node_height l) \<le> itree_size l" "min_nodes (node_height r) \<le> itree_size r"
    using Node by auto
  show ?case
  proof (cases "h \<ge> 3")
    case True
    then have "h = Suc (Suc (Suc (h - 3)))" by simp
    then obtain n where h: "h = Suc (Suc (Suc n))" by (rule that)
    with Node(3) have "node_height l = Suc (Suc n) \<and> n \<le> node_height r \<or>
        node_height r = Suc (Suc n) \<and> n \<le> node_height l" by auto
    then show ?thesis
    proof
      assume a: "node_height l = Suc (Suc n) \<and> n \<le> node_height r"
      with min_nodes_mono [of n "node_height r"] m have "min_nodes n \<le> itree_size r" by linarith
      with a m(1) show ?thesis by (simp add: h)
    next
      assume a: "node_height r = Suc (Suc n) \<and> n \<le> node_height l"
      with min_nodes_mono [of n "node_height l"] m have "min_nodes n \<le> itree_size l" by linarith
      with a m(2) show ?thesis by (simp add: h)
    qed
  next
    case False
    with Node(3) have "h = 1 \<or> h = 2 \<and> (node_height l = 1 \<or> node_height r = 1)" by auto
    then show ?thesis using m by (auto simp: numeral_2_eq_2)
  qed
qed simp

section \<open>The tree as an ordered sequence\<close>

definition ordered :: "('v \<Rightarrow> 'r::linorder) \<Rightarrow> 'v itree \<Rightarrow> bool" where
  "ordered f t \<longleftrightarrow> sorted_wrt (<) (map f (inorder t))"

lemma ordered_Terminator [simp]: "ordered f Terminator"
  by (simp add: ordered_def)

lemma ordered_Node [simp]:
  "ordered f (Node l r v h) \<longleftrightarrow>
     ordered f l \<and> ordered f r \<and> (\<forall>x \<in> set (inorder l). f x < f v) \<and> (\<forall>x \<in> set (inorder r). f v < f x)"
  by (auto simp: ordered_def sorted_wrt_append intro: less_trans)

text \<open>Filters by rank on the two sides of a node.\<close>

lemma filter_lower:
  assumes "\<forall>x \<in> set xs. f x < a" "a \<le> (c::'r::linorder)"
  shows "filter (\<lambda>x. f x < c) xs = xs" "filter (\<lambda>x. c < f x) xs = []" "filter (\<lambda>x. f x \<noteq> c) xs = xs"
    "filter (\<lambda>x. f x \<le> c) xs = xs" "filter (\<lambda>x. c \<le> f x) xs = []" "filter (\<lambda>x. f x = c) xs = []"
  using assms by (fastforce intro!: filter_True filter_False)+

lemma filter_upper:
  assumes "\<forall>x \<in> set xs. a < f x" "(c::'r::linorder) \<le> a"
  shows "filter (\<lambda>x. c < f x) xs = xs" "filter (\<lambda>x. f x < c) xs = []" "filter (\<lambda>x. f x \<noteq> c) xs = xs"
    "filter (\<lambda>x. f x \<le> c) xs = []" "filter (\<lambda>x. c \<le> f x) xs = xs" "filter (\<lambda>x. f x = c) xs = []"
  using assms by (fastforce intro!: filter_True filter_False)+

text \<open>
  The interface to the key type: the comparison orders keys by a rank in a
  linear order.  Two keys of equal rank are the same key to the tree.
\<close>

locale key_order =
  fixes kov :: "'v \<Rightarrow> 'k" and cmp :: "'k \<Rightarrow> 'k \<Rightarrow> bool" and rank :: "'k \<Rightarrow> 'r::linorder"
  assumes cmp_rank: "cmp a b \<longleftrightarrow> rank a < rank b"
begin

lemma inorder_insert:
  assumes "ordered (\<lambda>v. rank (kov v)) t"
  shows "inorder (itree_insert kov cmp v t) =
    (if rank (kov v) \<in> (\<lambda>x. rank (kov x)) ` set (inorder t) then inorder t
     else filter (\<lambda>x. rank (kov x) < rank (kov v)) (inorder t) @
       v # filter (\<lambda>x. rank (kov v) < rank (kov x)) (inorder t))"
  using assms
proof (induction t)
  case (Node l r x h)
  consider "rank (kov v) < rank (kov x)" | "rank (kov x) < rank (kov v)" | "rank (kov v) = rank (kov x)"
    by (rule linorder_cases)
  then show ?case
    using Node
    by cases (auto simp: cmp_rank filter_lower [where a = "rank (kov x)"] filter_upper [where a = "rank (kov x)"])
qed simp

lemma inorder_replace:
  assumes "ordered (\<lambda>v. rank (kov v)) t"
  shows "inorder (itree_replace kov cmp v t) =
    filter (\<lambda>x. rank (kov x) < rank (kov v)) (inorder t) @
      v # filter (\<lambda>x. rank (kov v) < rank (kov x)) (inorder t)"
  using assms
proof (induction t)
  case (Node l r x h)
  consider "rank (kov v) < rank (kov x)" | "rank (kov x) < rank (kov v)" | "rank (kov v) = rank (kov x)"
    by (rule linorder_cases)
  then show ?case
    using Node
    by cases (auto simp: cmp_rank filter_lower [where a = "rank (kov x)"] filter_upper [where a = "rank (kov x)"])
qed simp

lemma inorder_remove:
  assumes "ordered (\<lambda>v. rank (kov v)) t"
  shows "inorder (itree_remove kov cmp k t) = filter (\<lambda>x. rank (kov x) \<noteq> rank k) (inorder t)"
  using assms
proof (induction t)
  case (Node l r x h)
  have pop: "inorder (balance l m nr) = inorder l @ inorder r" if "popMin r = Some (m, nr)" for m nr
    using inorder_popMin [OF that] by simp
  consider "rank k < rank (kov x)" | "rank (kov x) < rank k" | "rank k = rank (kov x)"
    by (rule linorder_cases)
  then show ?case
    using Node pop popMin_Some [of r]
    by cases (auto simp: cmp_rank filter_lower [where a = "rank (kov x)"]
        filter_upper [where a = "rank (kov x)"] split: option.split)
qed simp

lemma lookup_inorder:
  assumes "ordered (\<lambda>v. rank (kov v)) t"
  shows "itree_lookup kov cmp k t = find (\<lambda>x. rank (kov x) = rank k) (inorder t)"
  using assms
proof (induction t)
  case (Node l r x h)
  have none: "find P xs = None" if "filter P xs = []" for P :: "'v \<Rightarrow> bool" and xs
    using that by (induction xs) (auto split: if_splits)
  have app: "find P (xs @ ys) = (case find P xs of None \<Rightarrow> find P ys | Some z \<Rightarrow> Some z)" for P :: "'v \<Rightarrow> bool" and xs ys
    by (induction xs) auto
  consider "rank k < rank (kov x)" | "rank (kov x) < rank k" | "rank k = rank (kov x)"
    by (rule linorder_cases)
  then show ?case
    using Node
    by cases (auto simp: cmp_rank app none filter_lower [where a = "rank (kov x)"]
        filter_upper [where a = "rank (kov x)"] split: option.split)
qed simp

lemma lookup_previous_loop_inorder:
  assumes "ordered (\<lambda>v. rank (kov v)) t"
  shows "lookup_previous_loop kov cmp k t res =
    (case rev (filter (\<lambda>x. rank (kov x) \<le> rank k) (inorder t)) of [] \<Rightarrow> res | x # _ \<Rightarrow> Some x)"
  using assms
proof (induction t arbitrary: res)
  case (Node l r x h)
  consider "rank k < rank (kov x)" | "rank (kov x) < rank k" | "rank k = rank (kov x)"
    by (rule linorder_cases)
  then show ?case
    using Node
    by cases (auto simp: cmp_rank filter_lower [where a = "rank (kov x)"]
        filter_upper [where a = "rank (kov x)"] split: list.split)
qed simp

lemma ordered_insert:
  assumes "ordered (\<lambda>v. rank (kov v)) t"
  shows "ordered (\<lambda>v. rank (kov v)) (itree_insert kov cmp v t)"
  using assms unfolding ordered_def inorder_insert [OF assms]
  by (auto simp: sorted_wrt_append sorted_wrt_map intro: sorted_wrt_filter less_trans)

lemma ordered_replace:
  assumes "ordered (\<lambda>v. rank (kov v)) t"
  shows "ordered (\<lambda>v. rank (kov v)) (itree_replace kov cmp v t)"
  using assms unfolding ordered_def inorder_replace [OF assms]
  by (auto simp: sorted_wrt_append sorted_wrt_map intro: sorted_wrt_filter less_trans)

lemma ordered_remove:
  assumes "ordered (\<lambda>v. rank (kov v)) t"
  shows "ordered (\<lambda>v. rank (kov v)) (itree_remove kov cmp k t)"
  using assms unfolding ordered_def inorder_remove [OF assms]
  by (simp add: sorted_wrt_map sorted_wrt_filter)

lemma count_lookup: "itree_count kov cmp k t = (if itree_lookup kov cmp k t = None then 0 else 1)"
  by (induction t) auto

end

section \<open>What an iterator has still to visit\<close>

fun node_vals :: "'v itree \<Rightarrow> 'v list" where
  "node_vals Terminator = []"
| "node_vals (Node l r v h) = [v]"

text \<open>A stack is a path from the root down to the current node.\<close>

fun path :: "'v itree \<Rightarrow> 'v itree list \<Rightarrow> bool" where
  "path root [] = True"
| "path root [n] = (n = root \<and> n \<noteq> Terminator)"
| "path root (n # p # s) = (n \<noteq> Terminator \<and> (n = node_left p \<or> n = node_right p) \<and> path root (p # s))"

text \<open>The values after and before the subtree \<open>prev\<close> below the stack \<open>s\<close>.\<close>

fun rest_above :: "'v itree \<Rightarrow> 'v itree list \<Rightarrow> 'v list" where
  "rest_above prev [] = []"
| "rest_above prev (n # s) =
     (if prev = node_left n then node_vals n @ inorder (node_right n) else []) @ rest_above n s"

fun before_above :: "'v itree \<Rightarrow> 'v itree list \<Rightarrow> 'v list" where
  "before_above prev [] = []"
| "before_above prev (n # s) =
     before_above n s @ (if prev = node_left n then [] else inorder (node_left n) @ node_vals n)"

fun stack_rest :: "'v itree list \<Rightarrow> 'v list" where
  "stack_rest [] = []"
| "stack_rest (n # s) = node_vals n @ inorder (node_right n) @ rest_above n s"

definition it_rest :: "'v iterator \<Rightarrow> 'v list" where
  "it_rest it = stack_rest (it_stack it)"

definition it_valid :: "'v iterator \<Rightarrow> bool" where
  "it_valid it \<longleftrightarrow> path (it_root it) (it_stack it)"

text \<open>No node has two equal children: so a child is the left one or the right one.\<close>

fun no_twins :: "'v itree \<Rightarrow> bool" where
  "no_twins Terminator = True"
| "no_twins (Node l r v h) = ((l = r \<longrightarrow> l = Terminator) \<and> no_twins l \<and> no_twins r)"

lemma inorder_Nil [simp]: "inorder t = [] \<longleftrightarrow> t = Terminator"
  by (cases t) auto

lemma ordered_no_twins: "ordered f t \<Longrightarrow> no_twins t"
proof (induction t)
  case (Node l r v h)
  have "l = Terminator" if "l = r"
  proof (rule ccontr)
    assume "l \<noteq> Terminator"
    then obtain x where "x \<in> set (inorder l)" by (metis inorder_Nil list.set_intros(1) neq_Nil_conv)
    with Node(3) that have "f x < f v" "f v < f x" by auto
    then show False by simp
  qed
  with Node show ?case by simp
qed simp

lemma inorder_parts: "t \<noteq> Terminator \<Longrightarrow> inorder t = inorder (node_left t) @ node_vals t @ inorder (node_right t)"
  by (cases t) auto

lemma path_inorder:
  "path root (n # s) \<Longrightarrow> before_above n s @ inorder n @ rest_above n s = inorder root"
proof (induction s arbitrary: n)
  case (Cons p s)
  then have "before_above p s @ inorder p @ rest_above p s = inorder root" "p \<noteq> Terminator"
    by (cases s; auto)+
  with Cons(2) show ?case by (auto simp: inorder_parts [of p])
qed simp

lemma path_no_twins: "path root (n # s) \<Longrightarrow> no_twins root \<Longrightarrow> no_twins n"
proof (induction s arbitrary: n)
  case (Cons p s)
  then have "no_twins p" by simp
  with Cons(2) show ?case by (cases p) auto
qed simp

lemma path_balanced: "path root (n # s) \<Longrightarrow> balanced root \<Longrightarrow> balanced n \<and> length s + node_height n \<le> node_height root"
proof (induction s arbitrary: n)
  case (Cons p s)
  then have "balanced p \<and> length s + node_height p \<le> node_height root" by simp
  with Cons(2) show ?case by (cases p) auto
qed simp

lemma push_lefts_ok:
  assumes "path root (t # s)" "balanced root"
  shows "\<exists>s'. push_lefts (node_height root) t s = Some s' \<and> path root s' \<and> s' \<noteq> [] \<and>
    stack_rest s' = inorder t @ rest_above t s"
  using assms
proof (induction t arbitrary: s)
  case Terminator
  then show ?case by (cases s) auto
next
  case (Node l r v h)
  from path_balanced [OF Node(3,4)] have len: "length s < node_height root" by simp
  show ?case
  proof (cases "l = Terminator")
    case True
    then show ?thesis using Node(3) len by simp
  next
    case False
    then have "path root (l # Node l r v h # s)" using Node(3) by simp
    from Node(1) [OF this Node(4)] len show ?thesis by auto
  qed
qed

lemma pop_from_right_ok:
  "path root (n # s) \<Longrightarrow> path root (pop_from_right n s) \<and> stack_rest (pop_from_right n s) = rest_above n s"
proof (induction s arbitrary: n)
  case (Cons p s)
  then have "path root (p # s)" by simp
  with Cons(1) show ?case by simp
qed simp

text \<open>Advancing drops the first value and stays within the capacity of the stack.\<close>

lemma it_next_ok:
  assumes "it_valid it" "balanced (it_root it)" "no_twins (it_root it)" "it_stack it \<noteq> []"
  shows "\<exists>it'. it_next it = Some it' \<and> it_valid it' \<and> it_root it' = it_root it \<and> it_rest it' = tl (it_rest it)"
proof -
  obtain n s where ns: "it_stack it = n # s" using assms(4) by (cases "it_stack it") auto
  with assms(1) have p: "path (it_root it) (n # s)" by (simp add: it_valid_def)
  then have n: "n \<noteq> Terminator" by (cases s) auto
  show ?thesis
  proof (cases "node_right n = Terminator")
    case True
    then show ?thesis
      using pop_from_right_ok [OF p] n ns by (cases n) (auto simp: it_next_def it_valid_def it_rest_def)
  next
    case False
    then have p': "path (it_root it) (node_right n # n # s)" using p n by (cases n) auto
    have twin: "node_right n \<noteq> node_left n"
      using path_no_twins [OF p assms(3)] False n by (cases n) auto
    from push_lefts_ok [OF p' assms(2)] False ns twin n show ?thesis
      by (cases n) (auto simp: it_next_def it_valid_def it_rest_def)
  qed
qed

lemma it_begin_ok:
  assumes "balanced t"
  shows "\<exists>it. it_begin t = Some it \<and> it_valid it \<and> it_root it = t \<and> it_rest it = inorder t"
proof (cases "t = Terminator")
  case True
  then show ?thesis by (simp add: it_begin_def it_new_def it_valid_def it_rest_def)
next
  case False
  then have "path t [t]" by simp
  from push_lefts_ok [OF this assms] show ?thesis
    by (auto simp: it_begin_def it_new_def it_valid_def it_rest_def)
qed

lemma it_end_ok: "\<exists>it. it_end t = Some it \<and> it_valid it \<and> it_root it = t \<and> it_rest it = [] \<and> it_stack it = []"
  by (simp add: it_end_def it_new_def it_valid_def it_rest_def)

lemma it_deref_rest:
  assumes "it_valid it"
  shows "it_deref it = (case it_rest it of [] \<Rightarrow> None | x # _ \<Rightarrow> Some x)"
    "it_rest it = [] \<longleftrightarrow> it_stack it = []"
proof -
  have "it_deref it = (case it_rest it of [] \<Rightarrow> None | x # _ \<Rightarrow> Some x) \<and> (it_rest it = [] \<longleftrightarrow> it_stack it = [])"
  proof (cases "it_stack it")
    case (Cons n s)
    with assms have "n \<noteq> Terminator" by (cases s) (auto simp: it_valid_def)
    with Cons show ?thesis by (cases n) (auto simp: it_rest_def)
  qed (simp add: it_rest_def)
  then show "it_deref it = (case it_rest it of [] \<Rightarrow> None | x # _ \<Rightarrow> Some x)"
    "it_rest it = [] \<longleftrightarrow> it_stack it = []" by auto
qed


text \<open>Stepping back puts the value before the current one in front; from the first value it leads to the end.\<close>

definition it_before :: "'v iterator \<Rightarrow> 'v list" where
  "it_before it =
     (case it_stack it of [] \<Rightarrow> inorder (it_root it) | n # s \<Rightarrow> before_above n s @ inorder (node_left n))"

lemma it_before_rest: "it_valid it \<Longrightarrow> it_before it @ it_rest it = inorder (it_root it)"
proof (cases "it_stack it")
  case (Cons n s)
  assume "it_valid it"
  with Cons have p: "path (it_root it) (n # s)" by (simp add: it_valid_def)
  then have "n \<noteq> Terminator" by (cases s) auto
  with path_inorder [OF p] Cons show ?thesis
    by (simp add: it_before_def it_rest_def inorder_parts)
qed (simp add: it_before_def it_rest_def)

lemma push_rights_ok:
  assumes "path root (t # s)" "balanced root" "no_twins root"
  shows "\<exists>s'. push_rights (node_height root) t s = Some s' \<and> path root s' \<and>
    stack_rest s' = last (inorder t) # rest_above t s"
  using assms
proof (induction t arbitrary: s)
  case Terminator
  then show ?case by (cases s) auto
next
  case (Node l r v h)
  from path_balanced [OF Node(3,4)] have len: "length s < node_height root" by simp
  show ?case
  proof (cases "r = Terminator")
    case True
    then show ?thesis using Node(3) len by simp
  next
    case False
    then have p: "path root (r # Node l r v h # s)" using Node(3) by simp
    have "r \<noteq> l" using path_no_twins [OF Node(3,5)] False by auto
    with Node(2) [OF p Node(4,5)] len False show ?thesis by auto
  qed
qed

lemma pop_from_left_ok:
  "path root (n # s) \<Longrightarrow> no_twins root \<Longrightarrow> path root (pop_from_left n s) \<and>
     (if pop_from_left n s = [] then before_above n s = []
      else before_above n s \<noteq> [] \<and>
        stack_rest (pop_from_left n s) = last (before_above n s) # inorder n @ rest_above n s)"
proof (induction s arbitrary: n)
  case (Cons p s)
  then have p: "path root (p # s)" and n: "n \<noteq> Terminator" "n = node_left p \<or> n = node_right p" by simp_all
  then have "p \<noteq> Terminator" by (cases s) auto
  with path_no_twins [OF p Cons(3)] n have twin: "n = node_right p \<Longrightarrow> n \<noteq> node_left p" by (cases p) auto
  have vals: "\<exists>v. node_vals p = [v]" using \<open>p \<noteq> Terminator\<close> by (cases p) auto
  show ?case
  proof (cases "n = node_right p")
    case True
    then show ?thesis using twin p vals by auto
  next
    case False
    with n have "n = node_left p" by simp
    with Cons(1) [OF p Cons(3)] False \<open>p \<noteq> Terminator\<close> show ?thesis by (auto simp: inorder_parts [of p])
  qed
qed simp

lemma it_prev_ok:
  assumes "it_valid it" "balanced (it_root it)" "no_twins (it_root it)"
  shows "\<exists>it'. it_prev it = Some it' \<and> it_valid it' \<and> it_root it' = it_root it \<and>
    it_rest it' = (if it_before it = [] then [] else last (it_before it) # it_rest it)"
proof (cases "it_stack it")
  case Nil
  show ?thesis
  proof (cases "it_root it = Terminator")
    case True
    then show ?thesis using Nil by (simp add: it_prev_def it_valid_def it_rest_def it_before_def)
  next
    case False
    then have "path (it_root it) [it_root it]" by simp
    from push_rights_ok [OF this assms(2,3)] False Nil show ?thesis
      by (auto simp: it_prev_def it_valid_def it_rest_def it_before_def)
  qed
next
  case (Cons n s)
  with assms(1) have p: "path (it_root it) (n # s)" by (simp add: it_valid_def)
  then have n: "n \<noteq> Terminator" by (cases s) auto
  show ?thesis
  proof (cases "node_left n = Terminator")
    case True
    with pop_from_left_ok [OF p assms(3)] n Cons show ?thesis
      by (auto simp: it_prev_def it_valid_def it_rest_def it_before_def inorder_parts [of n] split: if_splits)
  next
    case False
    then have "path (it_root it) (node_left n # n # s)" using p by simp
    from push_rights_ok [OF this assms(2,3)] False Cons n show ?thesis
      by (auto simp: it_prev_def it_valid_def it_rest_def it_before_def)
  qed
qed

context key_order
begin

lemma lower_bound_loop_ok:
  assumes "path root (t # s)" "balanced root" "no_twins root" "ordered (\<lambda>v. rank (kov v)) t"
    and "\<forall>x \<in> set (before_above t s). rank (kov x) < rank k"
    and "\<forall>x \<in> set (rest_above t s). rank k < rank (kov x)"
  shows "\<exists>n s' found. lower_bound_loop kov cmp k (node_height root) t s = Some (n # s', found) \<and>
    path root (n # s') \<and>
    (\<forall>x \<in> set (before_above n s' @ inorder (node_left n)). rank (kov x) < rank k) \<and>
    (\<forall>x \<in> set (inorder (node_right n) @ rest_above n s'). rank k < rank (kov x)) \<and>
    found = (\<forall>x \<in> set (node_vals n). rank (kov x) = rank k)"
  using assms
proof (induction t arbitrary: s)
  case Terminator
  then show ?case by (cases s) auto
next
  case (Node l r x h)
  from path_balanced [OF Node(3,4)] have len: "length s < node_height root" by simp
  have twin: "l = r \<Longrightarrow> l = Terminator" using path_no_twins [OF Node(3,5)] by simp
  have l: "\<forall>y \<in> set (inorder l). rank (kov y) < rank (kov x)" "ordered (\<lambda>v. rank (kov v)) l"
    and r: "\<forall>y \<in> set (inorder r). rank (kov x) < rank (kov y)" "ordered (\<lambda>v. rank (kov v)) r"
    using Node(6) by simp_all
  consider (lt) "rank k < rank (kov x)" | (gt) "rank (kov x) < rank k" | (eq) "rank k = rank (kov x)"
    by (rule linorder_cases)
  then show ?case
  proof cases
    case lt
    have r': "\<forall>y \<in> set (inorder r). rank k < rank (kov y)" using r(1) lt less_trans by blast
    show ?thesis
    proof (cases "l = Terminator")
      case True
      with lt len Node(3,7,8) r' show ?thesis by (simp add: cmp_rank ball_Un)
    next
      case False
      then have p: "path root (l # Node l r x h # s)" using Node(3) by simp
      have "\<forall>y \<in> set (rest_above l (Node l r x h # s)). rank k < rank (kov y)" using r' lt Node(8) by (simp add: ball_Un)
      from Node(1) [OF p Node(4,5) l(2) _ this] lt len Node(7) show ?thesis by (simp add: cmp_rank)
    qed
  next
    case gt
    have l': "\<forall>y \<in> set (inorder l). rank (kov y) < rank k" using l(1) gt less_trans by blast
    have g: "\<not> rank k < rank (kov x)" "rank (kov x) \<noteq> rank k" using gt by auto
    show ?thesis
    proof (cases "r = Terminator")
      case True
      with gt g len Node(3,7,8) l' show ?thesis by (simp add: cmp_rank ball_Un)
    next
      case False
      then have p: "path root (r # Node l r x h # s)" and "r \<noteq> l" using Node(3) twin by auto
      have "\<forall>y \<in> set (before_above r (Node l r x h # s)). rank (kov y) < rank k"
        using l' gt Node(7) \<open>r \<noteq> l\<close> by (simp add: ball_Un)
      from Node(2) [OF p Node(4,5) r(2) this] gt g len Node(8) \<open>r \<noteq> l\<close> show ?thesis by (simp add: cmp_rank)
    qed
  next
    case eq
    with len Node(3,7,8) l(1) r(1) show ?thesis by (simp add: cmp_rank ball_Un)
  qed
qed

lemma lower_bound_ok:
  assumes "balanced t" "ordered (\<lambda>v. rank (kov v)) t"
  shows "\<exists>it. lower_bound kov cmp k t = Some it \<and> it_valid it \<and> it_root it = t \<and>
    it_rest it = filter (\<lambda>x. rank k \<le> rank (kov x)) (inorder t)"
proof (cases "t = Terminator")
  case True
  then show ?thesis by (simp add: lower_bound_def it_valid_def it_rest_def)
next
  case False
  note twins = ordered_no_twins [OF assms(2)]
  from False have "path t [t]" by simp
  from lower_bound_loop_ok [OF this assms(1) twins assms(2), of k] obtain n s found where
    loop: "lower_bound_loop kov cmp k (node_height t) t [] = Some (n # s, found)" and p: "path t (n # s)" and
    L: "\<forall>x \<in> set (before_above n s @ inorder (node_left n)). rank (kov x) < rank k" and
    R: "\<forall>x \<in> set (inorder (node_right n) @ rest_above n s). rank k < rank (kov x)" and
    f: "found = (\<forall>x \<in> set (node_vals n). rank (kov x) = rank k)" by auto
  obtain l r v h where n: "n = Node l r v h" using p by (cases n; cases s) auto
  define it where "it = \<lparr>it_root = t, it_stack = n # s\<rparr>"
  have it: "it_valid it" "it_root it = t" "it_stack it \<noteq> []" "it_deref it = Some v"
    using p n by (simp_all add: it_def it_valid_def)
  have rest: "it_rest it = v # (inorder r @ rest_above n s)" by (simp add: it_def it_rest_def n)
  have "inorder t = (before_above n s @ inorder l) @ v # (inorder r @ rest_above n s)"
    using path_inorder [OF p] by (simp add: n)
  moreover have "filter (\<lambda>x. rank k \<le> rank (kov x)) (before_above n s @ inorder l) = []"
    using L by (intro filter_lower(5) [of _ _ "rank k"]) (simp_all add: n)
  moreover have "filter (\<lambda>x. rank k \<le> rank (kov x)) (inorder r @ rest_above n s) = inorder r @ rest_above n s"
    using R by (intro filter_upper(5) [of _ "rank k"]) (simp_all add: n)
  ultimately have flt: "filter (\<lambda>x. rank k \<le> rank (kov x)) (inorder t) =
      (if rank k \<le> rank (kov v) then [v] else []) @ inorder r @ rest_above n s" by simp
  show ?thesis
  proof (cases "rank (kov v) < rank k")
    case True
    with f n have "\<not> found" by auto
    with it_next_ok [OF it(1)] it assms(1) twins loop True rest flt show ?thesis
      by (auto simp: lower_bound_def cmp_rank it_def [symmetric])
  next
    case False
    with it loop rest flt show ?thesis by (cases found) (simp_all add: lower_bound_def cmp_rank it_def [symmetric])
  qed
qed

text \<open>The values the iterator of \<open>lower_bound\<close> has to visit, by whether the key is in the tree.\<close>

lemma filter_rank_le:
  assumes "ordered (\<lambda>v. rank (kov v)) t"
  shows "filter (\<lambda>x. rank k \<le> rank (kov x)) (inorder t) =
    (case itree_lookup kov cmp k t of None \<Rightarrow> [] | Some v \<Rightarrow> [v]) @ filter (\<lambda>x. rank k < rank (kov x)) (inorder t)"
proof -
  have "filter (\<lambda>x. rank k \<le> rank (kov x)) xs =
      (case List.find (\<lambda>x. rank (kov x) = rank k) xs of None \<Rightarrow> [] | Some v \<Rightarrow> [v]) @
      filter (\<lambda>x. rank k < rank (kov x)) xs"
    if "sorted_wrt (<) (map (\<lambda>v. rank (kov v)) xs)" for xs
    using that
  proof (induction xs)
    case (Cons a xs)
    consider (lt) "rank (kov a) < rank k" | (eq) "rank (kov a) = rank k" | (gt) "rank k < rank (kov a)"
      by (rule linorder_cases)
    then show ?case
    proof cases
      case lt
      with Cons show ?thesis by auto
    next
      case eq
      with Cons have "\<forall>x \<in> set xs. rank k < rank (kov x)" by auto
      with eq have "filter (\<lambda>x. rank k \<le> rank (kov x)) xs = xs" "filter (\<lambda>x. rank k < rank (kov x)) xs = xs"
        by (auto intro: filter_True less_imp_le)
      with eq show ?thesis by simp
    next
      case gt
      with Cons have "\<forall>x \<in> set xs. rank k < rank (kov x)" by auto
      then have "List.find (\<lambda>x. rank (kov x) = rank k) xs = None" by (auto simp: find_None_iff)
      with gt Cons show ?thesis by auto
    qed
  qed simp
  from this [of "inorder t"] assms show ?thesis by (simp add: lookup_inorder ordered_def)
qed

lemma lookup_rank: "itree_lookup kov cmp k t = Some v \<Longrightarrow> rank (kov v) = rank k"
  by (induction t) (auto simp: cmp_rank split: if_splits)

lemma lower_bound_cases:
  assumes "balanced t" "ordered (\<lambda>v. rank (kov v)) t"
  obtains (absent) it where "lower_bound kov cmp k t = Some it" "it_valid it" "it_root it = t"
      "it_rest it = filter (\<lambda>x. rank k < rank (kov x)) (inorder t)" "itree_lookup kov cmp k t = None"
      "\<And>x. it_deref it = Some x \<Longrightarrow> cmp k (kov x)"
  | (present) it v where "lower_bound kov cmp k t = Some it" "it_valid it" "it_root it = t"
      "it_rest it = v # filter (\<lambda>x. rank k < rank (kov x)) (inorder t)" "itree_lookup kov cmp k t = Some v"
      "\<not> cmp k (kov v)" "it_deref it = Some v" "it_stack it \<noteq> []"
proof -
  obtain it where it: "lower_bound kov cmp k t = Some it" "it_valid it" "it_root it = t"
    "it_rest it = filter (\<lambda>x. rank k \<le> rank (kov x)) (inorder t)"
    using lower_bound_ok [OF assms] by blast
  note deref = it_deref_rest [OF it(2)]
  show ?thesis
  proof (cases "itree_lookup kov cmp k t")
    case None
    with filter_rank_le [OF assms(2), of k] it(4)
    have rest: "it_rest it = filter (\<lambda>x. rank k < rank (kov x)) (inorder t)" by simp
    have "cmp k (kov x)" if "it_deref it = Some x" for x
    proof -
      from that obtain xs where "it_rest it = x # xs" unfolding deref(1) by (cases "it_rest it") auto
      then have "x \<in> set (it_rest it)" by simp
      then show ?thesis unfolding rest by (simp add: cmp_rank)
    qed
    with it rest None show ?thesis by (intro absent)
  next
    case (Some v)
    with filter_rank_le [OF assms(2), of k] it(4)
    have rest: "it_rest it = v # filter (\<lambda>x. rank k < rank (kov x)) (inorder t)" by simp
    moreover have "\<not> cmp k (kov v)" using lookup_rank [OF Some] by (simp add: cmp_rank)
    moreover have "it_deref it = Some v" "it_stack it \<noteq> []"
      using deref(2) unfolding deref(1) rest by auto
    ultimately show ?thesis using it(1-3) Some by (intro present)
  qed
qed

lemma upper_bound_ok:
  assumes "balanced t" "ordered (\<lambda>v. rank (kov v)) t"
  shows "\<exists>it. upper_bound kov cmp k t = Some it \<and> it_valid it \<and> it_root it = t \<and>
    it_rest it = filter (\<lambda>x. rank k < rank (kov x)) (inorder t)"
  using assms
proof (cases rule: lower_bound_cases [of t k])
  case (absent it)
  then show ?thesis
    by (cases "it_deref it") (simp_all add: upper_bound_def it_end_def it_new_def del: it_deref.simps)
next
  case (present it v)
  with it_next_ok [of it] assms ordered_no_twins [OF assms(2)] show ?thesis
    by (simp add: upper_bound_def it_end_def it_new_def del: it_deref.simps)
qed

lemma find_ok:
  assumes "balanced t" "ordered (\<lambda>v. rank (kov v)) t"
  shows "\<exists>it. itree_find kov cmp k t = Some it \<and> it_valid it \<and> it_root it = t \<and>
    it_deref it = itree_lookup kov cmp k t"
  using assms
proof (cases rule: lower_bound_cases [of t k])
  case (absent it)
  then show ?thesis
    by (cases "it_deref it") (simp_all add: itree_find_def it_end_def it_new_def it_valid_def del: it_deref.simps,
      simp_all)
next
  case (present it v)
  then show ?thesis by (simp add: itree_find_def it_end_def it_new_def del: it_deref.simps)
qed

end

section \<open>Consequences\<close>

text \<open>A tree of height \<open>n\<close> has at least \<open>2 ^ (n div 2) - 1\<close> nodes.\<close>

lemma min_nodes_double: "2 * (min_nodes n + 1) \<le> min_nodes (n + 2) + 1 \<or> n = 0"
proof (induction n rule: min_nodes.induct)
  case (4 n)
  have "min_nodes (Suc (Suc (Suc n)) + 2) = min_nodes (Suc (Suc (Suc n))) + min_nodes (Suc n) + 1 + min_nodes (Suc (Suc n)) + 1" by simp
  then show ?case using min_nodes_mono_Suc [of n] by simp
qed simp_all

lemma min_nodes_power: "2 ^ (n div 2) \<le> min_nodes n + 1"
proof (induction n rule: less_induct)
  case (less n)
  show ?case
  proof (cases "n \<le> 2")
    case True
    then consider "n = 0" | "n = 1" | "n = 2" by linarith
    then show ?thesis by cases (simp_all add: numeral_2_eq_2)
  next
    case False
    then have "n = (n - 2) + 2" "n div 2 = Suc ((n - 2) div 2)" by presburger+
    with less [of "n - 2"] min_nodes_double [of "n - 2"] False show ?thesis by simp
  qed
qed

text \<open>The entries that a loop from an iterator to the end visits, in at most \<open>n\<close> steps.\<close>

fun it_collect :: "nat \<Rightarrow> 'v iterator \<Rightarrow> 'v list option" where
  "it_collect n it =
     (case it_deref it of
        None \<Rightarrow> Some []
      | Some v \<Rightarrow>
          (case n of
             0 \<Rightarrow> None
           | Suc m \<Rightarrow> do { it' \<leftarrow> it_next it; vs \<leftarrow> it_collect m it'; Some (v # vs) }))"

declare it_collect.simps [simp del]

lemma it_collect_rest:
  assumes "it_valid it" "balanced (it_root it)" "no_twins (it_root it)" "length (it_rest it) \<le> n"
  shows "it_collect n it = Some (it_rest it)"
  using assms
proof (induction n arbitrary: it)
  case 0
  then show ?case using it_deref_rest [OF 0(1)] by (simp add: it_collect.simps)
next
  case (Suc n)
  show ?case
  proof (cases "it_rest it")
    case Nil
    then show ?thesis using it_deref_rest [OF Suc(2)] by (simp add: it_collect.simps)
  next
    case (Cons v vs)
    then have "it_stack it \<noteq> []" using it_deref_rest(2) [OF Suc(2)] by auto
    from it_next_ok [OF Suc(2-4) this] obtain it' where
      it': "it_next it = Some it'" "it_valid it'" "it_root it' = it_root it" "it_rest it' = vs" using Cons by auto
    then have "it_collect n it' = Some vs" using Suc(1) [OF it'(2)] Suc(3-5) Cons by simp
    with it'(1) show ?thesis using it_deref_rest(1) [OF Suc(2)] Cons by (simp add: it_collect.simps)
  qed
qed

end
