(* ===== verification/ER_AddressSpace.thy ===== *)
theory ER_AddressSpace
  imports ER_MemoryValues ER_ImmutableTree
begin

text \<open>
  Address spaces, \<^verbatim>\<open>lib/Core/AddressSpace.cpp\<close>: the map from memory objects to
  object states of one execution state.  Object states are shared between the
  address spaces of forked states until one of them writes: so they live in an
  explicit heap, the maps hold their addresses, and \<open>getWriteable\<close> copies an
  object state that the address space does not own.  The lemmas show that this
  sharing is invisible to the address spaces.
\<close>

section \<open>The map of memory objects\<close>

definition MemoryObjectLT :: "MemoryObject \<Rightarrow> MemoryObject \<Rightarrow> bool" where
  "MemoryObjectLT a b \<longleftrightarrow> address a < address b"

interpretation mo_order: key_order "fst :: MemoryObject \<times> 'd \<Rightarrow> MemoryObject" MemoryObjectLT address
  by unfold_locales (simp add: MemoryObjectLT_def)

type_synonym 'd MemoryMap = "(MemoryObject \<times> 'd) itree"

definition MemoryMap_lookup :: "MemoryObject \<Rightarrow> 'd MemoryMap \<Rightarrow> (MemoryObject \<times> 'd) option" where
  "MemoryMap_lookup = itree_lookup fst MemoryObjectLT"

definition MemoryMap_lookup_previous :: "MemoryObject \<Rightarrow> 'd MemoryMap \<Rightarrow> (MemoryObject \<times> 'd) option" where
  "MemoryMap_lookup_previous = lookup_previous fst MemoryObjectLT"

definition MemoryMap_replace :: "MemoryObject \<times> 'd \<Rightarrow> 'd MemoryMap \<Rightarrow> 'd MemoryMap" where
  "MemoryMap_replace = itree_replace fst MemoryObjectLT"

definition MemoryMap_remove :: "MemoryObject \<Rightarrow> 'd MemoryMap \<Rightarrow> 'd MemoryMap" where
  "MemoryMap_remove = itree_remove fst MemoryObjectLT"

definition MemoryMap_upper_bound :: "MemoryObject \<Rightarrow> 'd MemoryMap \<Rightarrow> (MemoryObject \<times> 'd) iterator option" where
  "MemoryMap_upper_bound = upper_bound fst MemoryObjectLT"

definition wf_map :: "'d MemoryMap \<Rightarrow> bool" where
  "wf_map t \<longleftrightarrow> balanced t \<and> ordered (\<lambda>v. address (fst v)) t"

lemma wf_map_empty [simp]: "wf_map Terminator"
  by (simp add: wf_map_def)

lemma wf_map_replace [er_wf]: "wf_map t \<Longrightarrow> wf_map (MemoryMap_replace v t)"
  using mo_order.ordered_replace [of t v] balanced_replace [of t fst MemoryObjectLT v] by (simp add: wf_map_def MemoryMap_replace_def)

lemma wf_map_remove [er_wf]: "wf_map t \<Longrightarrow> wf_map (MemoryMap_remove k t)"
  using mo_order.ordered_remove [of t k] balanced_remove [of t fst MemoryObjectLT k] by (simp add: wf_map_def MemoryMap_remove_def)

lemma set_map_replace:
  "wf_map t \<Longrightarrow> set (inorder (MemoryMap_replace v t)) =
     insert v {x \<in> set (inorder t). address (fst x) \<noteq> address (fst v)}"
  using mo_order.inorder_replace [of t v] by (auto simp: wf_map_def MemoryMap_replace_def)

lemma set_map_remove:
  "wf_map t \<Longrightarrow> set (inorder (MemoryMap_remove k t)) = {x \<in> set (inorder t). address (fst x) \<noteq> address k}"
  using mo_order.inorder_remove [of t k] by (auto simp: wf_map_def MemoryMap_remove_def)

lemma wf_map_inj:
  assumes "wf_map t" "x \<in> set (inorder t)" "y \<in> set (inorder t)" "address (fst x) = address (fst y)"
  shows "x = y"
proof -
  have "sorted_wrt (<) (map (\<lambda>v. address (fst v)) (inorder t))" using assms(1) by (simp add: wf_map_def ordered_def)
  then have "distinct (map (\<lambda>v. address (fst v)) (inorder t))" by (simp add: strict_sorted_iff)
  then show ?thesis using assms(2-4) by (auto simp: distinct_map dest: inj_onD)
qed

lemma map_lookup_iff:
  assumes "wf_map t"
  shows "MemoryMap_lookup k t = Some x \<longleftrightarrow> x \<in> set (inorder t) \<and> address (fst x) = address k"
proof -
  have l: "MemoryMap_lookup k t = find (\<lambda>x. address (fst x) = address k) (inorder t)"
    using assms mo_order.lookup_inorder [of t k] by (simp add: MemoryMap_lookup_def wf_map_def)
  show ?thesis
  proof
    assume "MemoryMap_lookup k t = Some x"
    then show "x \<in> set (inorder t) \<and> address (fst x) = address k"
      unfolding l by (auto simp: find_Some_iff)
  next
    assume x: "x \<in> set (inorder t) \<and> address (fst x) = address k"
    then have "find (\<lambda>x. address (fst x) = address k) (inorder t) \<noteq> None" unfolding find_None_iff by blast
    then obtain y where y: "find (\<lambda>x. address (fst x) = address k) (inorder t) = Some y" by blast
    then have "y \<in> set (inorder t) \<and> address (fst y) = address k" by (auto simp: find_Some_iff)
    with x wf_map_inj [OF assms] have "y = x" by metis
    with y l show "MemoryMap_lookup k t = Some x" by simp
  qed
qed

section \<open>Address spaces over a heap of object states\<close>

type_synonym oid = nat

record Heap =
  heap :: "oid \<Rightarrow> ObjectState option"
  heap_next :: oid

record AddressSpace =
  cowKey :: "32 word"
  objects :: "oid MemoryMap"

definition AddressSpace_new :: AddressSpace where
  "AddressSpace_new = \<lparr>cowKey = 1, objects = Terminator\<rparr>"

text \<open>The copy constructor advances the epoch of the original as well: the original, then the copy.\<close>

definition AddressSpace_copy :: "AddressSpace \<Rightarrow> AddressSpace \<times> AddressSpace" where
  "AddressSpace_copy b =
     (let b' = b\<lparr>cowKey := cowKey b + 1\<rparr> in (b', \<lparr>cowKey = cowKey b', objects = objects b'\<rparr>))"

definition bindObject :: "MemoryObject \<Rightarrow> oid \<Rightarrow> Heap \<Rightarrow> AddressSpace \<Rightarrow> (Heap \<times> AddressSpace) option" where
  "bindObject mo o1 h as =
     do { os \<leftarrow> heap h o1;
          if copyOnWriteOwner os = 0 then
            Some (h\<lparr>heap := (heap h)(o1 \<mapsto> os\<lparr>copyOnWriteOwner := cowKey as\<rparr>)\<rparr>,
                  as\<lparr>objects := MemoryMap_replace (mo, o1) (objects as)\<rparr>)
          else None }"

definition unbindObject :: "MemoryObject \<Rightarrow> AddressSpace \<Rightarrow> AddressSpace" where
  "unbindObject mo as = as\<lparr>objects := MemoryMap_remove mo (objects as)\<rparr>"

definition findObject :: "MemoryObject \<Rightarrow> AddressSpace \<Rightarrow> oid option" where
  "findObject mo as = map_option snd (MemoryMap_lookup mo (objects as))"

text \<open>\<open>None\<close> is the \<^verbatim>\<open>abort\<close> on a read-only object, or the assertion of the copy constructor.\<close>

definition getWriteable ::
    "MemoryObject \<Rightarrow> oid \<Rightarrow> bool \<Rightarrow> Heap \<Rightarrow> AddressSpace \<Rightarrow> (oid \<times> Heap \<times> AddressSpace) option" where
  "getWriteable mo o1 force h as =
     do { os \<leftarrow> heap h o1;
          if \<not> force \<and> readOnly os then None
          else if cowKey as = copyOnWriteOwner os then Some (o1, h, as)
          else do { os' \<leftarrow> ObjectState_copy os;
                    let new = heap_next h;
                        h' = h\<lparr>heap := (heap h)(new \<mapsto> os'\<lparr>copyOnWriteOwner := cowKey as\<rparr>), heap_next := new + 1\<rparr> in
                    Some (new, h', as\<lparr>objects := MemoryMap_replace (mo, new) (objects as)\<rparr>) } }"

section \<open>Forked states share object states safely\<close>

text \<open>
  All address spaces of a run, over one heap.  A step is an operation of the
  space \<open>i\<close>: a fork, the allocation and binding of a new object, an unbinding,
  the end of a state, or a write through \<open>getWriteable\<close> (any change of the
  object state that leaves its owner alone).  A fork that would wrap the 32-bit
  epoch around is excluded.
\<close>

record System =
  sys_heap :: Heap
  spaces :: "AddressSpace list"

inductive sys_step :: "nat \<Rightarrow> System \<Rightarrow> System \<Rightarrow> bool" where
  fork: "i < length (spaces s) \<Longrightarrow> cowKey (spaces s ! i) \<noteq> - 1 \<Longrightarrow>
    AddressSpace_copy (spaces s ! i) = (b, c) \<Longrightarrow>
    sys_step i s (s\<lparr>spaces := (spaces s)[i := b] @ [c]\<rparr>)"
| bind: "i < length (spaces s) \<Longrightarrow> copyOnWriteOwner os = 0 \<Longrightarrow> new = heap_next (sys_heap s) \<Longrightarrow>
    h = (sys_heap s)\<lparr>heap := (heap (sys_heap s))(new \<mapsto> os), heap_next := new + 1\<rparr> \<Longrightarrow>
    bindObject mo new h (spaces s ! i) = Some (h', as') \<Longrightarrow>
    sys_step i s \<lparr>sys_heap = h', spaces = (spaces s)[i := as']\<rparr>"
| unbind: "i < length (spaces s) \<Longrightarrow>
    sys_step i s (s\<lparr>spaces := (spaces s)[i := unbindObject mo (spaces s ! i)]\<rparr>)"
| terminate: "i < length (spaces s) \<Longrightarrow>
    sys_step i s (s\<lparr>spaces := (spaces s)[i := (spaces s ! i)\<lparr>objects := Terminator\<rparr>]\<rparr>)"
| store: "i < length (spaces s) \<Longrightarrow> findObject mo (spaces s ! i) = Some o1 \<Longrightarrow>
    getWriteable mo o1 force (sys_heap s) (spaces s ! i) = Some (w, h, as') \<Longrightarrow>
    heap h w = Some os \<Longrightarrow> copyOnWriteOwner os' = copyOnWriteOwner os \<Longrightarrow>
    sys_step i s \<lparr>sys_heap = h\<lparr>heap := (heap h)(w \<mapsto> os')\<rparr>, spaces = (spaces s)[i := as']\<rparr>"

definition sys_init :: System where
  "sys_init = \<lparr>sys_heap = \<lparr>heap = (\<lambda>_. None), heap_next = 0\<rparr>, spaces = [AddressSpace_new]\<rparr>"

inductive reachable :: "System \<Rightarrow> bool" where
  init: "reachable sys_init"
| step: "reachable s \<Longrightarrow> sys_step i s s' \<Longrightarrow> reachable s'"

text \<open>The invariant: an object that two spaces share belongs to an older epoch than either.\<close>

definition bound :: "AddressSpace \<Rightarrow> (MemoryObject \<times> oid) set" where
  "bound as = set (inorder (objects as))"

definition space_ok :: "Heap \<Rightarrow> AddressSpace \<Rightarrow> bool" where
  "space_ok h as \<longleftrightarrow>
     wf_map (objects as) \<and> 0 < cowKey as \<and>
     (\<forall>mo o1. (mo, o1) \<in> bound as \<longrightarrow> o1 < heap_next h \<and>
        (\<exists>os. heap h o1 = Some os \<and> 0 < copyOnWriteOwner os \<and> copyOnWriteOwner os \<le> cowKey as)) \<and>
     (\<forall>mo mo' o1. (mo, o1) \<in> bound as \<longrightarrow> (mo', o1) \<in> bound as \<longrightarrow> mo = mo')"

definition shared_ok :: "Heap \<Rightarrow> AddressSpace \<Rightarrow> AddressSpace \<Rightarrow> bool" where
  "shared_ok h a b \<longleftrightarrow>
     (\<forall>mo mo' o1 os. (mo, o1) \<in> bound a \<longrightarrow> (mo', o1) \<in> bound b \<longrightarrow> heap h o1 = Some os \<longrightarrow>
        copyOnWriteOwner os < cowKey a \<and> copyOnWriteOwner os < cowKey b)"

definition sys_inv :: "System \<Rightarrow> bool" where
  "sys_inv s \<longleftrightarrow>
     (\<forall>i < length (spaces s). space_ok (sys_heap s) (spaces s ! i)) \<and>
     (\<forall>i < length (spaces s). \<forall>j < length (spaces s). i \<noteq> j \<longrightarrow> shared_ok (sys_heap s) (spaces s ! i) (spaces s ! j))"

lemma shared_ok_sym: "shared_ok h a b \<longleftrightarrow> shared_ok h b a"
  unfolding shared_ok_def by blast

lemma sys_inv_init: "sys_inv sys_init"
  by (simp add: sys_inv_def sys_init_def space_ok_def AddressSpace_new_def bound_def)

lemma space_okD:
  assumes "space_ok h as" "(mo, o1) \<in> bound as"
  obtains os where "o1 < heap_next h" "heap h o1 = Some os" "0 < copyOnWriteOwner os" "copyOnWriteOwner os \<le> cowKey as"
proof -
  have "o1 < heap_next h \<and> (\<exists>os. heap h o1 = Some os \<and> 0 < copyOnWriteOwner os \<and> copyOnWriteOwner os \<le> cowKey as)"
    using assms unfolding space_ok_def by blast
  with that show thesis by blast
qed

lemma shared_okD:
  assumes "shared_ok h a b" "(mo, o1) \<in> bound a" "(mo', o1) \<in> bound b" "heap h o1 = Some os"
  shows "copyOnWriteOwner os < cowKey a" "copyOnWriteOwner os < cowKey b"
  using assms unfolding shared_ok_def by blast+

text \<open>The spaces other than the acting one, when only new or unshared objects of the heap change.\<close>

lemma space_ok_heap:
  assumes "space_ok h as" "heap_next h \<le> heap_next h'"
    and "\<And>mo o1. (mo, o1) \<in> bound as \<Longrightarrow> map_option copyOnWriteOwner (heap h' o1) = map_option copyOnWriteOwner (heap h o1)"
  shows "space_ok h' as"
  unfolding space_ok_def
proof (intro conjI)
  show "wf_map (objects as)" "0 < cowKey as"
    "\<forall>mo mo' o1. (mo, o1) \<in> bound as \<longrightarrow> (mo', o1) \<in> bound as \<longrightarrow> mo = mo'"
    using assms(1) unfolding space_ok_def by blast+
  show "\<forall>mo o1. (mo, o1) \<in> bound as \<longrightarrow> o1 < heap_next h' \<and>
      (\<exists>os. heap h' o1 = Some os \<and> 0 < copyOnWriteOwner os \<and> copyOnWriteOwner os \<le> cowKey as)"
  proof safe
    fix mo o1 assume b: "(mo, o1) \<in> bound as"
    obtain os where os: "o1 < heap_next h" "heap h o1 = Some os" "0 < copyOnWriteOwner os" "copyOnWriteOwner os \<le> cowKey as"
      by (rule space_okD [OF assms(1) b])
    then show "o1 < heap_next h'" using assms(2) by simp
    from assms(3) [OF b] os show "\<exists>os. heap h' o1 = Some os \<and> 0 < copyOnWriteOwner os \<and> copyOnWriteOwner os \<le> cowKey as"
      by (cases "heap h' o1") auto
  qed
qed

lemma shared_ok_heap:
  assumes "shared_ok h a b"
    and "\<And>mo o1. (mo, o1) \<in> bound b \<Longrightarrow> map_option copyOnWriteOwner (heap h' o1) = map_option copyOnWriteOwner (heap h o1)"
  shows "shared_ok h' a b"
  unfolding shared_ok_def
proof (safe)
  fix mo o2 mo' os assume b: "(mo, o2) \<in> bound a" "(mo', o2) \<in> bound b" "heap h' o2 = Some os"
  with assms(2) [OF b(2)] obtain os0 where "heap h o2 = Some os0" "copyOnWriteOwner os0 = copyOnWriteOwner os"
    by (cases "heap h o2") auto
  with shared_okD [OF assms(1) b(1,2)] show "copyOnWriteOwner os < cowKey a" "copyOnWriteOwner os < cowKey b" by auto
qed

text \<open>Enough for a step of the space \<open>i\<close> to keep the invariant.\<close>

lemma sys_inv_update:
  assumes inv: "sys_inv s" and i: "i < length (spaces s)" and nx: "heap_next (sys_heap s) \<le> heap_next h'"
    and frame: "\<And>j mo o1. j < length (spaces s) \<Longrightarrow> j \<noteq> i \<Longrightarrow> (mo, o1) \<in> bound (spaces s ! j) \<Longrightarrow>
      heap h' o1 = heap (sys_heap s) o1"
    and ok: "space_ok h' as'"
    and shared: "\<And>j. j < length (spaces s) \<Longrightarrow> j \<noteq> i \<Longrightarrow> shared_ok h' as' (spaces s ! j)"
  shows "sys_inv \<lparr>sys_heap = h', spaces = (spaces s)[i := as']\<rparr>"
proof -
  have oth: "space_ok h' (spaces s ! j)" if "j < length (spaces s)" "j \<noteq> i" for j
  proof (rule space_ok_heap [OF _ nx])
    show "space_ok (sys_heap s) (spaces s ! j)" using inv that(1) by (simp add: sys_inv_def)
  qed (simp only: frame [OF that])
  have oo: "shared_ok h' (spaces s ! j) (spaces s ! k)"
    if "j < length (spaces s)" "k < length (spaces s)" "j \<noteq> k" "k \<noteq> i" for j k
  proof (rule shared_ok_heap)
    show "shared_ok (sys_heap s) (spaces s ! j) (spaces s ! k)" using inv that(1-3) by (simp add: sys_inv_def)
  qed (simp only: frame [OF that(2,4)])
  have at: "space_ok h' ((spaces s)[i := as'] ! j)" if "j < length (spaces s)" for j
    using oth [OF that] ok i by (cases "j = i") simp_all
  have sh: "shared_ok h' ((spaces s)[i := as'] ! j) ((spaces s)[i := as'] ! k)"
    if "j < length (spaces s)" "k < length (spaces s)" "j \<noteq> k" for j k
  proof (cases "k = i")
    case True
    then show ?thesis using shared [of j] that i shared_ok_sym [of h' as'] by simp
  next
    case False
    then show ?thesis using oo [OF that False] shared [of k] that i by (cases "j = i") simp_all
  qed
  from at sh show ?thesis by (simp add: sys_inv_def)
qed

lemma epoch_less: "k \<noteq> - 1 \<Longrightarrow> k < k + (1 :: 32 word)"
proof -
  assume "k \<noteq> - 1"
  then have "1 + k \<noteq> 0" by (metis add.commute eq_neg_iff_add_eq_0)
  from unatSuc [OF this] show ?thesis by (simp add: word_less_nat_alt add.commute)
qed

text \<open>Dropping bindings, and advancing the epoch.\<close>

lemma space_ok_mono:
  assumes "space_ok h as" "wf_map (objects as')" "bound as' \<subseteq> bound as" "cowKey as \<le> cowKey as'"
  shows "space_ok h as'"
  using assms unfolding space_ok_def by (meson order_less_le_trans order_trans subsetD)

lemma shared_ok_mono:
  assumes "shared_ok h a b" "bound a' \<subseteq> bound a" "cowKey a \<le> cowKey a'" "bound b' \<subseteq> bound b" "cowKey b \<le> cowKey b'"
  shows "shared_ok h a' b'"
  using assms unfolding shared_ok_def by (meson order_less_le_trans subsetD)

lemma bound_unbind: "wf_map (objects as) \<Longrightarrow> bound (unbindObject mo as) \<subseteq> bound as"
  by (auto simp: bound_def unbindObject_def set_map_remove)

lemma sys_inv_drop:
  assumes "sys_inv s" "i < length (spaces s)" "wf_map (objects as')" "bound as' \<subseteq> bound (spaces s ! i)"
    "cowKey as' = cowKey (spaces s ! i)"
  shows "sys_inv (s\<lparr>spaces := (spaces s)[i := as']\<rparr>)"
proof -
  have "sys_inv \<lparr>sys_heap = sys_heap s, spaces = (spaces s)[i := as']\<rparr>"
  proof (rule sys_inv_update [OF assms(1,2)])
    show "space_ok (sys_heap s) as'"
      by (rule space_ok_mono) (use assms in \<open>auto simp: sys_inv_def\<close>)
    show "shared_ok (sys_heap s) as' (spaces s ! j)" if "j < length (spaces s)" "j \<noteq> i" for j
      by (rule shared_ok_mono) (use assms that in \<open>auto simp: sys_inv_def\<close>)
  qed simp_all
  then show ?thesis by (cases s) simp
qed

text \<open>Binding a new object of the own epoch, after a bind or a copy.\<close>

lemma sys_inv_new:
  assumes inv: "sys_inv s" and i: "i < length (spaces s)" and owner: "copyOnWriteOwner os = cowKey (spaces s ! i)"
    and h': "heap h' = (heap (sys_heap s))(heap_next (sys_heap s) \<mapsto> os)" "heap_next h' = heap_next (sys_heap s) + 1"
    and as': "as' = (spaces s ! i)\<lparr>objects := MemoryMap_replace (mo, heap_next (sys_heap s)) (objects (spaces s ! i))\<rparr>"
  shows "sys_inv \<lparr>sys_heap = h', spaces = (spaces s)[i := as']\<rparr>"
    "j < length (spaces s) \<Longrightarrow> (mo', o1) \<in> bound (spaces s ! j) \<Longrightarrow> heap h' o1 = heap (sys_heap s) o1"
proof -
  let ?h = "sys_heap s" and ?as = "spaces s ! i" and ?new = "heap_next (sys_heap s)"
  have ok: "space_ok ?h (spaces s ! j)" if "j < length (spaces s)" for j using inv that by (simp add: sys_inv_def)
  have old: "heap h' o1 = heap ?h o1" "o1 \<noteq> ?new" if "j < length (spaces s)" "(mo', o1) \<in> bound (spaces s ! j)" for j mo' o1
    using space_okD [OF ok [OF that(1)] that(2)] h'(1) by fastforce+
  show "heap h' o1 = heap ?h o1" if "j < length (spaces s)" "(mo', o1) \<in> bound (spaces s ! j)" using old(1) [OF that] .
  have wf: "wf_map (objects ?as)" "0 < cowKey ?as" using ok [OF i] unfolding space_ok_def by blast+
  have b: "bound as' \<subseteq> insert (mo, ?new) (bound ?as)"
    using set_map_replace [OF wf(1)] by (auto simp: bound_def as')
  show "sys_inv \<lparr>sys_heap = h', spaces = (spaces s)[i := as']\<rparr>"
  proof (rule sys_inv_update [OF inv i])
    show "space_ok h' as'"
      unfolding space_ok_def
    proof (intro conjI allI impI)
      show "wf_map (objects as')" "0 < cowKey as'" using wf by (simp_all add: as' wf_map_replace)
      fix mo1 o1 assume o1: "(mo1, o1) \<in> bound as'"
      show "o1 < heap_next h'" "\<exists>os. heap h' o1 = Some os \<and> 0 < copyOnWriteOwner os \<and> copyOnWriteOwner os \<le> cowKey as'"
      proof (atomize (full), cases "o1 = ?new")
        case True
        then show "o1 < heap_next h' \<and> (\<exists>os. heap h' o1 = Some os \<and> 0 < copyOnWriteOwner os \<and> copyOnWriteOwner os \<le> cowKey as')"
          using h' owner wf(2) by (simp add: as')
      next
        case False
        with o1 b have o1': "(mo1, o1) \<in> bound ?as" by auto
        from space_okD [OF ok [OF i] this] obtain os where
          "o1 < heap_next ?h" "heap ?h o1 = Some os" "0 < copyOnWriteOwner os" "copyOnWriteOwner os \<le> cowKey ?as" by blast
        then show "o1 < heap_next h' \<and> (\<exists>os. heap h' o1 = Some os \<and> 0 < copyOnWriteOwner os \<and> copyOnWriteOwner os \<le> cowKey as')"
          using False h' by (simp add: as')
      qed
    next
      fix m1 m2 o1 assume o1: "(m1, o1) \<in> bound as'" "(m2, o1) \<in> bound as'"
      show "m1 = m2"
      proof (cases "o1 = ?new")
        case True
        with o1 b old(2) [OF i] show ?thesis by auto
      next
        case False
        with o1 b have "(m1, o1) \<in> bound ?as" "(m2, o1) \<in> bound ?as" by auto
        then show ?thesis using ok [OF i] unfolding space_ok_def by blast
      qed
    qed
    show "shared_ok h' as' (spaces s ! j)" if j: "j < length (spaces s)" "j \<noteq> i" for j
      unfolding shared_ok_def
    proof (intro allI impI)
      fix m1 m2 o1 os1 assume o1: "(m1, o1) \<in> bound as'" "(m2, o1) \<in> bound (spaces s ! j)" "heap h' o1 = Some os1"
      from old [OF j(1) o1(2)] o1(1) b have "(m1, o1) \<in> bound ?as" "heap ?h o1 = Some os1" using o1(3) by auto
      moreover have "shared_ok ?h ?as (spaces s ! j)" using inv i j by (simp add: sys_inv_def)
      ultimately show "copyOnWriteOwner os1 < cowKey as' \<and> copyOnWriteOwner os1 < cowKey (spaces s ! j)"
        using shared_okD [OF _ _ o1(2)] by (auto simp: as')
    qed
    show "heap_next ?h \<le> heap_next h'" using h'(2) by simp
    show "heap h' o1 = heap ?h o1" if "j < length (spaces s)" "j \<noteq> i" "(mo1, o1) \<in> bound (spaces s ! j)" for j mo1 o1
      using old(1) [OF that(1,3)] .
  qed
qed

text \<open>Changing an object of the own epoch.\<close>

lemma sys_inv_own:
  assumes inv: "sys_inv s" and i: "i < length (spaces s)" and o1: "(mo, o1) \<in> bound (spaces s ! i)"
    and os: "heap (sys_heap s) o1 = Some os" "copyOnWriteOwner os = cowKey (spaces s ! i)" "copyOnWriteOwner os' = copyOnWriteOwner os"
    and h': "h' = (sys_heap s)\<lparr>heap := (heap (sys_heap s))(o1 \<mapsto> os')\<rparr>"
  shows "sys_inv \<lparr>sys_heap = h', spaces = (spaces s)[i := spaces s ! i]\<rparr>"
    "j < length (spaces s) \<Longrightarrow> j \<noteq> i \<Longrightarrow> (mo', o2) \<in> bound (spaces s ! j) \<Longrightarrow> heap h' o2 = heap (sys_heap s) o2"
proof -
  have same: "map_option copyOnWriteOwner (heap h' o2) = map_option copyOnWriteOwner (heap (sys_heap s) o2)" for o2
    using os by (simp add: h')
  have frame: "heap h' o2 = heap (sys_heap s) o2" if "j < length (spaces s)" "j \<noteq> i" "(mo', o2) \<in> bound (spaces s ! j)" for j mo' o2
  proof -
    have "shared_ok (sys_heap s) (spaces s ! i) (spaces s ! j)" using inv i that by (simp add: sys_inv_def)
    with shared_okD(1) [OF this o1 _ os(1)] os(2) that(3) have "o2 \<noteq> o1" by auto
    then show ?thesis by (simp add: h')
  qed
  then show "j < length (spaces s) \<Longrightarrow> j \<noteq> i \<Longrightarrow> (mo', o2) \<in> bound (spaces s ! j) \<Longrightarrow> heap h' o2 = heap (sys_heap s) o2" .
  show "sys_inv \<lparr>sys_heap = h', spaces = (spaces s)[i := spaces s ! i]\<rparr>"
  proof (rule sys_inv_update [OF inv i _ frame])
    show "space_ok h' (spaces s ! i)"
      by (rule space_ok_heap [of "sys_heap s"]) (use inv i same in \<open>auto simp: sys_inv_def h'\<close>)
    show "shared_ok h' (spaces s ! i) (spaces s ! j)" if "j < length (spaces s)" "j \<noteq> i" for j
      by (rule shared_ok_heap [of "sys_heap s"]) (use inv i that same in \<open>auto simp: sys_inv_def\<close>)
  qed (simp_all add: h')
qed

lemma map_lookup_eqI:
  assumes "wf_map t" "wf_map t'"
    and "\<And>x. x \<in> set (inorder t) \<and> address (fst x) = address k \<longleftrightarrow> x \<in> set (inorder t') \<and> address (fst x) = address k"
  shows "MemoryMap_lookup k t = MemoryMap_lookup k t'"
  using map_lookup_iff [OF assms(1), of k] map_lookup_iff [OF assms(2), of k] assms(3)
  by (metis not_Some_eq)

lemma map_lookup_replace:
  assumes "wf_map t"
  shows "MemoryMap_lookup k (MemoryMap_replace v t) = (if address k = address (fst v) then Some v else MemoryMap_lookup k t)"
proof (cases "address k = address (fst v)")
  case True
  then show ?thesis using map_lookup_iff [OF wf_map_replace [OF assms]] by (simp add: set_map_replace [OF assms])
next
  case False
  then have "MemoryMap_lookup k (MemoryMap_replace v t) = MemoryMap_lookup k t"
    by (intro map_lookup_eqI) (auto simp: set_map_replace wf_map_replace assms)
  with False show ?thesis by simp
qed

lemma map_lookup_remove:
  assumes "wf_map t"
  shows "MemoryMap_lookup k (MemoryMap_remove mo t) = (if address k = address mo then None else MemoryMap_lookup k t)"
proof (cases "address k = address mo")
  case True
  then have "MemoryMap_lookup k (MemoryMap_remove mo t) \<noteq> Some x" for x
    using map_lookup_iff [OF wf_map_remove [OF assms]] by (simp add: set_map_remove [OF assms])
  with True show ?thesis by (simp, metis not_Some_eq)
next
  case False
  then have "MemoryMap_lookup k (MemoryMap_remove mo t) = MemoryMap_lookup k t"
    by (intro map_lookup_eqI) (auto simp: set_map_remove wf_map_remove assms)
  with False show ?thesis by simp
qed

lemma findObject_bound:
  assumes "wf_map (objects as)" "findObject mo as = Some o1"
  obtains mo' where "(mo', o1) \<in> bound as" "address mo' = address mo"
  using assms map_lookup_iff [OF assms(1), of mo] by (auto simp: findObject_def bound_def)

lemma getWriteable_cases:
  assumes "getWriteable mo o1 force h as = Some (w, h', as')"
  obtains (own) os where "heap h o1 = Some os" "cowKey as = copyOnWriteOwner os" "w = o1" "h' = h" "as' = as"
  | (copy) os os' where "heap h o1 = Some os" "cowKey as \<noteq> copyOnWriteOwner os" "ObjectState_copy os = Some os'" "w = heap_next h"
      "h' = h\<lparr>heap := (heap h)(w \<mapsto> os'\<lparr>copyOnWriteOwner := cowKey as\<rparr>), heap_next := w + 1\<rparr>"
      "as' = as\<lparr>objects := MemoryMap_replace (mo, w) (objects as)\<rparr>"
  using assms by (auto simp: getWriteable_def Let_def split: bind_splits if_splits)

definition others_kept :: "nat \<Rightarrow> System \<Rightarrow> System \<Rightarrow> bool" where
  "others_kept i s s' \<longleftrightarrow>
     (\<forall>j < length (spaces s). j \<noteq> i \<longrightarrow> j < length (spaces s') \<and> spaces s' ! j = spaces s ! j \<and>
        (\<forall>mo o1. (mo, o1) \<in> bound (spaces s ! j) \<longrightarrow> heap (sys_heap s') o1 = heap (sys_heap s) o1))"

lemma others_keptI:
  assumes "\<And>j mo o1. j < length (spaces s) \<Longrightarrow> j \<noteq> i \<Longrightarrow> (mo, o1) \<in> bound (spaces s ! j) \<Longrightarrow> heap h' o1 = heap (sys_heap s) o1"
  shows "others_kept i s \<lparr>sys_heap = h', spaces = (spaces s)[i := as']\<rparr>"
  using assms unfolding others_kept_def by simp

lemma sys_inv_fork:
  assumes inv: "sys_inv s" and i: "i < length (spaces s)" and k: "cowKey (spaces s ! i) \<noteq> - 1"
    and cp: "AddressSpace_copy (spaces s ! i) = (b, c)"
  shows "sys_inv (s\<lparr>spaces := (spaces s)[i := b] @ [c]\<rparr>)"
proof -
  let ?a = "spaces s ! i" and ?h = "sys_heap s" and ?l = "(spaces s)[i := b]"
  have bc: "b = ?a\<lparr>cowKey := cowKey ?a + 1\<rparr>" "objects c = objects ?a" "cowKey c = cowKey ?a + 1"
    using cp by (auto simp: AddressSpace_copy_def Let_def)
  have b: "bound b = bound ?a" "bound c = bound ?a" "cowKey b = cowKey ?a + 1" by (simp_all add: bc bound_def)
  have less: "cowKey ?a < cowKey ?a + 1" using epoch_less [OF k] .
  have ok: "space_ok ?h ?a" using inv i by (simp add: sys_inv_def)
  have wf: "wf_map (objects ?a)" using ok by (simp add: space_ok_def)
  have okb: "space_ok ?h x" if "x = b \<or> x = c" for x
    by (rule space_ok_mono [OF ok]) (use less wf that b bc in auto)
  have old: "shared_ok ?h x (spaces s ! j)" if "j < length (spaces s)" "j \<noteq> i" "x = b \<or> x = c" for j x
    by (rule shared_ok_mono [of _ ?a "spaces s ! j"]) (use inv i that b bc less in \<open>auto simp: sys_inv_def\<close>)
  have new: "shared_ok ?h b c"
    unfolding shared_ok_def b
  proof (intro allI impI)
    fix mo mo' o1 os assume o1: "(mo, o1) \<in> bound ?a" "heap ?h o1 = Some os"
    obtain os' where "heap ?h o1 = Some os'" "copyOnWriteOwner os' \<le> cowKey ?a" by (rule space_okD [OF ok o1(1)])
    with o1(2) less show "copyOnWriteOwner os < cowKey ?a + 1 \<and> copyOnWriteOwner os < cowKey c" by (simp add: bc)
  qed
  have ok': "space_ok ?h (?l ! j)" if "j < length (spaces s)" for j
    using inv that okb by (cases "j = i") (simp_all add: sys_inv_def)
  have sh': "shared_ok ?h (?l ! j) (?l ! k')" if "j < length (spaces s)" "k' < length (spaces s)" "j \<noteq> k'" for j k'
    using inv that old [of j b] old [of k' b] shared_ok_sym [of ?h b "spaces s ! j"]
    by (cases "j = i"; cases "k' = i") (simp_all add: sys_inv_def)
  have shc: "shared_ok ?h (?l ! j) c" if "j < length (spaces s)" for j
    using that old [of j c] new shared_ok_sym [of ?h c "spaces s ! j"] by (cases "j = i") simp_all
  have at: "(?l @ [c]) ! j = (if j < length (spaces s) then ?l ! j else c)" if "j < Suc (length (spaces s))" for j
    using that by (auto simp: nth_append less_Suc_eq)
  have "space_ok ?h ((?l @ [c]) ! j)" if "j < Suc (length (spaces s))" for j
    unfolding at [OF that] using ok' [of j] okb [of c] by simp
  moreover have "shared_ok ?h ((?l @ [c]) ! j) ((?l @ [c]) ! k')"
    if j: "j < Suc (length (spaces s))" and k': "k' < Suc (length (spaces s))" and ne: "j \<noteq> k'" for j k'
  proof (cases "j < length (spaces s)"; cases "k' < length (spaces s)")
    assume jk: "\<not> j < length (spaces s)" "k' < length (spaces s)"
    show ?thesis unfolding at [OF j] at [OF k'] if_not_P [OF jk(1)] if_P [OF jk(2)]
      using shc [OF jk(2)] shared_ok_sym by blast
  next
    assume jk: "j < length (spaces s)" "k' < length (spaces s)"
    show ?thesis unfolding at [OF j] at [OF k'] if_P [OF jk(1)] if_P [OF jk(2)] using sh' [OF jk ne] .
  next
    assume jk: "j < length (spaces s)" "\<not> k' < length (spaces s)"
    show ?thesis unfolding at [OF j] at [OF k'] if_P [OF jk(1)] if_not_P [OF jk(2)] using shc [OF jk(1)] .
  qed (use j k' ne in simp)
  ultimately have "sys_inv s'" if "sys_heap s' = ?h" "spaces s' = ?l @ [c]" for s'
    unfolding sys_inv_def that length_append_singleton length_list_update by blast
  then show ?thesis by simp
qed

lemma sys_step_inv:
  assumes "sys_step i s s'" "sys_inv s"
  shows "sys_inv s'" "others_kept i s s'"
proof -
  have "sys_inv s' \<and> others_kept i s s'"
    using assms
  proof (cases rule: sys_step.cases)
    case (fork b c)
    from sys_inv_fork [OF assms(2) fork(2-4)] show ?thesis by (auto simp: fork(1) others_kept_def nth_append)
  next
    case (bind os new h mo h' as')
    from bind(6) have h': "heap h' = (heap (sys_heap s))(new \<mapsto> os\<lparr>copyOnWriteOwner := cowKey (spaces s ! i)\<rparr>)"
      "heap_next h' = new + 1" and as': "as' = (spaces s ! i)\<lparr>objects := MemoryMap_replace (mo, new) (objects (spaces s ! i))\<rparr>"
      using bind(3,5) by (auto simp: bindObject_def)
    note new = sys_inv_new [OF assms(2) bind(2) _ h' [unfolded bind(4)] as' [unfolded bind(4)]]
    show ?thesis unfolding bind(1) using new others_keptI [of s i h' as'] by simp
  next
    case (unbind mo)
    then have wf: "wf_map (objects (spaces s ! i))" using assms(2) by (simp add: sys_inv_def space_ok_def)
    have "sys_inv (s\<lparr>spaces := (spaces s)[i := unbindObject mo (spaces s ! i)]\<rparr>)"
      by (rule sys_inv_drop [OF assms(2) unbind(2)])
        (use wf bound_unbind [OF wf] in \<open>simp_all add: unbindObject_def wf_map_remove\<close>)
    then show ?thesis by (simp add: unbind(1) others_kept_def)
  next
    case terminate
    have "sys_inv (s\<lparr>spaces := (spaces s)[i := (spaces s ! i)\<lparr>objects := Terminator\<rparr>]\<rparr>)"
      by (rule sys_inv_drop [OF assms(2) terminate(2)]) (simp_all add: bound_def)
    then show ?thesis by (simp add: terminate(1) others_kept_def)
  next
    case (store mo o1 force w h as' os os')
    have "wf_map (objects (spaces s ! i))" using assms(2) store(2) by (simp add: sys_inv_def space_ok_def)
    then obtain mo' where o1: "(mo', o1) \<in> bound (spaces s ! i)" using findObject_bound store(3) by metis
    from store(4) show ?thesis
    proof (cases rule: getWriteable_cases)
      case (own os1)
      then have "os1 = os" using store(5) by simp
      note r = sys_inv_own [OF assms(2) store(2) o1 own(1) own(2) [symmetric] store(6) [folded \<open>os1 = os\<close>] refl]
      show ?thesis unfolding store(1) using r others_keptI [of s i _ as'] by (simp add: own)
    next
      case (copy os1 os2)
      let ?h = "h\<lparr>heap := (heap h)(w \<mapsto> os')\<rparr>"
      have "copyOnWriteOwner os' = cowKey (spaces s ! i)" using store(5,6) copy by auto
      note r = sys_inv_new [OF assms(2) store(2) this, of ?h as' mo]
      show ?thesis unfolding store(1) using r others_keptI [of s i ?h as'] by (simp add: copy)
    qed
  qed
  then show "sys_inv s'" "others_kept i s s'" by blast+
qed

lemma reachable_inv: "reachable s \<Longrightarrow> sys_inv s"
  by (induction rule: reachable.induct) (simp_all add: sys_inv_init sys_step_inv)

section \<open>Copy on write implements private memories\<close>

text \<open>
  What a program is promised: each state has a memory of its own, a fork copies
  it as a whole.  \<open>view\<close> is the memory an address space shows, with the owner,
  which only the copy-on-write scheme reads, left out; keys are compared by address,
  as the map does.
\<close>

type_synonym memory = "MemoryObject \<Rightarrow> (MemoryObject \<times> ObjectState) option"

definition disown :: "ObjectState \<Rightarrow> ObjectState" where
  "disown os = os\<lparr>copyOnWriteOwner := 0\<rparr>"

definition view :: "Heap \<Rightarrow> AddressSpace \<Rightarrow> memory" where
  "view h as mo =
     do { v \<leftarrow> MemoryMap_lookup mo (objects as);
          os \<leftarrow> heap h (snd v);
          Some (fst v, disown os) }"

definition mem_update :: "MemoryObject \<Rightarrow> (MemoryObject \<times> ObjectState) option \<Rightarrow> memory \<Rightarrow> memory" where
  "mem_update mo v m = (\<lambda>k. if address k = address mo then v else m k)"

inductive mem_step :: "nat \<Rightarrow> memory list \<Rightarrow> memory list \<Rightarrow> bool" where
  mem_fork: "i < length ms \<Longrightarrow> mem_step i ms (ms @ [ms ! i])"
| mem_bind: "i < length ms \<Longrightarrow> mem_step i ms (ms[i := mem_update mo (Some (mo, os)) (ms ! i)])"
| mem_unbind: "i < length ms \<Longrightarrow> mem_step i ms (ms[i := mem_update mo None (ms ! i)])"
| mem_terminate: "i < length ms \<Longrightarrow> mem_step i ms (ms[i := (\<lambda>_. None)])"
| mem_store: "i < length ms \<Longrightarrow> (ms ! i) mo = Some (mo', os) \<Longrightarrow>
    mem_step i ms (ms[i := mem_update mo (Some (mo'', os')) (ms ! i)])"

definition views :: "System \<Rightarrow> memory list" where
  "views s = map (view (sys_heap s)) (spaces s)"

lemma view_cong:
  assumes "wf_map (objects as)" "\<And>mo o1. (mo, o1) \<in> bound as \<Longrightarrow> heap h' o1 = heap h o1"
  shows "view h' as = view h as"
proof
  fix mo
  show "view h' as mo = view h as mo"
  proof (cases "MemoryMap_lookup mo (objects as)")
    case (Some v)
    then have "v \<in> bound as" using map_lookup_iff [OF assms(1)] by (simp add: bound_def)
    with assms(2) [of "fst v" "snd v"] have "heap h' (snd v) = heap h (snd v)" by simp
    then show ?thesis by (simp add: view_def Some)
  qed (simp add: view_def)
qed

lemma view_replace:
  assumes wf: "wf_map (objects as)" and new: "heap h' o1 = Some os"
    and same: "\<And>mo' o2. (mo', o2) \<in> bound as \<Longrightarrow> heap h' o2 = heap h o2"
  shows "view h' (as\<lparr>objects := MemoryMap_replace (mo, o1) (objects as)\<rparr>) = mem_update mo (Some (mo, disown os)) (view h as)"
proof
  fix k
  have "view h' as k = view h as k" using view_cong [OF wf same] by simp
  then show "view h' (as\<lparr>objects := MemoryMap_replace (mo, o1) (objects as)\<rparr>) k = mem_update mo (Some (mo, disown os)) (view h as) k"
    using new by (simp add: view_def mem_update_def map_lookup_replace [OF wf])
qed

text \<open>The other spaces show what they showed.\<close>

lemma others_view:
  assumes "sys_inv s" "others_kept i s s'" "j < length (spaces s)" "j \<noteq> i"
  shows "view (sys_heap s') (spaces s' ! j) = view (sys_heap s) (spaces s ! j)"
proof -
  have wf: "wf_map (objects (spaces s ! j))" using assms(1,3) by (simp add: sys_inv_def space_ok_def)
  have "spaces s' ! j = spaces s ! j"
    and same: "\<And>mo o1. (mo, o1) \<in> bound (spaces s ! j) \<Longrightarrow> heap (sys_heap s') o1 = heap (sys_heap s) o1"
    using assms(2-4) unfolding others_kept_def by blast+
  then show ?thesis using view_cong [OF wf, of "sys_heap s'" "sys_heap s"] same by simp
qed

lemma views_update:
  assumes "sys_inv s" "others_kept i s s'" "length (spaces s') = length (spaces s)" "i < length (spaces s)"
    "view (sys_heap s') (spaces s' ! i) = m"
  shows "views s' = (views s)[i := m]"
proof (rule nth_equalityI)
  fix j assume "j < length (views s')"
  then have j: "j < length (spaces s)" using assms(3) by (simp add: views_def)
  show "views s' ! j = (views s)[i := m] ! j"
    using others_view [OF assms(1,2) j] assms(3-5) j by (cases "j = i") (simp_all add: views_def)
qed (simp add: views_def assms(3))

text \<open>The write through \<open>getWriteable\<close> reaches the acting space only, whether the object was shared or owned.\<close>

lemma view_store:
  assumes ok: "space_ok h as" and f: "findObject mo as = Some o1"
    and g: "getWriteable mo o1 force h as = Some (w, h', as')" and os: "heap h' w = Some os"
  shows "\<exists>mo' mo''. view h as mo = Some (mo', disown (the (heap h o1))) \<and>
    view (h'\<lparr>heap := (heap h')(w \<mapsto> os')\<rparr>) as' = mem_update mo (Some (mo'', disown os')) (view h as)"
  using g
proof (cases rule: getWriteable_cases)
  case (own os1)
  have wf: "wf_map (objects as)" using ok by (simp add: space_ok_def)
  from f obtain v where v: "MemoryMap_lookup mo (objects as) = Some v" "snd v = o1" by (auto simp: findObject_def)
  have k: "MemoryMap_lookup k (objects as) = Some v" if "address k = address mo" for k
    using v(1) that by (simp add: map_lookup_iff [OF wf])
  have ne: "snd v' \<noteq> o1" if "MemoryMap_lookup k (objects as) = Some v'" "address k \<noteq> address mo" for k v'
  proof
    assume "snd v' = o1"
    moreover have "v \<in> bound as" "v' \<in> bound as" "address (fst v) = address mo" "address (fst v') = address k"
      using v(1) that(1) by (simp_all add: map_lookup_iff [OF wf] bound_def)
    ultimately have "fst v = fst v'" using ok v(2) unfolding space_ok_def by (metis prod.collapse)
    with \<open>address (fst v) = address mo\<close> \<open>address (fst v') = address k\<close> that(2) show False by simp
  qed
  have "view h as mo = Some (fst v, disown os1)" using v own(1) by (simp add: view_def)
  moreover have "view (h\<lparr>heap := (heap h)(o1 \<mapsto> os')\<rparr>) as x = mem_update mo (Some (fst v, disown os')) (view h as) x" for x
    using k [of x] v(2) ne [of x]
    by (cases "address x = address mo"; cases "MemoryMap_lookup x (objects as)") (simp_all add: view_def mem_update_def)
  ultimately show ?thesis using own by auto
next
  case (copy os1 os2)
  have wf: "wf_map (objects as)" using ok by (simp add: space_ok_def)
  from f obtain v where v: "MemoryMap_lookup mo (objects as) = Some v" "snd v = o1" by (auto simp: findObject_def)
  have "o2 \<noteq> w" if "(m, o2) \<in> bound as" for m o2 using space_okD [OF ok that] copy(4) by fastforce
  then have "view (h'\<lparr>heap := (heap h')(w \<mapsto> os')\<rparr>) as' = mem_update mo (Some (mo, disown os')) (view h as)"
    unfolding copy(6) by (intro view_replace [OF wf]) (auto simp: copy(5))
  moreover have "view h as mo = Some (fst v, disown os1)" using v copy(1) by (simp add: view_def)
  ultimately show ?thesis using copy(1) by auto
qed

lemma sys_step_refines:
  assumes "sys_step i s s'" "sys_inv s"
  shows "mem_step i (views s) (views s')"
  using assms
proof (cases rule: sys_step.cases)
  note kept = sys_step_inv(2) [OF assms]
  have ok: "space_ok (sys_heap s) (spaces s ! i)" if "i < length (spaces s)" using assms(2) that by (simp add: sys_inv_def)
  { case (fork b c)
    then have "view (sys_heap s) b = view (sys_heap s) (spaces s ! i)" "view (sys_heap s) c = view (sys_heap s) (spaces s ! i)"
      by (auto simp: AddressSpace_copy_def Let_def view_def fun_eq_iff)
    then have "views s' = views s @ [views s ! i]"
      using fork(2) by (simp add: views_def fork(1) map_update list_update_same_conv)
    with mem_fork [of i "views s"] fork(2) show ?thesis by (simp add: views_def) }
  { case (bind os new h mo h' as')
    have h': "h' = h\<lparr>heap := (heap h)(new \<mapsto> os\<lparr>copyOnWriteOwner := cowKey (spaces s ! i)\<rparr>)\<rparr>"
      and as': "as' = (spaces s ! i)\<lparr>objects := MemoryMap_replace (mo, new) (objects (spaces s ! i))\<rparr>"
      using bind(3,5,6) by (auto simp: bindObject_def)
    have "o2 \<noteq> new" if "(m, o2) \<in> bound (spaces s ! i)" for m o2 using space_okD [OF ok [OF bind(2)] that] bind(4) by fastforce
    then have "view h' as' = mem_update mo (Some (mo, disown (os\<lparr>copyOnWriteOwner := cowKey (spaces s ! i)\<rparr>)))
        (view (sys_heap s) (spaces s ! i))"
      unfolding as' by (intro view_replace) (use ok [OF bind(2)] in \<open>auto simp: h' bind(5) space_ok_def\<close>)
    then have "views s' = (views s)[i := mem_update mo (Some (mo, disown (os\<lparr>copyOnWriteOwner := cowKey (spaces s ! i)\<rparr>))) (views s ! i)]"
      by (intro views_update [OF assms(2) kept _ bind(2)]) (use bind(1,2) in \<open>simp_all add: views_def\<close>)
    then show ?thesis using mem_bind [of i "views s" mo] bind(2) by (simp add: views_def) }
  { case (unbind mo)
    have "view (sys_heap s) (unbindObject mo (spaces s ! i)) = mem_update mo None (view (sys_heap s) (spaces s ! i))"
      using ok [OF unbind(2)] by (auto simp: view_def unbindObject_def mem_update_def space_ok_def map_lookup_remove fun_eq_iff)
    then have "views s' = (views s)[i := mem_update mo None (views s ! i)]"
      by (intro views_update [OF assms(2) kept _ unbind(2)]) (use unbind in \<open>simp_all add: views_def\<close>)
    then show ?thesis using mem_unbind [of i "views s" mo] unbind(2) by (simp add: views_def) }
  { case terminate
    have "view (sys_heap s) ((spaces s ! i)\<lparr>objects := Terminator\<rparr>) = (\<lambda>_. None)"
      by (simp add: view_def fun_eq_iff MemoryMap_lookup_def)
    then have "views s' = (views s)[i := (\<lambda>_. None)]"
      by (intro views_update [OF assms(2) kept _ terminate(2)]) (use terminate in \<open>simp_all add: views_def\<close>)
    then show ?thesis using mem_terminate [of i "views s"] terminate(2) by (simp add: views_def) }
  { case (store mo o1 force w h as' os os')
    from view_store [OF ok [OF store(2)] store(3,4,5), of os'] obtain mo' mo''
      where v: "view (sys_heap s) (spaces s ! i) mo = Some (mo', disown (the (heap (sys_heap s) o1)))"
        "view (h\<lparr>heap := (heap h)(w \<mapsto> os')\<rparr>) as' = mem_update mo (Some (mo'', disown os')) (view (sys_heap s) (spaces s ! i))" by blast
    then have "views s' = (views s)[i := mem_update mo (Some (mo'', disown os')) (views s ! i)]"
      by (intro views_update [OF assms(2) kept _ store(2)]) (use store(1,2) in \<open>simp_all add: views_def\<close>)
    then show ?thesis using mem_store [of i "views s" mo] v(1) store(2) by (simp add: views_def) }
qed

end
