(* ===== verification/ER_ExprBuilder.thy ===== *)
theory ER_ExprBuilder
  imports ER_ExprBits
begin

text \<open>
  The expression builders, \<^verbatim>\<open>lib/Expr/ExprBuilder.cpp\<close>.  A builder is a record of
  its virtual methods; the 23 methods for binary nodes have one signature and are
  the field \<open>b_Binary\<close>, indexed by the kind.  \<^verbatim>\<open>None\<close> is a failed assertion.  A
  builder calls itself through the pointer \<^verbatim>\<open>Builder\<close>: that knot is tied by a
  number of rounds, which \<open>fold_rounds\<close> and \<open>simplify_rounds\<close> compute from the
  operands, and which is shown to be enough.
\<close>

section \<open>Builders\<close>

record ExprBuilder =
  b_Constant :: "apint \<Rightarrow> expr option"
  b_NotOptimized :: "expr \<Rightarrow> expr option"
  b_Read :: "array \<Rightarrow> updates \<Rightarrow> expr \<Rightarrow> expr option"
  b_Select :: "expr \<Rightarrow> expr \<Rightarrow> expr \<Rightarrow> expr option"
  b_Concat :: "expr \<Rightarrow> expr \<Rightarrow> expr option"
  b_Extract :: "expr \<Rightarrow> nat \<Rightarrow> width \<Rightarrow> expr option"
  b_ZExt :: "expr \<Rightarrow> width \<Rightarrow> expr option"
  b_SExt :: "expr \<Rightarrow> width \<Rightarrow> expr option"
  b_Not :: "expr \<Rightarrow> expr option"
  b_Binary :: "bkind \<Rightarrow> expr \<Rightarrow> expr \<Rightarrow> expr option"

definition DefaultExprBuilder :: ExprBuilder where
  "DefaultExprBuilder =
     \<lparr>b_Constant = (\<lambda>Value. Some (ConstantExpr Value)),
      b_NotOptimized = (\<lambda>Index. Some (NotOptimizedExpr Index)),
      b_Read = (\<lambda>root head Index. Some (ReadExpr root head Index)),
      b_Select = (\<lambda>Cond LHS RHS. Some (SelectExpr Cond LHS RHS)),
      b_Concat = (\<lambda>LHS RHS. Some (ConcatExpr LHS RHS)),
      b_Extract = (\<lambda>LHS Offset W. Some (ExtractExpr LHS Offset W)),
      b_ZExt = (\<lambda>LHS W. Some (ZExtExpr LHS W)),
      b_SExt = (\<lambda>LHS W. Some (SExtExpr LHS W)),
      b_Not = (\<lambda>LHS. Some (NotExpr LHS)),
      b_Binary = (\<lambda>k LHS RHS. Some (BinaryExpr k LHS RHS))\<rparr>"

definition ChainedBuilder :: "ExprBuilder \<Rightarrow> ExprBuilder" where
  "ChainedBuilder Base =
     \<lparr>b_Constant = (\<lambda>Value. b_Constant Base Value),
      b_NotOptimized = (\<lambda>Index. b_NotOptimized Base Index),
      b_Read = (\<lambda>root head Index. b_Read Base root head Index),
      b_Select = (\<lambda>Cond LHS RHS. b_Select Base Cond LHS RHS),
      b_Concat = (\<lambda>LHS RHS. b_Concat Base LHS RHS),
      b_Extract = (\<lambda>LHS Offset W. b_Extract Base LHS Offset W),
      b_ZExt = (\<lambda>LHS W. b_ZExt Base LHS W),
      b_SExt = (\<lambda>LHS W. b_SExt Base LHS W),
      b_Not = (\<lambda>LHS. b_Not Base LHS),
      b_Binary = (\<lambda>k LHS RHS. b_Binary Base k LHS RHS)\<rparr>"

section \<open>Dispatch on constants\<close>

text \<open>The shape of every binary method: fold two constants, else call the specialized method.\<close>

definition specialize :: "bkind \<Rightarrow> (expr \<Rightarrow> expr \<Rightarrow> expr option) \<Rightarrow> expr \<Rightarrow> expr \<Rightarrow> expr option" where
  "specialize k op LHS RHS =
     (case as_const LHS of
        Some LCE \<Rightarrow> (case as_const RHS of Some RCE \<Rightarrow> fold_const k LCE RCE | None \<Rightarrow> op (ConstantExpr LCE) RHS)
      | None \<Rightarrow> op LHS RHS)"

definition arithmetic_kinds :: "bkind list" where
  "arithmetic_kinds = [Add, Sub, Mul, UDiv, SDiv, URem, SRem]"

definition bitwise_kinds :: "bkind list" where
  "bitwise_kinds = [And, Or, Xor, Shl, LShr, AShr]"

definition ConstantSpecialized_arithmetic :: "ExprBuilder \<Rightarrow> bkind \<Rightarrow> expr \<Rightarrow> expr \<Rightarrow> expr option" where
  "ConstantSpecialized_arithmetic Builder k = specialize k (b_Binary Builder k)"

definition ConstantSpecialized_bitwise :: "ExprBuilder \<Rightarrow> bkind \<Rightarrow> expr \<Rightarrow> expr \<Rightarrow> expr option" where
  "ConstantSpecialized_bitwise Builder k = specialize k (b_Binary Builder k)"

definition ConstantSpecialized_comparison :: "ExprBuilder \<Rightarrow> bkind \<Rightarrow> expr \<Rightarrow> expr \<Rightarrow> expr option" where
  "ConstantSpecialized_comparison Builder k = specialize k (b_Binary Builder k)"

definition ConstantSpecialized_Binary :: "ExprBuilder \<Rightarrow> bkind \<Rightarrow> expr \<Rightarrow> expr \<Rightarrow> expr option" where
  "ConstantSpecialized_Binary Builder k =
     (if k \<in> set arithmetic_kinds then ConstantSpecialized_arithmetic Builder k
      else if k \<in> set bitwise_kinds then ConstantSpecialized_bitwise Builder k
      else ConstantSpecialized_comparison Builder k)"

text \<open>\<^verbatim>\<open>Expr::isFalse\<close> asserts a boolean.\<close>

definition Expr_isFalse :: "expr \<Rightarrow> bool option" where
  "Expr_isFalse e =
     (if getWidth e = 1 then Some (case as_const e of Some CE \<Rightarrow> ConstantExpr_isFalse CE | None \<Rightarrow> False) else None)"

fun ConstantSpecialized_roll_back :: "ExprBuilder \<Rightarrow> expr \<Rightarrow> updates \<Rightarrow> updates option" where
  "ConstantSpecialized_roll_back Builder Index [] = Some []"
| "ConstantSpecialized_roll_back Builder Index ((j, v) # un) =
     do { e \<leftarrow> ConstantSpecialized_Binary Builder Eq Index j;
          different \<leftarrow> Expr_isFalse e;
          if different then ConstantSpecialized_roll_back Builder Index un else Some ((j, v) # un) }"

definition ConstantSpecialized_Read :: "ExprBuilder \<Rightarrow> array \<Rightarrow> updates \<Rightarrow> expr \<Rightarrow> expr option" where
  "ConstantSpecialized_Read Builder root head Index =
     do { un \<leftarrow> ConstantSpecialized_roll_back Builder Index head; b_Read Builder root un Index }"

definition ConstantSpecialized_Select :: "ExprBuilder \<Rightarrow> expr \<Rightarrow> expr \<Rightarrow> expr \<Rightarrow> expr option" where
  "ConstantSpecialized_Select Builder Cond LHS RHS =
     (case as_const Cond of
        Some CE \<Rightarrow> Some (if ConstantExpr_isTrue CE then LHS else RHS) | None \<Rightarrow> b_Select Builder Cond LHS RHS)"

definition ConstantSpecialized_Concat :: "ExprBuilder \<Rightarrow> expr \<Rightarrow> expr \<Rightarrow> expr option" where
  "ConstantSpecialized_Concat Builder LHS RHS =
     (case (as_const LHS, as_const RHS) of
        (Some LCE, Some RCE) \<Rightarrow> Some (ConstantExpr (ConstantExpr_Concat LCE RCE)) | _ \<Rightarrow> b_Concat Builder LHS RHS)"

definition ConstantSpecialized_Extract :: "ExprBuilder \<Rightarrow> expr \<Rightarrow> nat \<Rightarrow> width \<Rightarrow> expr option" where
  "ConstantSpecialized_Extract Builder LHS Offset W =
     (case as_const LHS of
        Some CE \<Rightarrow> Some (ConstantExpr (ConstantExpr_Extract CE Offset W)) | None \<Rightarrow> b_Extract Builder LHS Offset W)"

definition ConstantSpecialized_ZExt :: "ExprBuilder \<Rightarrow> expr \<Rightarrow> width \<Rightarrow> expr option" where
  "ConstantSpecialized_ZExt Builder LHS W =
     (case as_const LHS of Some CE \<Rightarrow> Some (ConstantExpr (ConstantExpr_ZExt CE W)) | None \<Rightarrow> b_ZExt Builder LHS W)"

definition ConstantSpecialized_SExt :: "ExprBuilder \<Rightarrow> expr \<Rightarrow> width \<Rightarrow> expr option" where
  "ConstantSpecialized_SExt Builder LHS W =
     (case as_const LHS of Some CE \<Rightarrow> Some (ConstantExpr (ConstantExpr_SExt CE W)) | None \<Rightarrow> b_SExt Builder LHS W)"

definition ConstantSpecialized_Not :: "ExprBuilder \<Rightarrow> expr \<Rightarrow> expr option" where
  "ConstantSpecialized_Not Builder LHS =
     (case LHS of
        NotExpr DblNot \<Rightarrow> Some DblNot
      | ConstantExpr CE \<Rightarrow> Some (ConstantExpr (ConstantExpr_Not CE))
      | _ \<Rightarrow> b_Not Builder LHS)"

definition ConstantSpecializedExprBuilder :: "ExprBuilder \<Rightarrow> ExprBuilder" where
  "ConstantSpecializedExprBuilder Builder =
     \<lparr>b_Constant = (\<lambda>Value. b_Constant Builder Value),
      b_NotOptimized = (\<lambda>Index. b_NotOptimized Builder Index),
      b_Read = ConstantSpecialized_Read Builder, b_Select = ConstantSpecialized_Select Builder,
      b_Concat = ConstantSpecialized_Concat Builder, b_Extract = ConstantSpecialized_Extract Builder,
      b_ZExt = ConstantSpecialized_ZExt Builder, b_SExt = ConstantSpecialized_SExt Builder,
      b_Not = ConstantSpecialized_Not Builder, b_Binary = ConstantSpecialized_Binary Builder\<rparr>"

section \<open>Constant folding\<close>

text \<open>The kid of a binary node that is a constant, the left one first.\<close>

definition const_kid :: "expr \<Rightarrow> expr \<Rightarrow> (apint \<Rightarrow> 'a) \<Rightarrow> (apint \<Rightarrow> 'a) \<Rightarrow> 'a \<Rightarrow> 'a" where
  "const_kid l r onLeft onRight neither =
     (case as_const l of Some CE \<Rightarrow> onLeft CE
      | None \<Rightarrow> (case as_const r of Some CE \<Rightarrow> onRight CE | None \<Rightarrow> neither))"

text \<open>\<^verbatim>\<open>Builder->op(LHS->op'(CE), e)\<close>.\<close>

definition with_const :: "ExprBuilder \<Rightarrow> bkind \<Rightarrow> apint option \<Rightarrow> expr \<Rightarrow> expr option" where
  "with_const Builder k c e = do { CE \<leftarrow> c; b_Binary Builder k (ConstantExpr CE) e }"

definition ConstantFolding_Add_const :: "ExprBuilder \<Rightarrow> ExprBuilder \<Rightarrow> apint \<Rightarrow> expr \<Rightarrow> expr option" where
  "ConstantFolding_Add_const Builder Base LHS RHS =
     (if ConstantExpr_isZero LHS then Some RHS
      else case RHS of
        BinaryExpr Add l r \<Rightarrow>
          const_kid l r
            (\<lambda>CE. with_const Builder Add (ConstantExpr_op Add LHS CE) r)
            (\<lambda>CE. with_const Builder Add (ConstantExpr_op Add LHS CE) l)
            (b_Binary Base Add (ConstantExpr LHS) RHS)
      | BinaryExpr Sub l r \<Rightarrow>
          const_kid l r
            (\<lambda>CE. with_const Builder Sub (ConstantExpr_op Add LHS CE) r)
            (\<lambda>CE. with_const Builder Add (ConstantExpr_op Sub LHS CE) l)
            (b_Binary Base Add (ConstantExpr LHS) RHS)
      | _ \<Rightarrow> b_Binary Base Add (ConstantExpr LHS) RHS)"

definition ConstantFolding_Add_nonconst :: "ExprBuilder \<Rightarrow> ExprBuilder \<Rightarrow> expr \<Rightarrow> expr \<Rightarrow> expr option" where
  "ConstantFolding_Add_nonconst Builder Base LHS RHS =
     (case LHS of
        BinaryExpr Add l r \<Rightarrow> do { s \<leftarrow> b_Binary Builder Add r RHS; b_Binary Builder Add l s }
      | BinaryExpr Sub l r \<Rightarrow> do { s \<leftarrow> b_Binary Builder Sub RHS r; b_Binary Builder Add l s }
      | _ \<Rightarrow>
        (case RHS of
           BinaryExpr Add l r \<Rightarrow>
             const_kid l r
               (\<lambda>CE. do { s \<leftarrow> b_Binary Builder Add LHS r; b_Binary Builder Add (ConstantExpr CE) s })
               (\<lambda>CE. do { s \<leftarrow> b_Binary Builder Add LHS l; b_Binary Builder Add (ConstantExpr CE) s })
               (b_Binary Base Add LHS RHS)
         | BinaryExpr Sub l r \<Rightarrow>
             const_kid l r
               (\<lambda>CE. do { s \<leftarrow> b_Binary Builder Sub LHS r; b_Binary Builder Add (ConstantExpr CE) s })
               (\<lambda>CE. do { s \<leftarrow> b_Binary Builder Add LHS l; b_Binary Builder Add (ConstantExpr (ConstantExpr_Neg CE)) s })
               (b_Binary Base Add LHS RHS)
         | _ \<Rightarrow> b_Binary Base Add LHS RHS))"

definition ConstantFolding_Sub_const :: "ExprBuilder \<Rightarrow> ExprBuilder \<Rightarrow> apint \<Rightarrow> expr \<Rightarrow> expr option" where
  "ConstantFolding_Sub_const Builder Base LHS RHS =
     (case RHS of
        BinaryExpr Add l r \<Rightarrow>
          const_kid l r
            (\<lambda>CE. with_const Builder Sub (ConstantExpr_op Sub LHS CE) r)
            (\<lambda>CE. with_const Builder Sub (ConstantExpr_op Sub LHS CE) l)
            (b_Binary Base Sub (ConstantExpr LHS) RHS)
      | BinaryExpr Sub l r \<Rightarrow>
          const_kid l r
            (\<lambda>CE. with_const Builder Add (ConstantExpr_op Sub LHS CE) r)
            (\<lambda>CE. with_const Builder Sub (ConstantExpr_op Add LHS CE) l)
            (b_Binary Base Sub (ConstantExpr LHS) RHS)
      | _ \<Rightarrow> b_Binary Base Sub (ConstantExpr LHS) RHS)"

definition ConstantFolding_Sub_nonconst :: "ExprBuilder \<Rightarrow> ExprBuilder \<Rightarrow> expr \<Rightarrow> expr \<Rightarrow> expr option" where
  "ConstantFolding_Sub_nonconst Builder Base LHS RHS =
     (case LHS of
        BinaryExpr Add l r \<Rightarrow> do { s \<leftarrow> b_Binary Builder Sub r RHS; b_Binary Builder Add l s }
      | BinaryExpr Sub l r \<Rightarrow> do { s \<leftarrow> b_Binary Builder Add r RHS; b_Binary Builder Sub l s }
      | _ \<Rightarrow>
        (case RHS of
           BinaryExpr Add l r \<Rightarrow>
             const_kid l r
               (\<lambda>CE. do { s \<leftarrow> b_Binary Builder Sub LHS r; b_Binary Builder Add (ConstantExpr (ConstantExpr_Neg CE)) s })
               (\<lambda>CE. do { s \<leftarrow> b_Binary Builder Sub LHS l; b_Binary Builder Add (ConstantExpr (ConstantExpr_Neg CE)) s })
               (b_Binary Base Sub LHS RHS)
         | BinaryExpr Sub l r \<Rightarrow>
             const_kid l r
               (\<lambda>CE. do { s \<leftarrow> b_Binary Builder Add LHS r; b_Binary Builder Add (ConstantExpr (ConstantExpr_Neg CE)) s })
               (\<lambda>CE. do { s \<leftarrow> b_Binary Builder Sub LHS l; b_Binary Builder Add (ConstantExpr CE) s })
               (b_Binary Base Sub LHS RHS)
         | _ \<Rightarrow> b_Binary Base Sub LHS RHS))"

definition ConstantFolding_Mul_const :: "ExprBuilder \<Rightarrow> apint \<Rightarrow> expr \<Rightarrow> expr option" where
  "ConstantFolding_Mul_const Base LHS RHS =
     (if ConstantExpr_isZero LHS then Some (ConstantExpr LHS)
      else if ConstantExpr_isOne LHS then Some RHS
      else b_Binary Base Mul (ConstantExpr LHS) RHS)"

definition ConstantFolding_And_const :: "ExprBuilder \<Rightarrow> apint \<Rightarrow> expr \<Rightarrow> expr option" where
  "ConstantFolding_And_const Base LHS RHS =
     (if ConstantExpr_isZero LHS then Some (ConstantExpr LHS)
      else if ConstantExpr_isAllOnes LHS then Some RHS
      else b_Binary Base And (ConstantExpr LHS) RHS)"

definition ConstantFolding_Or_const :: "ExprBuilder \<Rightarrow> apint \<Rightarrow> expr \<Rightarrow> expr option" where
  "ConstantFolding_Or_const Base LHS RHS =
     (if ConstantExpr_isZero LHS then Some RHS
      else if ConstantExpr_isAllOnes LHS then Some (ConstantExpr LHS)
      else b_Binary Base Or (ConstantExpr LHS) RHS)"

definition ConstantFolding_Xor_const :: "ExprBuilder \<Rightarrow> apint \<Rightarrow> expr \<Rightarrow> expr option" where
  "ConstantFolding_Xor_const Base LHS RHS =
     (if ConstantExpr_isZero LHS then Some RHS else b_Binary Base Xor (ConstantExpr LHS) RHS)"

definition ConstantFolding_Eq_const :: "ExprBuilder \<Rightarrow> apint \<Rightarrow> expr \<Rightarrow> expr option" where
  "ConstantFolding_Eq_const Base LHS RHS =
     (if getBitWidth LHS = 1 then
        (if ConstantExpr_isTrue LHS then Some RHS else b_Not Base RHS)
      else b_Binary Base Eq (ConstantExpr LHS) RHS)"

text \<open>
  The three overloads of a method, by the static types that the dispatch has
  established: constant first, constant second, no constant.
\<close>

definition overload ::
    "(apint \<Rightarrow> expr \<Rightarrow> 'a) \<Rightarrow> (expr \<Rightarrow> apint \<Rightarrow> 'a) \<Rightarrow> (expr \<Rightarrow> expr \<Rightarrow> 'a) \<Rightarrow> expr \<Rightarrow> expr \<Rightarrow> 'a" where
  "overload cn nc nn l r =
     (case as_const l of Some c \<Rightarrow> cn c r
      | None \<Rightarrow> (case as_const r of Some d \<Rightarrow> nc l d | None \<Rightarrow> nn l r))"

text \<open>A commutative method passes a constant on the right to the overload for the left.\<close>

definition overload_swap :: "(apint \<Rightarrow> expr \<Rightarrow> 'a) \<Rightarrow> (expr \<Rightarrow> expr \<Rightarrow> 'a) \<Rightarrow> expr \<Rightarrow> expr \<Rightarrow> 'a" where
  "overload_swap cn nn = overload cn (\<lambda>l d. cn d l) nn"

fun ConstantFolding_Binary :: "ExprBuilder \<Rightarrow> ExprBuilder \<Rightarrow> bkind \<Rightarrow> expr \<Rightarrow> expr \<Rightarrow> expr option" where
  "ConstantFolding_Binary Builder Base Add =
     overload_swap (ConstantFolding_Add_const Builder Base) (ConstantFolding_Add_nonconst Builder Base)"
| "ConstantFolding_Binary Builder Base Sub =
     overload (ConstantFolding_Sub_const Builder Base)
       (\<lambda>l d. ConstantFolding_Add_const Builder Base (ConstantExpr_Neg d) l)
       (ConstantFolding_Sub_nonconst Builder Base)"
| "ConstantFolding_Binary Builder Base Mul = overload_swap (ConstantFolding_Mul_const Base) (b_Binary Base Mul)"
| "ConstantFolding_Binary Builder Base And = overload_swap (ConstantFolding_And_const Base) (b_Binary Base And)"
| "ConstantFolding_Binary Builder Base Or = overload_swap (ConstantFolding_Or_const Base) (b_Binary Base Or)"
| "ConstantFolding_Binary Builder Base Xor = overload_swap (ConstantFolding_Xor_const Base) (b_Binary Base Xor)"
| "ConstantFolding_Binary Builder Base Eq = overload_swap (ConstantFolding_Eq_const Base) (b_Binary Base Eq)"
| "ConstantFolding_Binary Builder Base k = b_Binary (ChainedBuilder Base) k"

definition ConstantFoldingBuilder :: "ExprBuilder \<Rightarrow> ExprBuilder \<Rightarrow> ExprBuilder" where
  "ConstantFoldingBuilder Builder Base = (ChainedBuilder Base)\<lparr>b_Binary := ConstantFolding_Binary Builder Base\<rparr>"

section \<open>Simplification\<close>

definition Builder_True :: expr where
  "Builder_True = ConstantExpr_alloc 1 1"

definition Simplifying_Eq_const :: "ExprBuilder \<Rightarrow> apint \<Rightarrow> expr \<Rightarrow> expr option" where
  "Simplifying_Eq_const Base LHS RHS =
     (if getBitWidth LHS = 1 then
        (if ConstantExpr_isTrue LHS then Some RHS else b_Not Base RHS)
      else b_Binary Base Eq (ConstantExpr LHS) RHS)"

definition Simplifying_Eq_nonconst :: "ExprBuilder \<Rightarrow> expr \<Rightarrow> expr \<Rightarrow> expr option" where
  "Simplifying_Eq_nonconst Base LHS RHS =
     (if LHS = RHS then Some Builder_True else b_Binary Base Eq LHS RHS)"

definition Simplifying_Not :: "ExprBuilder \<Rightarrow> ExprBuilder \<Rightarrow> expr \<Rightarrow> expr option" where
  "Simplifying_Not Builder Base LHS =
     (case LHS of
        BinaryExpr Or l r \<Rightarrow>
          do { nl \<leftarrow> b_Not Builder l; nr \<leftarrow> b_Not Builder r; b_Binary Builder And nl nr }
      | _ \<Rightarrow> b_Not Base LHS)"

fun Simplifying_Binary :: "ExprBuilder \<Rightarrow> ExprBuilder \<Rightarrow> bkind \<Rightarrow> expr \<Rightarrow> expr \<Rightarrow> expr option" where
  "Simplifying_Binary Builder Base Eq LHS RHS =
     overload_swap (Simplifying_Eq_const Base) (Simplifying_Eq_nonconst Base) LHS RHS"
| "Simplifying_Binary Builder Base Ne LHS RHS = do { e \<leftarrow> b_Binary Builder Eq LHS RHS; b_Not Builder e }"
| "Simplifying_Binary Builder Base Ugt LHS RHS = b_Binary Builder Ult RHS LHS"
| "Simplifying_Binary Builder Base Uge LHS RHS = b_Binary Builder Ule RHS LHS"
| "Simplifying_Binary Builder Base Sgt LHS RHS = b_Binary Builder Slt RHS LHS"
| "Simplifying_Binary Builder Base Sge LHS RHS = b_Binary Builder Sle RHS LHS"
| "Simplifying_Binary Builder Base k LHS RHS = b_Binary (ChainedBuilder Base) k LHS RHS"

definition SimplifyingBuilder :: "ExprBuilder \<Rightarrow> ExprBuilder \<Rightarrow> ExprBuilder" where
  "SimplifyingBuilder Builder Base =
     (ChainedBuilder Base)\<lparr>b_Not := Simplifying_Not Builder Base, b_Binary := Simplifying_Binary Builder Base\<rparr>"

section \<open>The two builders, with the recursion through \<open>Builder\<close>\<close>

definition no_builder :: ExprBuilder where
  "no_builder =
     \<lparr>b_Constant = (\<lambda>_. None), b_NotOptimized = (\<lambda>_. None), b_Read = (\<lambda>_ _ _. None), b_Select = (\<lambda>_ _ _. None),
      b_Concat = (\<lambda>_ _. None), b_Extract = (\<lambda>_ _ _. None), b_ZExt = (\<lambda>_ _. None), b_SExt = (\<lambda>_ _. None),
      b_Not = (\<lambda>_. None), b_Binary = (\<lambda>_ _ _. None)\<rparr>"

primrec rounds :: "(ExprBuilder \<Rightarrow> ExprBuilder) \<Rightarrow> nat \<Rightarrow> ExprBuilder" where
  "rounds specialized 0 = no_builder"
| "rounds specialized (Suc n) = ConstantSpecializedExprBuilder (specialized (rounds specialized n))"

fun bsize :: "expr \<Rightarrow> nat" where
  "bsize (ConstantExpr c) = 1"
| "bsize (NotExpr e) = Suc (bsize e)"
| "bsize (BinaryExpr k l r) = Suc (bsize l + bsize r)"
| "bsize _ = 2"

definition fold_rounds :: "expr \<Rightarrow> expr \<Rightarrow> nat" where
  "fold_rounds l r = (bsize l + bsize r) * (bsize l + bsize r) + bsize l"

definition ConstantFoldingExprBuilder :: "ExprBuilder \<Rightarrow> ExprBuilder" where
  "ConstantFoldingExprBuilder Base =
     (let B = rounds (\<lambda>Builder. ConstantFoldingBuilder Builder Base)
      in (B 1)\<lparr>b_Binary := (\<lambda>k l r. b_Binary (B (Suc (fold_rounds l r))) k l r)\<rparr>)"

definition simplify_rounds :: "expr \<Rightarrow> expr \<Rightarrow> nat" where
  "simplify_rounds l r = bsize l + bsize r + 3"

definition SimplifyingExprBuilder :: "ExprBuilder \<Rightarrow> ExprBuilder" where
  "SimplifyingExprBuilder Base =
     (let B = rounds (\<lambda>Builder. SimplifyingBuilder Builder Base)
      in (B 1)\<lparr>b_Not := (\<lambda>e. b_Not (B (Suc (bsize e))) e),
               b_Binary := (\<lambda>k l r. b_Binary (B (simplify_rounds l r)) k l r)\<rparr>)"

section \<open>What a builder promises\<close>

text \<open>
  Each method returns a well-formed expression of the node's width with the
  node's value wherever the node has one.  A sized builder moreover does not
  return more nodes than the one asked for would have.
\<close>

locale expr_builder =
  fixes B :: ExprBuilder
  assumes Constant_sound: "wf_apint v \<Longrightarrow> creates (ConstantExpr v) (b_Constant B v)"
    and NotOptimized_sound: "wf_expr e \<Longrightarrow> creates (NotOptimizedExpr e) (b_NotOptimized B e)"
    and Read_sound: "wf_expr (ReadExpr a us i) \<Longrightarrow> creates (ReadExpr a us i) (b_Read B a us i)"
    and Select_sound: "wf_expr (SelectExpr c t f) \<Longrightarrow> creates (SelectExpr c t f) (b_Select B c t f)"
    and Concat_sound: "wf_expr (ConcatExpr l r) \<Longrightarrow> creates (ConcatExpr l r) (b_Concat B l r)"
    and Extract_sound: "wf_expr (ExtractExpr e off w) \<Longrightarrow> creates (ExtractExpr e off w) (b_Extract B e off w)"
    and ZExt_sound: "wf_expr (ZExtExpr e w) \<Longrightarrow> creates (ZExtExpr e w) (b_ZExt B e w)"
    and SExt_sound: "wf_expr (SExtExpr e w) \<Longrightarrow> creates (SExtExpr e w) (b_SExt B e w)"
    and Not_sound: "wf_expr e \<Longrightarrow> creates (NotExpr e) (b_Not B e)"
    and Binary_sound: "wf_expr (BinaryExpr k l r) \<Longrightarrow>
      (is_div k \<Longrightarrow> as_const l \<noteq> None \<Longrightarrow> \<not> Expr_isZero r) \<Longrightarrow>
      creates (BinaryExpr k l r) (b_Binary B k l r)"

locale sized_builder = expr_builder +
  assumes Not_size: "wf_expr e \<Longrightarrow> b_Not B e = Some e' \<Longrightarrow> bsize e' \<le> Suc (bsize e)"
    and Binary_size: "wf_expr (BinaryExpr k l r) \<Longrightarrow> (is_div k \<Longrightarrow> as_const l \<noteq> None \<Longrightarrow> \<not> Expr_isZero r) \<Longrightarrow>
      b_Binary B k l r = Some e \<Longrightarrow> bsize e \<le> Suc (bsize l + bsize r)"

interpretation default_builder: sized_builder DefaultExprBuilder
  by unfold_locales (auto simp: DefaultExprBuilder_def)

definition builds :: "nat \<Rightarrow> expr \<Rightarrow> expr option \<Rightarrow> bool" where
  "builds n e m \<longleftrightarrow> creates e m \<and> (\<forall>e'. m = Some e' \<longrightarrow> bsize e' \<le> n)"

lemma buildsE:
  assumes "builds n e m"
  obtains e' where "m = Some e'" "wf_expr e'" "getWidth e' = getWidth e" "refines e e'" "bsize e' \<le> n"
  using assms by (auto simp: builds_def creates_def)

lemma builds_refines:
  "builds n e' m \<Longrightarrow> refines e e' \<Longrightarrow> getWidth e' = getWidth e \<Longrightarrow> n \<le> n' \<Longrightarrow> builds n' e m"
  by (auto simp: builds_def intro: creates_refines)

lemma builds_Some: "creates e (Some e') \<Longrightarrow> bsize e' \<le> n \<Longrightarrow> builds n e (Some e')"
  by (simp add: builds_def)

lemma bsize_pos [simp]: "0 < bsize e"
  by (cases e) simp_all

lemma bsize_nonconst: "as_const e = None \<Longrightarrow> 1 < bsize e"
  by (cases e) simp_all

section \<open>The dispatch\<close>

lemma specialize_builds:
  assumes "wf_expr (BinaryExpr k l r)" "is_div k \<Longrightarrow> as_const l \<noteq> None \<Longrightarrow> \<not> Expr_isZero r"
    and "as_const l = None \<or> as_const r = None \<Longrightarrow> builds n (BinaryExpr k l r) (op l r)" "0 < n"
  shows "builds n (BinaryExpr k l r) (specialize k op l r)"
proof (cases "as_const l = None \<or> as_const r = None")
  case True
  then show ?thesis using assms(3) by (auto simp: specialize_def split: option.split)
next
  case False
  then obtain c d where cd: "l = ConstantExpr c" "r = ConstantExpr d" by auto
  then have "creates (BinaryExpr k l r) (fold_const k c d)"
    using creates_fold_const [of k c d] assms(1,2) by (auto simp: ConstantExpr_isZero_def)
  moreover have "bsize e \<le> n" if "fold_const k c d = Some e" for e
    using that assms(4) by (auto simp: fold_const_def)
  ultimately show ?thesis by (simp add: builds_def specialize_def cd)
qed

lemma specialize_creates:
  assumes "wf_expr (BinaryExpr k l r)" "is_div k \<Longrightarrow> as_const l \<noteq> None \<Longrightarrow> \<not> Expr_isZero r"
    and "as_const l = None \<or> as_const r = None \<Longrightarrow> creates (BinaryExpr k l r) (op l r)"
  shows "creates (BinaryExpr k l r) (specialize k op l r)"
proof -
  let ?n = "case op l r of Some e \<Rightarrow> bsize e | None \<Rightarrow> 1"
  have "builds ?n (BinaryExpr k l r) (specialize k op l r)"
    by (rule specialize_builds [OF assms(1,2)]) (auto simp: builds_def assms(3) split: option.split)
  then show ?thesis by (simp add: builds_def)
qed

lemma ConstantSpecialized_Binary_eq: "ConstantSpecialized_Binary B k = specialize k (b_Binary B k)"
  by (simp add: ConstantSpecialized_Binary_def ConstantSpecialized_arithmetic_def ConstantSpecialized_bitwise_def
    ConstantSpecialized_comparison_def)

lemma roll_back_sound:
  assumes "wf_expr idx" "getWidth idx = arr_domain a" "wf_updates a us"
    and eq: "\<And>j. wf_expr (BinaryExpr Eq idx j) \<Longrightarrow> creates (BinaryExpr Eq idx j) (ConstantSpecialized_Binary B Eq idx j)"
  shows "\<exists>un. ConstantSpecialized_roll_back B idx us = Some un \<and> wf_updates a un \<and>
    (\<forall>\<sigma> n r. eval \<sigma> idx = Some n \<longrightarrow> eval_read \<sigma> a us n = Some r \<longrightarrow> eval_read \<sigma> a un n = Some r)"
  using assms(3)
proof (induction us)
  case (Cons jv un)
  obtain j v where jv: "jv = (j, v)" by (cases jv)
  with Cons(2) assms(1,2) have "wf_expr (BinaryExpr Eq idx j)" by simp
  from eq [OF this] obtain e where e: "ConstantSpecialized_Binary B Eq idx j = Some e" "wf_expr e" "getWidth e = 1"
    "refines (BinaryExpr Eq idx j) e" by (auto elim: createsE)
  show ?case
  proof (cases "Expr_isFalse e = Some True")
    case True
    then obtain c where c: "e = ConstantExpr c" "apval c = 0"
      by (auto simp: Expr_isFalse_def ConstantExpr_isFalse_def split: if_splits option.splits)
    have ne: "m \<noteq> n" if "eval \<sigma> idx = Some n" "eval \<sigma> j = Some m" for \<sigma> m n
      using refinesD [OF e(4), of \<sigma> "bool_val (n = m)"] that c by (auto simp: bool_val_def)
    have skip: "eval_read \<sigma> a un n = Some r" if "eval \<sigma> idx = Some n" "eval_read \<sigma> a ((j, v) # un) n = Some r" for \<sigma> n r
      using that ne [OF that(1)] by (auto split: option.splits if_splits)
    have "wf_updates a un" using Cons(2) by (simp add: jv)
    from Cons(1) [OF this] obtain un' where un': "ConstantSpecialized_roll_back B idx un = Some un'" "wf_updates a un'"
      "\<forall>\<sigma> n r. eval \<sigma> idx = Some n \<longrightarrow> eval_read \<sigma> a un n = Some r \<longrightarrow> eval_read \<sigma> a un' n = Some r" by blast
    have "ConstantSpecialized_roll_back B idx (jv # un) = Some un'" using True e(1) un'(1) by (simp add: jv)
    moreover have "eval_read \<sigma> a un' n = Some r" if "eval \<sigma> idx = Some n" "eval_read \<sigma> a (jv # un) n = Some r" for \<sigma> n r
      using un'(3) skip that unfolding jv by blast
    ultimately show ?thesis using un'(2) by blast
  next
    case False
    then have "Expr_isFalse e = Some False" using e(3) by (simp add: Expr_isFalse_def)
    then show ?thesis using e(1) Cons(2) by (simp add: jv)
  qed
qed simp

lemma ConstantSpecialized_Read_sound:
  assumes wf: "wf_expr (ReadExpr a us i)"
    and eq: "\<And>j. wf_expr (BinaryExpr Eq i j) \<Longrightarrow> creates (BinaryExpr Eq i j) (ConstantSpecialized_Binary B Eq i j)"
    and rd: "\<And>un. wf_expr (ReadExpr a un i) \<Longrightarrow> creates (ReadExpr a un i) (b_Read B a un i)"
  shows "creates (ReadExpr a us i) (ConstantSpecialized_Read B a us i)"
proof -
  obtain un where un: "ConstantSpecialized_roll_back B i us = Some un" "wf_updates a un"
    "\<forall>\<sigma> n r. eval \<sigma> i = Some n \<longrightarrow> eval_read \<sigma> a us n = Some r \<longrightarrow> eval_read \<sigma> a un n = Some r"
    using roll_back_sound [OF _ _ _ eq, of a us] wf by (auto simp: wf_ReadExpr)
  have "creates (ReadExpr a un i) (b_Read B a un i)" by (rule rd) (use wf un(2) in \<open>simp add: wf_ReadExpr\<close>)
  moreover have "refines (ReadExpr a us i) (ReadExpr a un i)"
    using un(3) by (intro refinesI) (auto split: option.splits)
  ultimately show ?thesis using creates_refines by (simp add: ConstantSpecialized_Read_def un(1)) 
qed

text \<open>The other methods of the dispatch, over any sound builder.\<close>

context expr_builder
begin

lemma Select_dispatch: "wf_expr (SelectExpr c t f) \<Longrightarrow> creates (SelectExpr c t f) (ConstantSpecialized_Select B c t f)"
  using Select_sound [of c t f]
  by (cases c) (auto simp: ConstantSpecialized_Select_def ConstantExpr_isTrue_def intro!: createsI refinesI split: option.splits)

lemma Concat_dispatch: "wf_expr (ConcatExpr l r) \<Longrightarrow> creates (ConcatExpr l r) (ConstantSpecialized_Concat B l r)"
  using Concat_sound [of l r] wf_apintD(1)
  by (auto simp: ConstantSpecialized_Concat_def apval_Concat intro!: createsI refinesI split: option.split)

lemma Extract_dispatch:
  "wf_expr (ExtractExpr e off w) \<Longrightarrow> creates (ExtractExpr e off w) (ConstantSpecialized_Extract B e off w)"
  using Extract_sound [of e off w]
  by (auto simp: ConstantSpecialized_Extract_def apval_Extract intro!: createsI refinesI split: option.split)

lemma ZExt_dispatch: "wf_expr (ZExtExpr e w) \<Longrightarrow> creates (ZExtExpr e w) (ConstantSpecialized_ZExt B e w)"
  using ZExt_sound [of e w]
  by (auto simp: ConstantSpecialized_ZExt_def apval_ZExt intro!: createsI refinesI split: option.split)

lemma SExt_dispatch: "wf_expr (SExtExpr e w) \<Longrightarrow> creates (SExtExpr e w) (ConstantSpecialized_SExt B e w)"
  using SExt_sound [of e w]
  by (auto simp: ConstantSpecialized_SExt_def apval_SExt intro!: createsI refinesI split: option.split)

end

section \<open>Constant folding is sound and ends\<close>

lemma builds_nested:
  assumes "builds n' e m" "refines E (BinaryExpr k c e)" "getWidth E = getWidth (BinaryExpr k c e)"
    and "\<And>s. wf_expr s \<Longrightarrow> getWidth s = getWidth e \<Longrightarrow> bsize s \<le> n' \<Longrightarrow> builds n (BinaryExpr k c s) (F s)"
  shows "builds n E (Option.bind m F)"
  using assms(1)
proof (rule buildsE)
  fix s assume s: "m = Some s" "wf_expr s" "getWidth s = getWidth e" "refines e s" "bsize s \<le> n'"
  have "refines E (BinaryExpr k c s)"
    using refines_trans [OF assms(2) refines_Binary [OF refines_refl s(4)]] by simp
  with builds_refines [OF assms(4) [OF s(2,3,5)] this] show ?thesis using assms(3) s(1,3) by simp
qed

lemma refines_const_right:
  assumes "getBitWidth c = w" "getWidth x = w" "getWidth y = w"
  shows "refines (BinaryExpr Add x (BinaryExpr Add y (ConstantExpr c))) (BinaryExpr Add (ConstantExpr c) (BinaryExpr Add x y))"
    "refines (BinaryExpr Add x (BinaryExpr Sub y (ConstantExpr c)))
       (BinaryExpr Add (ConstantExpr (ConstantExpr_Neg c)) (BinaryExpr Add x y))"
    "refines (BinaryExpr Sub x (BinaryExpr Add (ConstantExpr c) y))
       (BinaryExpr Add (ConstantExpr (ConstantExpr_Neg c)) (BinaryExpr Sub x y))"
    "refines (BinaryExpr Sub x (BinaryExpr Add y (ConstantExpr c)))
       (BinaryExpr Add (ConstantExpr (ConstantExpr_Neg c)) (BinaryExpr Sub x y))"
    "refines (BinaryExpr Sub x (BinaryExpr Sub (ConstantExpr c) y))
       (BinaryExpr Add (ConstantExpr (ConstantExpr_Neg c)) (BinaryExpr Add x y))"
    "refines (BinaryExpr Sub x (BinaryExpr Sub y (ConstantExpr c))) (BinaryExpr Add (ConstantExpr c) (BinaryExpr Sub x y))"
    "refines (BinaryExpr Sub x (ConstantExpr c)) (BinaryExpr Add (ConstantExpr (ConstantExpr_Neg c)) x)"
  using assms by (auto intro!: refinesI simp: apval_Neg mod_simps algebra_simps split: option.splits)

lemma refines_const_folded:
  assumes "getBitWidth cl = w" "getBitWidth c = w" "getWidth x = w" "getBitWidth d = w"
  shows "Some (apval d) = bv_sem Add w (apval cl) (apval c) \<Longrightarrow>
      refines (BinaryExpr Add (ConstantExpr cl) (BinaryExpr Add x (ConstantExpr c))) (BinaryExpr Add (ConstantExpr d) x)"
    "Some (apval d) = bv_sem Sub w (apval cl) (apval c) \<Longrightarrow>
      refines (BinaryExpr Add (ConstantExpr cl) (BinaryExpr Sub x (ConstantExpr c))) (BinaryExpr Add (ConstantExpr d) x)"
    "Some (apval d) = bv_sem Sub w (apval cl) (apval c) \<Longrightarrow>
      refines (BinaryExpr Sub (ConstantExpr cl) (BinaryExpr Add x (ConstantExpr c))) (BinaryExpr Sub (ConstantExpr d) x)"
    "Some (apval d) = bv_sem Add w (apval cl) (apval c) \<Longrightarrow>
      refines (BinaryExpr Sub (ConstantExpr cl) (BinaryExpr Sub x (ConstantExpr c))) (BinaryExpr Sub (ConstantExpr d) x)"
  using assms by (auto intro!: refinesI simp: mod_simps algebra_simps split: option.splits)

definition fold_smaller :: "expr \<Rightarrow> expr \<Rightarrow> nat \<Rightarrow> nat \<Rightarrow> bool" where
  "fold_smaller l' r' T L \<longleftrightarrow> bsize l' + bsize r' < T \<or> bsize l' + bsize r' \<le> T \<and> bsize l' < L"

lemma fold_rounds_less:
  assumes "fold_smaller l' r' (bsize l + bsize r) (bsize l)"
  shows "fold_rounds l' r' < fold_rounds l r"
proof (cases "bsize l' + bsize r' < bsize l + bsize r")
  case True
  let ?T = "bsize l + bsize r" and ?T' = "bsize l' + bsize r'"
  have "?T' * ?T' + ?T' = ?T' * Suc ?T'" by simp
  also have "\<dots> \<le> ?T * ?T" using True by (intro mult_mono) auto
  finally show ?thesis using bsize_pos [of l] by (simp add: fold_rounds_def del: bsize_pos)
next
  case False
  then have "bsize l' + bsize r' = bsize l + bsize r" "bsize l' < bsize l"
    using assms by (auto simp: fold_smaller_def)
  then show ?thesis by (simp add: fold_rounds_def)
qed

text \<open>What a call of the methods may assume of the calls it makes through \<open>Builder\<close>.\<close>

definition folds_below :: "ExprBuilder \<Rightarrow> nat \<Rightarrow> nat \<Rightarrow> bool" where
  "folds_below Bu T L \<longleftrightarrow>
     (\<forall>k l' r'. k \<in> {Add, Sub} \<longrightarrow> wf_expr (BinaryExpr k l' r') \<longrightarrow> fold_smaller l' r' T L \<longrightarrow>
        builds (Suc (bsize l' + bsize r')) (BinaryExpr k l' r') (b_Binary Bu k l' r'))"

lemma folds_belowD:
  "folds_below Bu T L \<Longrightarrow> k \<in> {Add, Sub} \<Longrightarrow> wf_expr (BinaryExpr k l' r') \<Longrightarrow> fold_smaller l' r' T L \<Longrightarrow>
     builds (Suc (bsize l' + bsize r')) (BinaryExpr k l' r') (b_Binary Bu k l' r')"
  unfolding folds_below_def by blast

lemma builds_with_const:
  assumes below: "folds_below Bu T L" and k: "k \<in> {Add, Sub}" "k' \<in> {Add, Sub}"
    and wf: "wf_apint cl" "wf_apint c" "getBitWidth c = getBitWidth cl" "wf_expr x" "getWidth x = getBitWidth cl"
    and size: "Suc (bsize x) < T" "Suc (Suc (bsize x)) \<le> n"
    and r: "\<And>d. getBitWidth d = getBitWidth cl \<Longrightarrow> Some (apval d) = bv_sem k (getBitWidth cl) (apval cl) (apval c) \<Longrightarrow>
      refines E (BinaryExpr k' (ConstantExpr d) x)"
    and w: "getWidth E = getBitWidth cl"
  shows "builds n E (with_const Bu k' (ConstantExpr_op k cl c) x)"
proof -
  obtain d where d: "ConstantExpr_op k cl c = Some d" "wf_apint d" "getBitWidth d = getBitWidth cl"
    "Some (apval d) = bv_sem k (getBitWidth cl) (apval cl) (apval c)"
    by (rule op_const [of cl c k]) (use wf k in auto)
  have "builds (Suc (Suc (bsize x))) (BinaryExpr k' (ConstantExpr d) x) (b_Binary Bu k' (ConstantExpr d) x)"
    using folds_belowD [OF below k(2), of "ConstantExpr d" x] d wf size by (simp add: fold_smaller_def)
  from builds_refines [OF this r [OF d(3,4)] _ size(2)] show ?thesis using k(2) w d(1,3) by (auto simp: with_const_def)
qed

definition no_const_kid :: "expr \<Rightarrow> bool" where
  "no_const_kid r \<longleftrightarrow>
     (\<forall>k x y. k \<in> {Add, Sub} \<longrightarrow> r = BinaryExpr k x y \<longrightarrow> as_const x = None \<and> as_const y = None)"

lemma no_const_kid_Binary [simp]:
  "no_const_kid (BinaryExpr k x y) \<longleftrightarrow> (k \<in> {Add, Sub} \<longrightarrow> as_const x = None \<and> as_const y = None)"
  by (auto simp: no_const_kid_def)

definition no_sum :: "expr \<Rightarrow> bool" where
  "no_sum l \<longleftrightarrow> (\<forall>k x y. k \<in> {Add, Sub} \<longrightarrow> l \<noteq> BinaryExpr k x y)"

lemma no_sum_Binary [simp]: "no_sum (BinaryExpr k x y) \<longleftrightarrow> k \<notin> {Add, Sub}"
  by (auto simp: no_sum_def)

lemma fold_default:
  "no_const_kid r \<Longrightarrow> \<not> ConstantExpr_isZero c \<Longrightarrow> ConstantFolding_Add_const Bu Ba c r = b_Binary Ba Add (ConstantExpr c) r"
  "no_const_kid r \<Longrightarrow> ConstantFolding_Sub_const Bu Ba c r = b_Binary Ba Sub (ConstantExpr c) r"
  by (cases r; simp add: ConstantFolding_Add_const_def ConstantFolding_Sub_const_def const_kid_def split: bkind.split)+

lemma fold_default_nonconst:
  "no_sum l \<Longrightarrow> no_const_kid r \<Longrightarrow> ConstantFolding_Add_nonconst Bu Ba l r = b_Binary Ba Add l r"
  "no_sum l \<Longrightarrow> no_const_kid r \<Longrightarrow> ConstantFolding_Sub_nonconst Bu Ba l r = b_Binary Ba Sub l r"
  by (cases l; cases r; simp add: ConstantFolding_Add_nonconst_def ConstantFolding_Sub_nonconst_def const_kid_def split: bkind.split)+

lemma fold_right_nonconst:
  assumes "no_sum l" "r = BinaryExpr k x y" "as_const x \<noteq> None \<or> as_const y \<noteq> None"
  shows "k = Add \<Longrightarrow> ConstantFolding_Add_nonconst Bu Ba l r = const_kid x y
      (\<lambda>CE. do { s \<leftarrow> b_Binary Bu Add l y; b_Binary Bu Add (ConstantExpr CE) s })
      (\<lambda>CE. do { s \<leftarrow> b_Binary Bu Add l x; b_Binary Bu Add (ConstantExpr CE) s }) None"
    "k = Sub \<Longrightarrow> ConstantFolding_Add_nonconst Bu Ba l r = const_kid x y
      (\<lambda>CE. do { s \<leftarrow> b_Binary Bu Sub l y; b_Binary Bu Add (ConstantExpr CE) s })
      (\<lambda>CE. do { s \<leftarrow> b_Binary Bu Add l x; b_Binary Bu Add (ConstantExpr (ConstantExpr_Neg CE)) s }) None"
    "k = Add \<Longrightarrow> ConstantFolding_Sub_nonconst Bu Ba l r = const_kid x y
      (\<lambda>CE. do { s \<leftarrow> b_Binary Bu Sub l y; b_Binary Bu Add (ConstantExpr (ConstantExpr_Neg CE)) s })
      (\<lambda>CE. do { s \<leftarrow> b_Binary Bu Sub l x; b_Binary Bu Add (ConstantExpr (ConstantExpr_Neg CE)) s }) None"
    "k = Sub \<Longrightarrow> ConstantFolding_Sub_nonconst Bu Ba l r = const_kid x y
      (\<lambda>CE. do { s \<leftarrow> b_Binary Bu Add l y; b_Binary Bu Add (ConstantExpr (ConstantExpr_Neg CE)) s })
      (\<lambda>CE. do { s \<leftarrow> b_Binary Bu Sub l x; b_Binary Bu Add (ConstantExpr CE) s }) None"
  using assms
  by (cases l; simp add: ConstantFolding_Add_nonconst_def ConstantFolding_Sub_nonconst_def const_kid_def
    split: bkind.split option.split; blast)+

lemma AddSub_kids:
  fixes r :: expr
  obtains (left) k d y where "k \<in> {Add, Sub}" "r = BinaryExpr k (ConstantExpr d) y"
  | (right) k x d where "k \<in> {Add, Sub}" "as_const x = None" "r = BinaryExpr k x (ConstantExpr d)"
  | (none) "no_const_kid r"
proof (cases "\<exists>k x y. k \<in> {Add, Sub} \<and> r = BinaryExpr k x y")
  case True
  then obtain k x y where r: "k \<in> {Add, Sub}" "r = BinaryExpr k x y" by blast
  show thesis
  proof (cases "as_const x")
    case None
    then show thesis using r right none by (cases "as_const y") (auto simp: no_const_kid_def)
  qed (use r left in auto)
next
  case False
  then have "no_const_kid r" unfolding no_const_kid_def by blast
  then show thesis by (rule none)
qed

context sized_builder
begin

lemma Base_builds:
  assumes "wf_expr (BinaryExpr k l r)" "\<not> is_div k" "Suc (bsize l + bsize r) \<le> n"
  shows "builds n (BinaryExpr k l r) (b_Binary B k l r)"
proof -
  have "creates (BinaryExpr k l r) (b_Binary B k l r)" by (rule Binary_sound [OF assms(1)]) (use assms(2) in simp)
  moreover have "bsize e \<le> n" if "b_Binary B k l r = Some e" for e using Binary_size [OF assms(1) _ that] assms(2,3) by auto
  ultimately show ?thesis by (simp add: builds_def)
qed

lemma Add_const_builds:
  assumes wf: "wf_expr (BinaryExpr Add (ConstantExpr c) r)"
    and below: "folds_below Bu T L" and T: "Suc (bsize r) \<le> T"
  shows "builds (Suc (Suc (bsize r))) (BinaryExpr Add (ConstantExpr c) r) (ConstantFolding_Add_const Bu B c r)"
proof (cases "ConstantExpr_isZero c")
  case True
  have "creates (BinaryExpr Add (ConstantExpr c) r) (Some r)"
    by (rule creates_BinaryI [OF wf]) (use wf True in \<open>auto simp: ConstantExpr_isZero_def mod_pow2_small\<close>)
  then show ?thesis using True by (simp add: ConstantFolding_Add_const_def builds_def)
next
  case nz: False
  note K = builds_with_const [OF below, where E = "BinaryExpr Add (ConstantExpr c) r" and n = "Suc (Suc (bsize r))" and cl = c]
  show ?thesis
  proof (cases rule: AddSub_kids [of r])
    case (left k d y)
    then have w: "wf_apint c" "wf_apint d" "getBitWidth d = getBitWidth c" "wf_expr y" "getWidth y = getBitWidth c"
      using wf by auto
    have "builds (Suc (Suc (bsize r))) (BinaryExpr Add (ConstantExpr c) r) (with_const Bu k (ConstantExpr_op Add c d) y)"
      by (rule K [OF _ left(1) w]) (use T w(3) left refines_reassoc_const(1,2) [OF refl w(3,5)] in auto)
    then show ?thesis using left nz by (auto simp: ConstantFolding_Add_const_def const_kid_def)
  next
    case (right k x d)
    then have w: "wf_apint c" "wf_apint d" "getBitWidth d = getBitWidth c" "wf_expr x" "getWidth x = getBitWidth c"
      using wf by auto
    have "builds (Suc (Suc (bsize r))) (BinaryExpr Add (ConstantExpr c) r) (with_const Bu Add (ConstantExpr_op k c d) x)"
      by (rule K [OF right(1) _ w]) (use T w(3) right refines_const_folded(1,2) [OF refl w(3,5)] in auto)
    then show ?thesis using right nz by (auto simp: ConstantFolding_Add_const_def const_kid_def)
  next
    case none
    then show ?thesis using Base_builds [OF wf] nz by (simp add: fold_default)
  qed
qed

lemma Sub_const_builds:
  assumes wf: "wf_expr (BinaryExpr Sub (ConstantExpr c) r)"
    and below: "folds_below Bu T L" and T: "Suc (bsize r) \<le> T"
  shows "builds (Suc (Suc (bsize r))) (BinaryExpr Sub (ConstantExpr c) r) (ConstantFolding_Sub_const Bu B c r)"
proof -
  note K = builds_with_const [OF below, where E = "BinaryExpr Sub (ConstantExpr c) r" and n = "Suc (Suc (bsize r))" and cl = c]
  show ?thesis
  proof (cases rule: AddSub_kids [of r])
    case (left k d y)
    then have w: "wf_apint c" "wf_apint d" "getBitWidth d = getBitWidth c" "wf_expr y" "getWidth y = getBitWidth c"
      using wf by auto
    have "builds (Suc (Suc (bsize r))) (BinaryExpr Sub (ConstantExpr c) r)
        (with_const Bu (if k = Add then Sub else Add) (ConstantExpr_op Sub c d) y)"
      by (rule K [OF _ _ w]) (use T w(3) left refines_reassoc_const(3,4) [OF refl w(3,5)] in auto)
    then show ?thesis using left by (auto simp: ConstantFolding_Sub_const_def const_kid_def)
  next
    case (right k x d)
    then have w: "wf_apint c" "wf_apint d" "getBitWidth d = getBitWidth c" "wf_expr x" "getWidth x = getBitWidth c"
      using wf by auto
    have "builds (Suc (Suc (bsize r))) (BinaryExpr Sub (ConstantExpr c) r)
        (with_const Bu Sub (ConstantExpr_op (if k = Add then Sub else Add) c d) x)"
      by (rule K [OF _ _ w]) (use T w(3) right refines_const_folded(3,4) [OF refl w(3,5)] in auto)
    then show ?thesis using right by (auto simp: ConstantFolding_Sub_const_def const_kid_def)
  next
    case none
    then show ?thesis using Base_builds [OF wf] by (simp add: fold_default)
  qed
qed

text \<open>A method without constants first looks for a sum on the left, then for a constant on the right.\<close>

lemma nested_builds:
  assumes below: "folds_below Bu T L" and k: "k \<in> {Add, Sub}" "k' \<in> {Add, Sub}"
    and wf: "wf_expr a" "wf_expr x" "wf_expr y" "getWidth x = getWidth a" "getWidth y = getWidth a"
    and size: "Suc (bsize a + bsize x + bsize y) \<le> T" "bsize a < L"
    and r: "refines E (BinaryExpr k' a (BinaryExpr k x y))" and w: "getWidth E = getWidth a"
  shows "builds (Suc T) E (do { s \<leftarrow> b_Binary Bu k x y; b_Binary Bu k' a s })"
proof (rule builds_nested [OF _ r])
  have cmp: "\<not> is_cmp k" "\<not> is_cmp k'" using k by auto
  show "builds (Suc (bsize x + bsize y)) (BinaryExpr k x y) (b_Binary Bu k x y)"
    by (rule folds_belowD [OF below k(1)]) (use wf size bsize_pos [of a] in \<open>auto simp: fold_smaller_def\<close>)
  show "getWidth E = getWidth (BinaryExpr k' a (BinaryExpr k x y))" using w cmp by simp
  fix s assume s: "wf_expr s" "getWidth s = getWidth (BinaryExpr k x y)" "bsize s \<le> Suc (bsize x + bsize y)"
  have "builds (Suc (bsize a + bsize s)) (BinaryExpr k' a s) (b_Binary Bu k' a s)"
    by (rule folds_belowD [OF below k(2)]) (use wf s size cmp in \<open>auto simp: fold_smaller_def\<close>)
  then show "builds (Suc T) (BinaryExpr k' a s) (b_Binary Bu k' a s)"
    by (rule builds_refines) (use s(3) size(1) in simp_all)
qed

lemma Add_nonconst_builds:
  assumes wf: "wf_expr (BinaryExpr Add l r)" and nc: "as_const l = None"
    and below: "folds_below Bu (bsize l + bsize r) (bsize l)"
  shows "builds (Suc (bsize l + bsize r)) (BinaryExpr Add l r) (ConstantFolding_Add_nonconst Bu B l r)"
proof (cases "\<exists>k x y. k \<in> {Add, Sub} \<and> l = BinaryExpr k x y")
  case True
  then obtain k x y where l: "k \<in> {Add, Sub}" "l = BinaryExpr k x y" by blast
  have w: "wf_expr x" "wf_expr y" "wf_expr r" "getWidth y = getWidth x" "getWidth r = getWidth x" using wf l by auto
  note N = nested_builds [OF below, where E = "BinaryExpr Add l r" and a = x]
  show ?thesis
  proof (cases "k = Add")
    case True
    have "builds (Suc (bsize l + bsize r)) (BinaryExpr Add l r) (do { s \<leftarrow> b_Binary Bu Add y r; b_Binary Bu Add x s })"
      by (rule N) (use w True refines_reassoc(1) [OF refl w(4,5)] in \<open>auto simp: l(2)\<close>)
    then show ?thesis by (simp add: ConstantFolding_Add_nonconst_def l(2) True)
  next
    case False
    then have k: "k = Sub" using l(1) by simp
    have "builds (Suc (bsize l + bsize r)) (BinaryExpr Add l r) (do { s \<leftarrow> b_Binary Bu Sub r y; b_Binary Bu Add x s })"
      by (rule N) (use w k refines_reassoc(2) [OF refl w(4,5)] in \<open>auto simp: l(2)\<close>)
    then show ?thesis by (simp add: ConstantFolding_Add_nonconst_def l(2) k)
  qed
next
  case False
  then have lF: "no_sum l" by (auto simp: no_sum_def)
  note N = nested_builds [OF below, where E = "BinaryExpr Add l r" and x = l]
  have size: "1 < bsize l" using bsize_nonconst [OF nc] .
  show ?thesis
  proof (cases rule: AddSub_kids [of r])
    case (left k d y)
    then have w: "wf_apint d" "getBitWidth d = getWidth l" "wf_expr y" "getWidth y = getWidth l" "wf_expr l"
      using wf by auto
    have "builds (Suc (bsize l + bsize r)) (BinaryExpr Add l r) (do { s \<leftarrow> b_Binary Bu k l y; b_Binary Bu Add (ConstantExpr d) s })"
      by (rule N) (use w left size refines_reassoc(3,4) [of "ConstantExpr d" "getWidth l" l y] in auto)
    then show ?thesis using left(1) fold_right_nonconst(1,2) [OF lF left(2)] by (auto simp: const_kid_def)
  next
    case (right k x d)
    then have w: "wf_apint d" "getBitWidth d = getWidth l" "wf_expr x" "getWidth x = getWidth l" "wf_expr l"
      using wf by auto
    let ?d = "if k = Add then d else ConstantExpr_Neg d"
    have "builds (Suc (bsize l + bsize r)) (BinaryExpr Add l r) (do { s \<leftarrow> b_Binary Bu Add l x; b_Binary Bu Add (ConstantExpr ?d) s })"
      by (rule N) (use w right size refines_const_right(1,2) [OF w(2) refl w(4)] wf_apintD(1) [OF w(1)] in auto)
    then show ?thesis using right(1,2) fold_right_nonconst(1,2) [OF lF right(3)] by (auto simp: const_kid_def)
  next
    case none
    then show ?thesis using Base_builds [OF wf] lF by (simp add: fold_default_nonconst)
  qed
qed

lemma Sub_nonconst_builds:
  assumes wf: "wf_expr (BinaryExpr Sub l r)" and nc: "as_const l = None"
    and below: "folds_below Bu (bsize l + bsize r) (bsize l)"
  shows "builds (Suc (bsize l + bsize r)) (BinaryExpr Sub l r) (ConstantFolding_Sub_nonconst Bu B l r)"
proof (cases "\<exists>k x y. k \<in> {Add, Sub} \<and> l = BinaryExpr k x y")
  case True
  then obtain k x y where l: "k \<in> {Add, Sub}" "l = BinaryExpr k x y" by blast
  have w: "wf_expr x" "wf_expr y" "wf_expr r" "getWidth y = getWidth x" "getWidth r = getWidth x" using wf l by auto
  let ?k = "if k = Add then Sub else Add"
  have "builds (Suc (bsize l + bsize r)) (BinaryExpr Sub l r) (do { s \<leftarrow> b_Binary Bu ?k y r; b_Binary Bu k x s })"
    by (rule nested_builds [OF below, where E = "BinaryExpr Sub l r" and a = x])
      (use w l(1) refines_reassoc(5,6) [OF refl w(4,5)] in \<open>auto simp: l(2)\<close>)
  then show ?thesis using l(1) by (auto simp: ConstantFolding_Sub_nonconst_def l(2))
next
  case False
  then have lF: "no_sum l" by (auto simp: no_sum_def)
  note N = nested_builds [OF below, where E = "BinaryExpr Sub l r" and x = l]
  have size: "1 < bsize l" using bsize_nonconst [OF nc] .
  show ?thesis
  proof (cases rule: AddSub_kids [of r])
    case (left k d y)
    then have w: "wf_apint d" "getBitWidth d = getWidth l" "wf_expr y" "getWidth y = getWidth l" "wf_expr l"
      using wf by auto
    let ?k = "if k = Add then Sub else Add" and ?d = "ConstantExpr_Neg d"
    have "builds (Suc (bsize l + bsize r)) (BinaryExpr Sub l r) (do { s \<leftarrow> b_Binary Bu ?k l y; b_Binary Bu Add (ConstantExpr ?d) s })"
      by (rule N) (use w left size refines_const_right(3,5) [OF w(2) refl w(4)] wf_apintD(1) [OF w(1)] in auto)
    then show ?thesis using left(1) fold_right_nonconst(3,4) [OF lF left(2)] by (auto simp: const_kid_def)
  next
    case (right k x d)
    then have w: "wf_apint d" "getBitWidth d = getWidth l" "wf_expr x" "getWidth x = getWidth l" "wf_expr l"
      using wf by auto
    let ?d = "if k = Add then ConstantExpr_Neg d else d"
    have "builds (Suc (bsize l + bsize r)) (BinaryExpr Sub l r) (do { s \<leftarrow> b_Binary Bu Sub l x; b_Binary Bu Add (ConstantExpr ?d) s })"
      by (rule N) (use w right size refines_const_right(4,6) [OF w(2) refl w(4)] wf_apintD(1) [OF w(1)] in auto)
    then show ?thesis using right(1,2) fold_right_nonconst(3,4) [OF lF right(3)] by (auto simp: const_kid_def)
  next
    case none
    then show ?thesis using Base_builds [OF wf] lF by (simp add: fold_default_nonconst)
  qed
qed

end

lemma b_Binary_rounds [simp]:
  "b_Binary (rounds F (Suc n)) k = specialize k (b_Binary (F (rounds F n)) k)"
  by (simp add: ConstantSpecializedExprBuilder_def ConstantSpecialized_Binary_eq)

lemma b_Not_rounds [simp]: "b_Not (rounds F (Suc n)) = ConstantSpecialized_Not (F (rounds F n))"
  by (simp add: ConstantSpecializedExprBuilder_def)

declare rounds.simps(2) [simp del]

lemma b_Binary_ConstantFolding [simp]: "b_Binary (ConstantFoldingBuilder Bu Ba) = ConstantFolding_Binary Bu Ba"
  by (simp add: ConstantFoldingBuilder_def)

text \<open>An overloaded method is sound when each of its overloads is.\<close>

lemma overload_builds:
  assumes "\<And>c. l = ConstantExpr c \<Longrightarrow> builds n E (cn c r)"
    and "\<And>d. as_const l = None \<Longrightarrow> r = ConstantExpr d \<Longrightarrow> builds n E (nc l d)"
    and "as_const l = None \<Longrightarrow> as_const r = None \<Longrightarrow> builds n E (nn l r)"
  shows "builds n E (overload cn nc nn l r)"
  using assms by (auto simp: overload_def split: option.split)

lemma overload_swap_builds:
  assumes wf: "wf_expr (BinaryExpr k l r)" and k: "k \<in> {Add, Mul, And, Or, Xor, Eq}"
    and cn: "\<And>c e. wf_expr (BinaryExpr k (ConstantExpr c) e) \<Longrightarrow> {ConstantExpr c, e} = {l, r} \<Longrightarrow>
      builds (Suc (Suc (bsize e))) (BinaryExpr k (ConstantExpr c) e) (cn c e)"
    and nn: "as_const l = None \<Longrightarrow> as_const r = None \<Longrightarrow> builds (Suc (bsize l + bsize r)) (BinaryExpr k l r) (nn l r)"
  shows "builds (Suc (bsize l + bsize r)) (BinaryExpr k l r) (overload_swap cn nn l r)"
  unfolding overload_swap_def
proof (rule overload_builds)
  fix c assume "l = ConstantExpr c"
  then show "builds (Suc (bsize l + bsize r)) (BinaryExpr k l r) (cn c r)" using cn [of c r] wf by simp
next
  fix d assume d: "r = ConstantExpr d"
  then have w: "wf_expr (BinaryExpr k (ConstantExpr d) l)" using wf by auto
  have "refines (BinaryExpr k l r) (BinaryExpr k (ConstantExpr d) l)"
    unfolding d by (rule refines_commute) (use wf d k in auto)
  from builds_refines [OF cn [OF w] this] show "builds (Suc (bsize l + bsize r)) (BinaryExpr k l r) (cn d l)"
    using wf d by (simp add: insert_commute)
qed (rule nn)

context sized_builder
begin

lemma Not_builds: "wf_expr e \<Longrightarrow> Suc (bsize e) \<le> n \<Longrightarrow> builds n (NotExpr e) (b_Not B e)"
  using Not_sound [of e] Not_size [of e] by (fastforce simp: builds_def)

lemma fold_AddSub:
  assumes "k \<in> {Add, Sub}" "wf_expr (BinaryExpr k l r)" "fold_rounds l r < n"
  shows "builds (Suc (bsize l + bsize r)) (BinaryExpr k l r)
    (b_Binary (rounds (\<lambda>Builder. ConstantFoldingBuilder Builder B) n) k l r)"
  using assms
proof (induction n arbitrary: k l r)
  case (Suc n)
  let ?Bu = "rounds (\<lambda>Builder. ConstantFoldingBuilder Builder B) n"
  have below: "folds_below ?Bu (bsize l + bsize r) (bsize l)"
    unfolding folds_below_def using Suc.IH Suc.prems(3) fold_rounds_less [of _ _ l r]
    by (meson less_Suc_eq_le less_le_trans)
  note wf = Suc.prems(2)
  have "builds (Suc (bsize l + bsize r)) (BinaryExpr k l r) (ConstantFolding_Binary ?Bu B k l r)"
  proof (cases "k = Add")
    case True
    have "builds (Suc (bsize l + bsize r)) (BinaryExpr Add l r)
        (overload_swap (ConstantFolding_Add_const ?Bu B) (ConstantFolding_Add_nonconst ?Bu B) l r)"
      by (rule overload_swap_builds)
        (use wf True Add_const_builds [OF _ below] Add_nonconst_builds [OF _ _ below] in \<open>auto simp: doubleton_eq_iff\<close>)
    then show ?thesis by (simp add: True)
  next
    case False
    then have k: "k = Sub" using Suc.prems(1) by simp
    have nc: "builds (Suc (bsize l + bsize r)) (BinaryExpr Sub l r) (ConstantFolding_Add_const ?Bu B (ConstantExpr_Neg d) l)"
      if d: "r = ConstantExpr d" for d
    proof -
      have w: "wf_expr (BinaryExpr Add (ConstantExpr (ConstantExpr_Neg d)) l)" "getBitWidth d = getWidth l"
        using wf d k wf_apintD(1) [of d] by auto
      have "refines (BinaryExpr Sub l r) (BinaryExpr Add (ConstantExpr (ConstantExpr_Neg d)) l)"
        unfolding d by (rule refines_const_right(7) [OF w(2) refl refl])
      from builds_refines [OF Add_const_builds [OF w(1) below] this] show ?thesis using w d by simp
    qed
    have "builds (Suc (bsize l + bsize r)) (BinaryExpr Sub l r)
        (overload (ConstantFolding_Sub_const ?Bu B) (\<lambda>l d. ConstantFolding_Add_const ?Bu B (ConstantExpr_Neg d) l)
          (ConstantFolding_Sub_nonconst ?Bu B) l r)"
      by (rule overload_builds)
        (use wf k nc Sub_const_builds [OF _ below] Sub_nonconst_builds [OF _ _ below] in auto)
    then show ?thesis by (simp add: k)
  qed
  then show ?case unfolding b_Binary_rounds b_Binary_ConstantFolding
    by (intro specialize_builds) (use Suc.prems in auto)
qed simp

lemma fold_bitwise:
  assumes "wf_expr (BinaryExpr k (ConstantExpr c) e)"
  shows "k = Mul \<Longrightarrow> builds (Suc (Suc (bsize e))) (BinaryExpr k (ConstantExpr c) e) (ConstantFolding_Mul_const B c e)"
    "k = And \<Longrightarrow> builds (Suc (Suc (bsize e))) (BinaryExpr k (ConstantExpr c) e) (ConstantFolding_And_const B c e)"
    "k = Or \<Longrightarrow> builds (Suc (Suc (bsize e))) (BinaryExpr k (ConstantExpr c) e) (ConstantFolding_Or_const B c e)"
    "k = Xor \<Longrightarrow> builds (Suc (Suc (bsize e))) (BinaryExpr k (ConstantExpr c) e) (ConstantFolding_Xor_const B c e)"
proof -
  have base: "\<not> is_div k \<Longrightarrow> builds (Suc (Suc (bsize e))) (BinaryExpr k (ConstantExpr c) e) (b_Binary B k (ConstantExpr c) e)"
    by (rule Base_builds [OF assms]) simp_all
  have zero: "creates (BinaryExpr k (ConstantExpr c) e) (Some (ConstantExpr c))"
    if "ConstantExpr_isZero c" "k \<in> {Mul, And}"
    by (rule creates_BinaryI [OF assms]) (use assms that in \<open>auto simp: ConstantExpr_isZero_def\<close>)
  have keep: "creates (BinaryExpr k (ConstantExpr c) e) (Some e)"
    if "ConstantExpr_isZero c \<and> k \<in> {Or, Xor} \<or> ConstantExpr_isOne c \<and> k = Mul \<or> ConstantExpr_isAllOnes c \<and> k = And"
    by (rule creates_BinaryI [OF assms])
      (use assms that in \<open>auto simp: ConstantExpr_isZero_def isOne_iff isAllOnes_iff and_all_ones and.commute mod_pow2_small\<close>)
  have ones: "creates (BinaryExpr k (ConstantExpr c) e) (Some (ConstantExpr c))"
    if "ConstantExpr_isAllOnes c" "k = Or"
    by (rule creates_BinaryI [OF assms]) (use assms that in \<open>auto simp: isAllOnes_iff or_all_ones or.commute\<close>)
  show "k = Mul \<Longrightarrow> builds (Suc (Suc (bsize e))) (BinaryExpr k (ConstantExpr c) e) (ConstantFolding_Mul_const B c e)"
    "k = And \<Longrightarrow> builds (Suc (Suc (bsize e))) (BinaryExpr k (ConstantExpr c) e) (ConstantFolding_And_const B c e)"
    "k = Or \<Longrightarrow> builds (Suc (Suc (bsize e))) (BinaryExpr k (ConstantExpr c) e) (ConstantFolding_Or_const B c e)"
    "k = Xor \<Longrightarrow> builds (Suc (Suc (bsize e))) (BinaryExpr k (ConstantExpr c) e) (ConstantFolding_Xor_const B c e)"
    using base zero keep ones
    by (auto simp: ConstantFolding_Mul_const_def ConstantFolding_And_const_def ConstantFolding_Or_const_def
      ConstantFolding_Xor_const_def intro!: builds_Some)
qed

text \<open>A comparison with a boolean constant, as both builders do it.\<close>

lemma Eq_bool_builds:
  assumes "wf_expr (BinaryExpr Eq (ConstantExpr c) e)"
  shows "builds (Suc (Suc (bsize e))) (BinaryExpr Eq (ConstantExpr c) e)
    (if getBitWidth c = 1 then (if ConstantExpr_isTrue c then Some e else b_Not B e) else b_Binary B Eq (ConstantExpr c) e)"
proof (cases "getBitWidth c = 1")
  case True
  have w: "wf_expr e" "getWidth e = 1" "wf_apint c" using assms True by auto
  have "apval c \<in> {0, 1}" using wf_apintD [OF w(3)] True by auto
  then have "refines (BinaryExpr Eq (ConstantExpr c) e) (if ConstantExpr_isTrue c then e else NotExpr e)"
    by (intro refines_BinaryI)
      (use assms True w in \<open>auto simp: ConstantExpr_isTrue_def bool_val_def split: if_splits\<close>)
  then show ?thesis
    using True w builds_refines [OF Not_builds [OF w(1) order_refl], of "BinaryExpr Eq (ConstantExpr c) e"]
    by (auto intro!: builds_Some createsI split: if_splits)
next
  case False
  then show ?thesis using Base_builds [OF assms] by simp
qed

lemma fold_other:
  assumes wf: "wf_expr (BinaryExpr k l r)" and k: "k \<notin> {Add, Sub}"
    and div: "is_div k \<Longrightarrow> as_const l \<noteq> None \<Longrightarrow> \<not> Expr_isZero r"
  shows "builds (Suc (bsize l + bsize r)) (BinaryExpr k l r)
    (b_Binary (rounds (\<lambda>Builder. ConstantFoldingBuilder Builder B) (Suc n)) k l r)"
  unfolding b_Binary_rounds b_Binary_ConstantFolding
proof (rule specialize_builds [OF wf div])
  let ?Bu = "rounds (\<lambda>Builder. ConstantFoldingBuilder Builder B) n"
  have base: "builds (Suc (bsize l + bsize r)) (BinaryExpr k l r) (b_Binary B k l r)"
    unfolding builds_def using Binary_sound [OF wf] Binary_size [OF wf] div by blast
  have "builds (Suc (bsize l + bsize r)) (BinaryExpr k l r) (overload_swap cn (b_Binary B k) l r)"
    if "k \<in> {Mul, And, Or, Xor, Eq}"
      "\<And>c e. wf_expr (BinaryExpr k (ConstantExpr c) e) \<Longrightarrow> builds (Suc (Suc (bsize e))) (BinaryExpr k (ConstantExpr c) e) (cn c e)" for cn
    by (rule overload_swap_builds) (use wf base that in auto)
  note swap = this
  show "builds (Suc (bsize l + bsize r)) (BinaryExpr k l r) (ConstantFolding_Binary ?Bu B k l r)"
  proof (cases "k \<in> {Mul, And, Or, Xor, Eq}")
    case True
    then show ?thesis
      using swap [OF True] fold_bitwise Eq_bool_builds by (auto simp: ConstantFolding_Eq_const_def)
  next
    case False
    then have "ConstantFolding_Binary ?Bu B k l r = b_Binary B k l r"
      using k by (cases k) (simp_all add: ChainedBuilder_def)
    then show ?thesis using base by simp
  qed
qed simp_all

end

lemma dispatch_cong:
  "b_Select SB = b_Select B \<Longrightarrow> ConstantSpecialized_Select SB = ConstantSpecialized_Select B"
  "b_Concat SB = b_Concat B \<Longrightarrow> ConstantSpecialized_Concat SB = ConstantSpecialized_Concat B"
  "b_Extract SB = b_Extract B \<Longrightarrow> ConstantSpecialized_Extract SB = ConstantSpecialized_Extract B"
  "b_ZExt SB = b_ZExt B \<Longrightarrow> ConstantSpecialized_ZExt SB = ConstantSpecialized_ZExt B"
  "b_SExt SB = b_SExt B \<Longrightarrow> ConstantSpecialized_SExt SB = ConstantSpecialized_SExt B"
  by (simp_all add: fun_eq_iff ConstantSpecialized_Select_def ConstantSpecialized_Concat_def ConstantSpecialized_Extract_def
    ConstantSpecialized_ZExt_def ConstantSpecialized_SExt_def cong: option.case_cong)

lemma ConstantFoldingBuilder_methods [simp]:
  "b_Constant (ConstantFoldingBuilder Bu B) = b_Constant B" "b_NotOptimized (ConstantFoldingBuilder Bu B) = b_NotOptimized B"
  "b_Read (ConstantFoldingBuilder Bu B) = b_Read B" "b_Select (ConstantFoldingBuilder Bu B) = b_Select B"
  "b_Concat (ConstantFoldingBuilder Bu B) = b_Concat B" "b_Extract (ConstantFoldingBuilder Bu B) = b_Extract B"
  "b_ZExt (ConstantFoldingBuilder Bu B) = b_ZExt B" "b_SExt (ConstantFoldingBuilder Bu B) = b_SExt B"
  "b_Not (ConstantFoldingBuilder Bu B) = b_Not B"
  by (simp_all add: ConstantFoldingBuilder_def ChainedBuilder_def)

lemma SimplifyingBuilder_methods [simp]:
  "b_Constant (SimplifyingBuilder Bu B) = b_Constant B" "b_NotOptimized (SimplifyingBuilder Bu B) = b_NotOptimized B"
  "b_Read (SimplifyingBuilder Bu B) = b_Read B" "b_Select (SimplifyingBuilder Bu B) = b_Select B"
  "b_Concat (SimplifyingBuilder Bu B) = b_Concat B" "b_Extract (SimplifyingBuilder Bu B) = b_Extract B"
  "b_ZExt (SimplifyingBuilder Bu B) = b_ZExt B" "b_SExt (SimplifyingBuilder Bu B) = b_SExt B"
  "b_Not (SimplifyingBuilder Bu B) = Simplifying_Not Bu B" "b_Binary (SimplifyingBuilder Bu B) = Simplifying_Binary Bu B"
  by (simp_all add: SimplifyingBuilder_def ChainedBuilder_def)

lemma refines_NotNot: "wf_expr e \<Longrightarrow> refines (NotExpr (NotExpr e)) e"
  by (auto simp: refines_def)

context sized_builder
begin

lemma Not_dispatch:
  assumes "wf_expr e" and "creates (NotExpr e) (b_Not B' e)"
  shows "creates (NotExpr e) (ConstantSpecialized_Not B' e)"
  using assms by (cases e) (auto simp: ConstantSpecialized_Not_def apval_Not refines_NotNot intro!: createsI refinesI)

lemma folding_Binary:
  assumes "wf_expr (BinaryExpr k l r)" "is_div k \<Longrightarrow> as_const l \<noteq> None \<Longrightarrow> \<not> Expr_isZero r" "fold_rounds l r \<le> n"
  shows "builds (Suc (bsize l + bsize r)) (BinaryExpr k l r)
    (b_Binary (rounds (\<lambda>Builder. ConstantFoldingBuilder Builder B) (Suc n)) k l r)"
proof (cases "k \<in> {Add, Sub}")
  case True
  then show ?thesis by (rule fold_AddSub) (use assms in simp_all)
next
  case False
  show ?thesis by (rule fold_other [OF assms(1) False assms(2)])
qed

lemma folding_Not:
  assumes "wf_expr e"
  shows "builds (Suc (bsize e)) (NotExpr e) (ConstantSpecialized_Not (ConstantFoldingBuilder Bu B) e)"
proof -
  have "creates (NotExpr e) (ConstantSpecialized_Not (ConstantFoldingBuilder Bu B) e)"
    by (rule Not_dispatch [OF assms]) (use Not_sound [OF assms] in simp)
  moreover have "bsize e' \<le> Suc (bsize e)" if "ConstantSpecialized_Not (ConstantFoldingBuilder Bu B) e = Some e'" for e'
    using that Not_size [OF assms] by (cases e) (auto simp: ConstantSpecialized_Not_def)
  ultimately show ?thesis by (simp add: builds_def)
qed

lemma folding_sound: "sized_builder (ConstantFoldingExprBuilder B)"
proof -
  let ?F = "\<lambda>Builder. ConstantFoldingBuilder Builder B"
  have eqs: "b_Constant (ConstantFoldingExprBuilder B) = b_Constant B"
    "b_NotOptimized (ConstantFoldingExprBuilder B) = b_NotOptimized B"
    "b_Read (ConstantFoldingExprBuilder B) = ConstantSpecialized_Read (?F no_builder)"
    "b_Select (ConstantFoldingExprBuilder B) = ConstantSpecialized_Select B"
    "b_Concat (ConstantFoldingExprBuilder B) = ConstantSpecialized_Concat B"
    "b_Extract (ConstantFoldingExprBuilder B) = ConstantSpecialized_Extract B"
    "b_ZExt (ConstantFoldingExprBuilder B) = ConstantSpecialized_ZExt B"
    "b_SExt (ConstantFoldingExprBuilder B) = ConstantSpecialized_SExt B"
    "b_Not (ConstantFoldingExprBuilder B) = ConstantSpecialized_Not (?F no_builder)"
    "b_Binary (ConstantFoldingExprBuilder B) k l r = b_Binary (rounds ?F (Suc (fold_rounds l r))) k l r" for k l r
    by (simp_all add: ConstantFoldingExprBuilder_def Let_def ConstantSpecializedExprBuilder_def rounds.simps(2) dispatch_cong [of "?F no_builder" B])
  have eq: "creates (BinaryExpr Eq i j) (ConstantSpecialized_Binary (?F no_builder) Eq i j)" if "wf_expr (BinaryExpr Eq i j)" for i j
    using fold_other [OF that, of 0] by (simp add: builds_def ConstantSpecialized_Binary_eq ConstantSpecializedExprBuilder_def)
  show ?thesis
  proof (unfold_locales, goal_cases)
    case (3 a us i)
    show ?case unfolding eqs by (rule ConstantSpecialized_Read_sound [OF 3 eq]) (simp_all add: Read_sound)
  next
    case (9 e)
    with folding_Not [OF 9, of no_builder] show ?case by (simp add: eqs builds_def)
  next
    case (10 k l r)
    with folding_Binary [OF 10 order_refl] show ?case unfolding eqs builds_def by blast
  next
    case (11 e e')
    with folding_Not [OF 11(1), of no_builder] show ?case by (simp add: eqs builds_def)
  next
    case (12 k l r e)
    with folding_Binary [OF 12(1,2) order_refl] show ?case unfolding eqs builds_def by blast
  qed (simp_all add: eqs Constant_sound NotOptimized_sound Select_dispatch Concat_dispatch Extract_dispatch ZExt_dispatch SExt_dispatch)
qed

end

interpretation folding_builder: sized_builder "ConstantFoldingExprBuilder DefaultExprBuilder"
  by (rule default_builder.folding_sound)

section \<open>Simplification is sound and ends\<close>

lemma refines_DeMorgan:
  assumes "wf_expr (BinaryExpr Or l r)"
  shows "refines (NotExpr (BinaryExpr Or l r)) (BinaryExpr And (NotExpr l) (NotExpr r))"
proof (rule refinesI)
  fix \<sigma> v assume "eval \<sigma> (NotExpr (BinaryExpr Or l r)) = Some v"
  then obtain a b where ab: "eval \<sigma> l = Some a" "eval \<sigma> r = Some b" "v = 2 ^ getWidth l - 1 - (a OR b)"
    by (auto split: option.splits)
  have rg: "0 \<le> a" "a < 2 ^ getWidth l" "0 \<le> b" "b < 2 ^ getWidth l"
    using eval_range [OF _ ab(1)] eval_range [OF _ ab(2)] assms by auto
  have n: "2 ^ getWidth l - 1 - x = take_bit (getWidth l) (NOT x)" if "0 \<le> x" "x < 2 ^ getWidth l" for x :: int
    using that by (simp add: take_bit_not_eq_mask_diff mask_eq_exp_minus_1 take_bit_int_eq_self)
  have "a OR b < 2 ^ getWidth l" "0 \<le> a OR b" using rg OR_upper by (simp_all add: or_nonnegative_int_iff)
  then have "v = (2 ^ getWidth l - 1 - a) AND (2 ^ getWidth l - 1 - b)"
    unfolding ab(3) using n rg by (simp add: take_bit_and)
  then show "eval \<sigma> (BinaryExpr And (NotExpr l) (NotExpr r)) = Some v"
    using ab(1,2) assms by simp
qed

lemma refines_Ne_Not: "refines (BinaryExpr Ne l r) (NotExpr (BinaryExpr Eq l r))"
  by (intro refinesI) (auto simp: bool_val_def split: option.splits)

context sized_builder
begin

lemma simplify_And:
  assumes "wf_expr (BinaryExpr And l r)"
  shows "creates (BinaryExpr And l r) (b_Binary (rounds (\<lambda>Builder. SimplifyingBuilder Builder B) (Suc n)) And l r)"
  unfolding b_Binary_rounds
  by (rule specialize_creates [OF assms]) (use Binary_sound [OF assms] in \<open>simp_all add: ChainedBuilder_def\<close>)

lemma simplify_Not:
  assumes "wf_expr e" "bsize e < n"
  shows "creates (NotExpr e) (b_Not (rounds (\<lambda>Builder. SimplifyingBuilder Builder B) n) e)"
  using assms
proof (induction n arbitrary: e)
  case (Suc n)
  let ?Bu = "rounds (\<lambda>Builder. SimplifyingBuilder Builder B) n"
  have "creates (NotExpr e) (Simplifying_Not ?Bu B e)"
  proof (cases "\<exists>l r. e = BinaryExpr Or l r")
    case True
    then obtain l r where e: "e = BinaryExpr Or l r" by blast
    have w: "wf_expr l" "wf_expr r" "getWidth l = getWidth r" using Suc.prems(1) by (simp_all add: e)
    have small: "bsize l < n" "bsize r < n" using Suc.prems(2) bsize_pos [of l] bsize_pos [of r] by (simp_all add: e del: bsize_pos)
    obtain m where m: "n = Suc m" using small by (cases n) simp_all
    obtain nl where nl: "b_Not ?Bu l = Some nl" "wf_expr nl" "getWidth nl = getWidth l" "refines (NotExpr l) nl"
      using Suc.IH [OF w(1) small(1)] by (rule createsE) simp
    obtain nr where nr: "b_Not ?Bu r = Some nr" "wf_expr nr" "getWidth nr = getWidth r" "refines (NotExpr r) nr"
      using Suc.IH [OF w(2) small(2)] by (rule createsE) simp
    have "creates (BinaryExpr And nl nr) (b_Binary ?Bu And nl nr)"
      unfolding m by (rule simplify_And) (use nl nr w in simp)
    moreover have "refines (NotExpr e) (BinaryExpr And nl nr)"
      unfolding e using refines_trans [OF refines_DeMorgan refines_Binary [OF nl(4) nr(4)]] Suc.prems(1) nl(3) by (simp add: e)
    ultimately have "creates (NotExpr e) (b_Binary ?Bu And nl nr)"
      by (rule creates_refines) (use nl(3) in \<open>simp add: e\<close>)
    then show ?thesis by (simp add: Simplifying_Not_def e nl(1) nr(1))
  next
    case False
    then have "Simplifying_Not ?Bu B e = b_Not B e"
      by (auto simp: Simplifying_Not_def split: expr.split bkind.split)
    then show ?thesis using Not_sound [OF Suc.prems(1)] by simp
  qed
  then show ?case using Not_dispatch [OF Suc.prems(1), of "SimplifyingBuilder ?Bu B"] by simp
qed simp

lemma simplify_Eq:
  assumes wf: "wf_expr (BinaryExpr Eq l r)"
  shows "builds (Suc (bsize l + bsize r)) (BinaryExpr Eq l r)
    (b_Binary (rounds (\<lambda>Builder. SimplifyingBuilder Builder B) (Suc n)) Eq l r)"
  unfolding b_Binary_rounds SimplifyingBuilder_methods
proof (rule specialize_builds [OF wf])
  have nn: "builds (Suc (bsize l + bsize r)) (BinaryExpr Eq l r) (Simplifying_Eq_nonconst B l r)"
  proof (cases "l = r")
    case True
    have "creates (BinaryExpr Eq l r) (Some Builder_True)"
      by (rule creates_BinaryI [OF wf]) (use True in \<open>auto simp: Builder_True_def bool_val_def\<close>)
    then show ?thesis using True by (auto simp: Simplifying_Eq_nonconst_def Builder_True_def ConstantExpr_alloc_def intro!: builds_Some)
  next
    case False
    then show ?thesis using Base_builds [OF wf] by (simp add: Simplifying_Eq_nonconst_def)
  qed
  have "builds (Suc (bsize l + bsize r)) (BinaryExpr Eq l r)
      (overload_swap (Simplifying_Eq_const B) (Simplifying_Eq_nonconst B) l r)"
    by (rule overload_swap_builds [OF wf]) (use Eq_bool_builds nn in \<open>simp_all add: Simplifying_Eq_const_def\<close>)
  then show "builds (Suc (bsize l + bsize r)) (BinaryExpr Eq l r)
      (Simplifying_Binary (rounds (\<lambda>Builder. SimplifyingBuilder Builder B) n) B Eq l r)" by simp
qed simp_all

lemma simplify_Binary:
  assumes wf: "wf_expr (BinaryExpr k l r)" and div: "is_div k \<Longrightarrow> as_const l \<noteq> None \<Longrightarrow> \<not> Expr_isZero r"
  shows "creates (BinaryExpr k l r) (b_Binary (rounds (\<lambda>Builder. SimplifyingBuilder Builder B) (simplify_rounds l r)) k l r)"
proof -
  let ?n = "bsize l + bsize r + 1"
  let ?Bu = "rounds (\<lambda>Builder. SimplifyingBuilder Builder B) (Suc ?n)"
  have n: "simplify_rounds l r = Suc (Suc ?n)" by (simp add: simplify_rounds_def)
  have base: "creates (BinaryExpr k' a b) (b_Binary ?Bu k' a b)"
    if "k' \<in> {Ult, Ule, Slt, Sle}" "wf_expr (BinaryExpr k' a b)" for k' a b
    unfolding b_Binary_rounds
    by (rule specialize_creates [OF that(2)]) (use that Binary_sound [OF that(2)] in \<open>auto simp: ChainedBuilder_def\<close>)
  have "creates (BinaryExpr k l r) (Simplifying_Binary ?Bu B k l r)" if "as_const l = None \<or> as_const r = None"
  proof -
    consider (eq) "k = Eq" | (ne) "k = Ne" | (mir) "k \<in> {Ugt, Uge, Sgt, Sge}"
      | (other) "Simplifying_Binary ?Bu B k l r = b_Binary B k l r"
      by (cases k) (simp_all add: ChainedBuilder_def)
    then show ?thesis
    proof cases
      case eq
      have "b_Binary (rounds (\<lambda>Builder. SimplifyingBuilder Builder B) (Suc (Suc ?n))) Eq l r = Simplifying_Binary ?Bu B Eq l r"
        using that by (auto simp: specialize_def split: option.split)
      moreover have "creates (BinaryExpr Eq l r) (b_Binary (rounds (\<lambda>Builder. SimplifyingBuilder Builder B) (Suc (Suc ?n))) Eq l r)"
        using simplify_Eq [of l r "Suc ?n"] wf eq unfolding builds_def by blast
      ultimately show ?thesis by (simp only: eq)
    next
      case ne
      then have w: "wf_expr (BinaryExpr Eq l r)" using wf by simp
      obtain e where e: "b_Binary ?Bu Eq l r = Some e" "wf_expr e" "getWidth e = 1" "refines (BinaryExpr Eq l r) e"
        "bsize e \<le> Suc (bsize l + bsize r)" using simplify_Eq [OF w] by (rule buildsE) simp
      have "creates (NotExpr e) (b_Not ?Bu e)" by (rule simplify_Not) (use e in simp_all)
      moreover have "refines (BinaryExpr Ne l r) (NotExpr e)"
        by (rule refines_trans [OF refines_Ne_Not refines_Not [OF e(4)]]) (simp add: e(3))
      ultimately have "creates (BinaryExpr k l r) (b_Not ?Bu e)"
        unfolding ne by (rule creates_refines) (simp add: e(3))
      then show ?thesis unfolding ne Simplifying_Binary.simps e(1) by simp
    next
      case mir
      then have "creates (BinaryExpr (mirror k) r l) (b_Binary ?Bu (mirror k) r l)"
        by (intro base) (use wf in \<open>auto simp: mirror_def\<close>)
      then have "creates (BinaryExpr k l r) (b_Binary ?Bu (mirror k) r l)"
        by (rule creates_refines [OF _ refines_mirror]) (use wf mir in \<open>auto simp: mirror_def\<close>)
      then show ?thesis using mir by (auto simp: mirror_def simp del: b_Binary_rounds)
    next
      case other
      then show ?thesis using Binary_sound [OF wf div] by simp
    qed
  qed
  then show ?thesis unfolding n b_Binary_rounds [of _ "Suc ?n"] SimplifyingBuilder_methods
    by (intro specialize_creates [OF wf div])
qed

lemma simplifying_sound: "expr_builder (SimplifyingExprBuilder B)"
proof -
  let ?F = "\<lambda>Builder. SimplifyingBuilder Builder B"
  have eqs: "b_Constant (SimplifyingExprBuilder B) = b_Constant B"
    "b_NotOptimized (SimplifyingExprBuilder B) = b_NotOptimized B"
    "b_Read (SimplifyingExprBuilder B) = ConstantSpecialized_Read (?F no_builder)"
    "b_Select (SimplifyingExprBuilder B) = ConstantSpecialized_Select B"
    "b_Concat (SimplifyingExprBuilder B) = ConstantSpecialized_Concat B"
    "b_Extract (SimplifyingExprBuilder B) = ConstantSpecialized_Extract B"
    "b_ZExt (SimplifyingExprBuilder B) = ConstantSpecialized_ZExt B"
    "b_SExt (SimplifyingExprBuilder B) = ConstantSpecialized_SExt B"
    "b_Not (SimplifyingExprBuilder B) e = b_Not (rounds ?F (Suc (bsize e))) e"
    "b_Binary (SimplifyingExprBuilder B) k l r = b_Binary (rounds ?F (simplify_rounds l r)) k l r" for k l r e
    by (simp_all add: SimplifyingExprBuilder_def Let_def ConstantSpecializedExprBuilder_def rounds.simps(2) dispatch_cong [of "?F no_builder" B])
  have eq: "creates (BinaryExpr Eq i j) (ConstantSpecialized_Binary (?F no_builder) Eq i j)" if "wf_expr (BinaryExpr Eq i j)" for i j
    using simplify_Eq [OF that, of 0] by (simp add: builds_def ConstantSpecialized_Binary_eq)
  show ?thesis
  proof (unfold_locales, goal_cases)
    case (3 a us i)
    show ?case unfolding eqs by (rule ConstantSpecialized_Read_sound [OF 3 eq]) (simp_all add: Read_sound)
  next
    case (9 e)
    show ?case unfolding eqs by (rule simplify_Not [OF 9]) simp
  next
    case (10 k l r)
    show ?case unfolding eqs by (rule simplify_Binary [OF 10])
  qed (simp_all add: eqs Constant_sound NotOptimized_sound Select_dispatch Concat_dispatch Extract_dispatch ZExt_dispatch SExt_dispatch)
qed

end

interpretation simplifying_builder: expr_builder "SimplifyingExprBuilder (ConstantFoldingExprBuilder DefaultExprBuilder)"
  by (rule folding_builder.simplifying_sound)

end
