(* ===== verification/ER_Solver.thy ===== *)
theory ER_Solver
  imports ER_AddressSpace ER_ExprBuilder
begin

text \<open>
  The solver interface: queries, the virtual methods a solver implements, the
  front end every client goes through, and the solvers the sources build by
  stacking one on another (\<^verbatim>\<open>lib/Solver\<close>, \<^verbatim>\<open>include/klee/Solver\<close>). The decision
  procedures at the bottom of the stack are libraries; what they promise is the
  locale \<open>sound_solver\<close>.
\<close>

section \<open>Queries\<close>

text \<open>A query carries the constraints it is asked under and one expression.\<close>

record query =
  q_constraints :: "expr set"
  q_expr :: expr

definition withExpr :: "query \<Rightarrow> expr \<Rightarrow> query" where
  "withExpr q e = q\<lparr>q_expr := e\<rparr>"

definition withFalse :: "query \<Rightarrow> query" where
  "withFalse q = q\<lparr>q_expr := ConstantExpr_alloc 0 1\<rparr>"

definition negateExpr :: "query \<Rightarrow> query option" where
  "negateExpr q = do { e \<leftarrow> createIsZero (q_expr q); Some (withExpr q e) }"

datatype Validity = VTrue | VFalse | VUnknown

datatype PartialValidity = MustBeTrue | MustBeFalse | MayBeTrue | MayBeFalse | TrueOrFalse | PVNone

section \<open>The methods of a solver\<close>

text \<open>
  A method reads and updates the state of its solver. It fails an assertion
  (\<open>None\<close>), reports that it could not decide the query (the value \<open>None\<close> with the
  new state, \<^verbatim>\<open>return false\<close> in the sources) or answers. \<open>call\<close> is the idiom
  \<^verbatim>\<open>if (!f(...)) return false;\<close>.
\<close>

type_synonym ('s, 'a) answer = "('a option \<times> 's) option"

definition call :: "('s, 'a) answer \<Rightarrow> ('a \<Rightarrow> 's \<Rightarrow> ('s, 'b) answer) \<Rightarrow> ('s, 'b) answer" where
  "call m f = (case m of None \<Rightarrow> None
     | Some (r, s) \<Rightarrow> (case r of None \<Rightarrow> Some (None, s) | Some x \<Rightarrow> f x s))"

record 's solver_impl =
  computeTruth :: "query \<Rightarrow> 's \<Rightarrow> ('s, bool) answer"
  computeValidity :: "query \<Rightarrow> 's \<Rightarrow> ('s, Validity) answer"
  computeValue :: "query \<Rightarrow> 's \<Rightarrow> ('s, expr) answer"
  computeInitialValues :: "query \<Rightarrow> array list \<Rightarrow> 's \<Rightarrow> ('s, int list list \<times> bool) answer"

definition SolverImpl_computeValidity :: "(query \<Rightarrow> 's \<Rightarrow> ('s, bool) answer) \<Rightarrow> query \<Rightarrow> 's \<Rightarrow> ('s, Validity) answer" where
  "SolverImpl_computeValidity truth q s =
     call (truth q s) (\<lambda>isTrue s.
       if isTrue then Some (Some VTrue, s)
       else case negateExpr q of None \<Rightarrow> None
         | Some nq \<Rightarrow> call (truth nq s) (\<lambda>isFalse s. Some (Some (if isFalse then VFalse else VUnknown), s)))"

section \<open>The front end\<close>

definition ConstantExpr_getZExtValue :: "apint \<Rightarrow> 64 word option" where
  "ConstantExpr_getZExtValue c = (if getBitWidth c \<le> 64 then Some (word_of_int (apval c)) else None)"

definition Solver_evaluate :: "'s solver_impl \<Rightarrow> query \<Rightarrow> 's \<Rightarrow> ('s, Validity) answer" where
  "Solver_evaluate S q s =
     (if getWidth (q_expr q) \<noteq> 1 then None
      else case as_const (q_expr q) of
        Some c \<Rightarrow> Some (Some (if ConstantExpr_isTrue c then VTrue else VFalse), s)
      | None \<Rightarrow> computeValidity S q s)"

definition Solver_mustBeTrue :: "'s solver_impl \<Rightarrow> query \<Rightarrow> 's \<Rightarrow> ('s, bool) answer" where
  "Solver_mustBeTrue S q s =
     (if getWidth (q_expr q) \<noteq> 1 then None
      else case as_const (q_expr q) of
        Some c \<Rightarrow> Some (Some (ConstantExpr_isTrue c), s)
      | None \<Rightarrow> computeTruth S q s)"

definition Solver_mustBeFalse :: "'s solver_impl \<Rightarrow> query \<Rightarrow> 's \<Rightarrow> ('s, bool) answer" where
  "Solver_mustBeFalse S q s =
     (case negateExpr q of None \<Rightarrow> None | Some nq \<Rightarrow> Solver_mustBeTrue S nq s)"

definition Solver_mayBeTrue :: "'s solver_impl \<Rightarrow> query \<Rightarrow> 's \<Rightarrow> ('s, bool) answer" where
  "Solver_mayBeTrue S q s = call (Solver_mustBeFalse S q s) (\<lambda>res s. Some (Some (\<not> res), s))"

definition Solver_mayBeFalse :: "'s solver_impl \<Rightarrow> query \<Rightarrow> 's \<Rightarrow> ('s, bool) answer" where
  "Solver_mayBeFalse S q s = call (Solver_mustBeTrue S q s) (\<lambda>res s. Some (Some (\<not> res), s))"

definition Solver_getValue :: "'s solver_impl \<Rightarrow> query \<Rightarrow> 's \<Rightarrow> ('s, apint) answer" where
  "Solver_getValue S q s =
     (case as_const (q_expr q) of
        Some c \<Rightarrow> Some (Some c, s)
      | None \<Rightarrow> call (computeValue S q s) (\<lambda>tmp s.
          case as_const tmp of None \<Rightarrow> None | Some c \<Rightarrow> Some (Some c, s)))"

definition Solver_getInitialValues ::
  "'s solver_impl \<Rightarrow> query \<Rightarrow> array list \<Rightarrow> 's \<Rightarrow> ('s, int list list) answer" where
  "Solver_getInitialValues S q objs s =
     call (computeInitialValues S q objs s) (\<lambda>(values, hasSolution) s.
       if \<not> hasSolution then Some (None, s) else Some (Some values, s))"

text \<open>
  The three loops of \<^verbatim>\<open>Solver::getRange\<close> are binary searches of one shape over
  64-bit bounds; \<open>ask\<close> is the question of the loop body, whose failure is an
  assertion.
\<close>

lemma search_mid:
  assumes "lo < (hi :: 64 word)"
  shows "unat (lo + (hi - lo) div 2) = unat lo + (unat hi - unat lo) div 2"
    "lo + (hi - lo) div 2 < hi" "unat (lo + (hi - lo) div 2 + 1) = unat (lo + (hi - lo) div 2) + 1"
proof -
  have le: "unat lo < unat hi" using assms by (simp add: word_less_nat_alt)
  then have "unat (hi - lo) = unat hi - unat lo" by (simp add: unat_sub word_le_nat_alt)
  then have h: "unat ((hi - lo) div 2) = (unat hi - unat lo) div 2" by (simp add: unat_div)
  have m: "unat lo + (unat hi - unat lo) div 2 < unat hi" using le by linarith
  have b: "unat hi < 2 ^ 64" using unsigned_less [of hi, where 'a = nat] by simp
  show mid: "unat (lo + (hi - lo) div 2) = unat lo + (unat hi - unat lo) div 2"
    using h m b by (simp add: unat_word_ariths(1))
  then show lt: "lo + (hi - lo) div 2 < hi"
    using m by (simp add: word_less_nat_alt)
  then show "unat (lo + (hi - lo) div 2 + 1) = unat (lo + (hi - lo) div 2) + 1"
    using b by (simp add: unat_word_ariths(1) word_less_nat_alt del: word_less_def)
qed

function search :: "(64 word \<Rightarrow> 's \<Rightarrow> ('s, bool) answer) \<Rightarrow> 64 word \<Rightarrow> 64 word \<Rightarrow> 's \<Rightarrow> (64 word \<times> 's) option" where
  "search ask lo hi s =
     (if lo < hi then
        (let mid = lo + (hi - lo) div 2 in
         case ask mid s of
           Some (Some res, s') \<Rightarrow> if res then search ask lo mid s' else search ask (mid + 1) hi s'
         | _ \<Rightarrow> None)
      else Some (lo, s))"
  by pat_completeness auto
termination
proof (relation "measure (\<lambda>(ask, lo, hi, s). unat hi - unat lo)", goal_cases)
  case (2 ask lo hi s mid x res y s')
  then show ?case using search_mid(1,2) [OF 2(1)] by (auto simp: word_less_nat_alt)
next
  case (3 ask lo hi s mid x res y s')
  then have "unat hi - unat (mid + 1) < unat hi - unat lo"
    using search_mid [OF 3(1)] by (simp add: word_less_nat_alt) linarith
  then show ?case by simp
qed simp

declare search.simps [simp del]

definition ask_shifted_zero :: "'s solver_impl \<Rightarrow> query \<Rightarrow> 64 word \<Rightarrow> 's \<Rightarrow> ('s, bool) answer" where
  "ask_shifted_zero S q mid s = (let e = q_expr q; width = getWidth e in
     case (do { m \<leftarrow> ConstantExpr_create (uint mid) width; sh \<leftarrow> LShrExpr_create e m;
                z \<leftarrow> ConstantExpr_create 0 width; EqExpr_create sh z }) of
       None \<Rightarrow> None | Some c \<Rightarrow> Solver_mustBeTrue S (withExpr q c) s)"

definition ask_zero :: "'s solver_impl \<Rightarrow> query \<Rightarrow> 's \<Rightarrow> ('s, bool) answer" where
  "ask_zero S q s = (let e = q_expr q in
     case (do { z \<leftarrow> ConstantExpr_create 0 (getWidth e); EqExpr_create e z }) of
       None \<Rightarrow> None | Some c \<Rightarrow> Solver_mayBeTrue S (withExpr q c) s)"

definition ask_at_most ::
  "('s solver_impl \<Rightarrow> query \<Rightarrow> 's \<Rightarrow> ('s, bool) answer) \<Rightarrow> 's solver_impl \<Rightarrow> query \<Rightarrow> 64 word \<Rightarrow> 's \<Rightarrow> ('s, bool) answer" where
  "ask_at_most test S q mid s = (let e = q_expr q in
     case (do { m \<leftarrow> ConstantExpr_create (uint mid) (getWidth e); UleExpr_create e m }) of
       None \<Rightarrow> None | Some c \<Rightarrow> test S (withExpr q c) s)"

text \<open>
  The number of useful bits, then the minimum, unless zero is possible, then the
  maximum. A failing solver is a failing assertion.
\<close>

definition range_bits :: "'s solver_impl \<Rightarrow> query \<Rightarrow> 's \<Rightarrow> (64 word \<times> 's) option" where
  "range_bits S q s = search (ask_shifted_zero S q) 0 (of_nat (getWidth (q_expr q))) s"

definition range_min :: "'s solver_impl \<Rightarrow> query \<Rightarrow> 64 word \<Rightarrow> 's \<Rightarrow> (64 word \<times> 's) option" where
  "range_min S q bits s =
     (case ask_zero S q s of
        Some (Some res, s) \<Rightarrow>
          if res then Some (0, s)
          else (case bits64_maxValueOfNBits (unat bits) of None \<Rightarrow> None
            | Some hi \<Rightarrow> search (ask_at_most Solver_mayBeTrue S q) 0 hi s)
      | _ \<Rightarrow> None)"

definition range_max :: "'s solver_impl \<Rightarrow> query \<Rightarrow> 64 word \<Rightarrow> 64 word \<Rightarrow> 's \<Rightarrow> (64 word \<times> 's) option" where
  "range_max S q bits lo s =
     (case bits64_maxValueOfNBits (unat bits) of None \<Rightarrow> None
      | Some hi \<Rightarrow> search (ask_at_most Solver_mustBeTrue S q) lo hi s)"

definition getRange :: "'s solver_impl \<Rightarrow> query \<Rightarrow> 's \<Rightarrow> ((expr \<times> expr) \<times> 's) option" where
  "getRange S q s = (let e = q_expr q; width = getWidth e in
     do {
       ((min, max), s) \<leftarrow>
         (if width = 1 then
            (case Solver_evaluate S q s of
               Some (Some v, s) \<Rightarrow> Some (case v of VTrue \<Rightarrow> ((1, 1), s) | VFalse \<Rightarrow> ((0, 0), s) | VUnknown \<Rightarrow> ((0, 1), s))
             | _ \<Rightarrow> None)
          else case as_const e of
            Some c \<Rightarrow> do { v \<leftarrow> ConstantExpr_getZExtValue c; Some ((v, v), s) }
          | None \<Rightarrow> do {
              (bits, s) \<leftarrow> range_bits S q s;
              (min, s) \<leftarrow> range_min S q bits s;
              (max, s) \<leftarrow> range_max S q bits min s;
              Some ((min, max), s) });
       lo \<leftarrow> ConstantExpr_create (uint min) width;
       hi \<leftarrow> ConstantExpr_create (uint max) width;
       Some ((lo, hi), s)
     })"

section \<open>What a query means\<close>

text \<open>
  An assignment \<open>sat\<close>isfies a set of constraints when each has the value true.
  \<open>must_be v q\<close>: the expression has the value \<open>v\<close> under every assignment that
  satisfies the constraints, so \<open>must_be 1 q\<close> is validity. The code asks queries
  under constraints that some assignment satisfies, about expressions they keep
  from dividing by zero.
\<close>

definition sat :: "env \<Rightarrow> expr set \<Rightarrow> bool" where
  "sat \<sigma> C \<longleftrightarrow> (\<forall>c \<in> C. eval \<sigma> c = Some 1)"

definition must_be :: "int \<Rightarrow> query \<Rightarrow> bool" where
  "must_be v q \<longleftrightarrow> (\<forall>\<sigma>. sat \<sigma> (q_constraints q) \<longrightarrow> eval \<sigma> (q_expr q) = Some v)"

definition may_be :: "int \<Rightarrow> query \<Rightarrow> bool" where
  "may_be v q \<longleftrightarrow> (\<exists>\<sigma>. sat \<sigma> (q_constraints q) \<and> eval \<sigma> (q_expr q) = Some v)"

definition wf_query :: "query \<Rightarrow> bool" where
  "wf_query q \<longleftrightarrow> wf_expr (q_expr q) \<and> (\<exists>\<sigma>. sat \<sigma> (q_constraints q)) \<and>
     (\<forall>\<sigma>. sat \<sigma> (q_constraints q) \<longrightarrow> eval \<sigma> (q_expr q) \<noteq> None)"

definition bool_query :: "query \<Rightarrow> bool" where
  "bool_query q \<longleftrightarrow> wf_query q \<and> getWidth (q_expr q) = 1"

definition validity :: "query \<Rightarrow> Validity" where
  "validity q = (if must_be 1 q then VTrue else if must_be 0 q then VFalse else VUnknown)"

fun pv_holds :: "PartialValidity \<Rightarrow> query \<Rightarrow> bool" where
  "pv_holds MustBeTrue q = must_be 1 q"
| "pv_holds MustBeFalse q = must_be 0 q"
| "pv_holds MayBeTrue q = may_be 1 q"
| "pv_holds MayBeFalse q = may_be 0 q"
| "pv_holds TrueOrFalse q = (may_be 1 q \<and> may_be 0 q)"
| "pv_holds PVNone q = False"

definition value_of_query :: "query \<Rightarrow> expr \<Rightarrow> bool" where
  "value_of_query q e \<longleftrightarrow> (\<exists>c. e = ConstantExpr c \<and> wf_apint c \<and> getBitWidth c = getWidth (q_expr q) \<and> may_be (apval c) q)"

definition solves :: "query \<Rightarrow> array list \<Rightarrow> int list list \<Rightarrow> bool" where
  "solves q objs vals \<longleftrightarrow> length vals = length objs \<and>
     (\<exists>\<sigma>. sat \<sigma> (q_constraints q) \<and> eval \<sigma> (q_expr q) = Some 0 \<and>
        (\<forall>i < length objs. length (vals ! i) = arr_size (objs ! i) \<and>
           (\<forall>j < arr_size (objs ! i). vals ! i ! j = initial_value \<sigma> (objs ! i) (int j))))"

definition initial_of_query :: "query \<Rightarrow> array list \<Rightarrow> int list list \<times> bool \<Rightarrow> bool" where
  "initial_of_query q objs r \<longleftrightarrow> (if snd r then solves q objs (fst r) else must_be 1 q)"

lemma bool_query_cases:
  assumes "bool_query q" "sat \<sigma> (q_constraints q)"
  shows "eval \<sigma> (q_expr q) = Some 0 \<or> eval \<sigma> (q_expr q) = Some 1"
  using assms eval_bool [of "q_expr q" \<sigma>] by (auto simp: bool_query_def wf_query_def)

lemma must_be_may_be:
  assumes "bool_query q"
  shows "may_be 1 q \<longleftrightarrow> \<not> must_be 0 q" "may_be 0 q \<longleftrightarrow> \<not> must_be 1 q" "\<not> (must_be 1 q \<and> must_be 0 q)"
proof -
  have ex: "\<exists>\<sigma>. sat \<sigma> (q_constraints q)" using assms by (simp add: bool_query_def wf_query_def)
  show "may_be 1 q \<longleftrightarrow> \<not> must_be 0 q" "may_be 0 q \<longleftrightarrow> \<not> must_be 1 q"
    using bool_query_cases [OF assms] by (auto simp: may_be_def must_be_def)
  show "\<not> (must_be 1 q \<and> must_be 0 q)" using ex by (auto simp: must_be_def)
qed

lemma negateExpr_sem:
  assumes "bool_query q"
  obtains nq where "negateExpr q = Some nq" "bool_query nq" "q_constraints nq = q_constraints q"
    "must_be 1 nq = must_be 0 q" "must_be 0 nq = must_be 1 q"
    "may_be 1 nq = may_be 0 q" "may_be 0 nq = may_be 1 q"
proof -
  have wf: "wf_expr (q_expr q)" "getWidth (q_expr q) = 1" using assms by (simp_all add: bool_query_def wf_query_def)
  obtain e where e: "createIsZero (q_expr q) = Some e" "wf_expr e" "getWidth e = 1"
    "refines (BinaryExpr Eq (q_expr q) (ConstantExpr_alloc 0 1)) e"
    using createIsZero_sound [OF wf(1)] wf(2) by (auto elim: createsE)
  have neg: "eval \<sigma> e = Some (if v = 0 then 1 else 0)" if "eval \<sigma> (q_expr q) = Some v" for \<sigma> v
    using refinesD [OF e(4), of \<sigma> "bool_val (v = 0)"] that wf(2) by (simp add: ConstantExpr_alloc_def bool_val_def)
  have ev: "eval \<sigma> e = Some 1 \<longleftrightarrow> eval \<sigma> (q_expr q) = Some 0" "eval \<sigma> e = Some 0 \<longleftrightarrow> eval \<sigma> (q_expr q) = Some 1"
    "eval \<sigma> e \<noteq> None" if "sat \<sigma> (q_constraints q)" for \<sigma>
    using neg [of \<sigma>] bool_query_cases [OF assms that] by auto
  show ?thesis
    by (rule that [of "withExpr q e"])
      (use e ev assms in \<open>auto simp: negateExpr_def withExpr_def bool_query_def wf_query_def must_be_def may_be_def\<close>)
qed

section \<open>The contract of a solver\<close>

text \<open>
  \<open>delivers mf I m P\<close>: the call passes its assertions, keeps the invariant of
  the solver's state, any answer satisfies \<open>P\<close>, and there is an answer unless the
  solver may fail (\<open>mf\<close>, a timeout for instance).
\<close>

definition delivers :: "bool \<Rightarrow> ('s \<Rightarrow> bool) \<Rightarrow> ('s, 'a) answer \<Rightarrow> ('a \<Rightarrow> bool) \<Rightarrow> bool" where
  "delivers mf I m P \<longleftrightarrow>
     (\<exists>r s. m = Some (r, s) \<and> I s \<and> (r = None \<longrightarrow> mf) \<and> (\<forall>x. r = Some x \<longrightarrow> P x))"

lemma delivers_Some [simp]: "delivers mf I (Some (Some x, s)) P \<longleftrightarrow> I s \<and> P x"
  "delivers mf I (Some (None, s)) P \<longleftrightarrow> I s \<and> mf" "\<not> delivers mf I None P"
  by (auto simp: delivers_def)

lemma delivers_call:
  assumes "delivers mf I m P" "\<And>x s. P x \<Longrightarrow> I s \<Longrightarrow> delivers mf I (f x s) Q"
  shows "delivers mf I (call m f) Q"
  using assms by (fastforce simp: delivers_def call_def split: option.splits)

lemma delivers_mono: "delivers mf I m P \<Longrightarrow> (\<And>x. P x \<Longrightarrow> Q x) \<Longrightarrow> delivers mf I m Q"
  by (auto simp: delivers_def)

lemma delivers_answer:
  assumes "delivers False I m P"
  obtains x s where "m = Some (Some x, s)" "I s" "P x"
  using assms by (auto simp: delivers_def)

locale sound_solver =
  fixes S :: "'s solver_impl" and I :: "'s \<Rightarrow> bool" and mf :: bool
  assumes truth_sound: "I s \<Longrightarrow> bool_query q \<Longrightarrow> delivers mf I (computeTruth S q s) (\<lambda>b. b = must_be 1 q)"
    and validity_sound: "I s \<Longrightarrow> bool_query q \<Longrightarrow> delivers mf I (computeValidity S q s) (\<lambda>v. v = validity q)"
    and value_sound: "I s \<Longrightarrow> wf_query q \<Longrightarrow> delivers mf I (computeValue S q s) (value_of_query q)"
    and initial_sound: "I s \<Longrightarrow> bool_query q \<Longrightarrow>
      delivers mf I (computeInitialValues S q objs s)
        (initial_of_query q objs)"
begin

lemma default_validity:
  assumes "I s" "bool_query q"
  shows "delivers mf I (SolverImpl_computeValidity (computeTruth S) q s) (\<lambda>v. v = validity q)"
proof -
  obtain nq where nq: "negateExpr q = Some nq" "bool_query nq" "must_be 1 nq = must_be 0 q"
    using negateExpr_sem [OF assms(2)] by metis
  show ?thesis unfolding SolverImpl_computeValidity_def nq(1)
    by (rule delivers_call [OF truth_sound [OF assms]])
      (auto simp: validity_def nq(3) intro!: delivers_call [OF truth_sound [OF _ nq(2)]])
qed

lemma mustBeTrue_sound:
  assumes "I s" "bool_query q"
  shows "delivers mf I (Solver_mustBeTrue S q s) (\<lambda>b. b = must_be 1 q)"
proof (cases "as_const (q_expr q)")
  case None
  then show ?thesis using truth_sound [OF assms] assms by (simp add: Solver_mustBeTrue_def bool_query_def)
next
  case (Some c)
  then have q: "q_expr q = ConstantExpr c" by (cases "q_expr q") auto
  with assms(2) have "getBitWidth c = 1" "apval c = 0 \<or> apval c = 1"
    using bool_query_cases [OF assms(2)] by (auto simp: bool_query_def wf_query_def)
  then show ?thesis using assms q
    by (auto simp: Solver_mustBeTrue_def ConstantExpr_isTrue_def must_be_def bool_query_def wf_query_def)
qed

lemma evaluate_sound:
  assumes "I s" "bool_query q"
  shows "delivers mf I (Solver_evaluate S q s) (\<lambda>v. v = validity q)"
proof (cases "as_const (q_expr q)")
  case None
  then show ?thesis using validity_sound [OF assms] assms by (simp add: Solver_evaluate_def bool_query_def)
next
  case (Some c)
  then have q: "q_expr q = ConstantExpr c" by (cases "q_expr q") auto
  with assms(2) have "getBitWidth c = 1" "apval c = 0 \<or> apval c = 1"
    using bool_query_cases [OF assms(2)] by (auto simp: bool_query_def wf_query_def)
  then show ?thesis using assms q
    by (auto simp: Solver_evaluate_def ConstantExpr_isTrue_def validity_def must_be_def bool_query_def wf_query_def)
qed

lemma mustBeFalse_sound:
  assumes "I s" "bool_query q"
  shows "delivers mf I (Solver_mustBeFalse S q s) (\<lambda>b. b = must_be 0 q)"
proof -
  obtain nq where nq: "negateExpr q = Some nq" "bool_query nq" "must_be 1 nq = must_be 0 q"
    using negateExpr_sem [OF assms(2)] by metis
  then show ?thesis using mustBeTrue_sound [OF assms(1) nq(2)] by (simp add: Solver_mustBeFalse_def)
qed

lemma mayBeTrue_sound:
  assumes "I s" "bool_query q"
  shows "delivers mf I (Solver_mayBeTrue S q s) (\<lambda>b. b = may_be 1 q)"
  unfolding Solver_mayBeTrue_def
  by (rule delivers_call [OF mustBeFalse_sound [OF assms]]) (simp add: must_be_may_be [OF assms(2)])

lemma mayBeFalse_sound:
  assumes "I s" "bool_query q"
  shows "delivers mf I (Solver_mayBeFalse S q s) (\<lambda>b. b = may_be 0 q)"
  unfolding Solver_mayBeFalse_def
  by (rule delivers_call [OF mustBeTrue_sound [OF assms]]) (simp add: must_be_may_be [OF assms(2)])

lemma getValue_sound:
  assumes "I s" "wf_query q"
  shows "delivers mf I (Solver_getValue S q s)
    (\<lambda>c. wf_apint c \<and> getBitWidth c = getWidth (q_expr q) \<and> may_be (apval c) q)"
proof (cases "as_const (q_expr q)")
  case None
  then show ?thesis
    by (auto simp: Solver_getValue_def value_of_query_def intro!: delivers_call [OF value_sound [OF assms]])
next
  case (Some c)
  then have q: "q_expr q = ConstantExpr c" by (cases "q_expr q") auto
  then show ?thesis using assms by (auto simp: Solver_getValue_def may_be_def wf_query_def)
qed

end

section \<open>The dummy solver\<close>

definition DummySolver :: "unit solver_impl" where
  "DummySolver =
     \<lparr>computeTruth = \<lambda>q s. Some (None, s),
      computeValidity = \<lambda>q s. Some (None, s),
      computeValue = \<lambda>q s. Some (None, s),
      computeInitialValues = \<lambda>q objs s. Some (None, s)\<rparr>"

interpretation dummy: sound_solver DummySolver "\<lambda>_. True" True
  by unfold_locales (simp_all add: DummySolver_def)

section \<open>Staging an incomplete solver\<close>

fun negatePartialValidity :: "PartialValidity \<Rightarrow> PartialValidity option" where
  "negatePartialValidity MustBeTrue = Some MustBeFalse"
| "negatePartialValidity MustBeFalse = Some MustBeTrue"
| "negatePartialValidity MayBeTrue = Some MayBeFalse"
| "negatePartialValidity MayBeFalse = Some MayBeTrue"
| "negatePartialValidity TrueOrFalse = Some TrueOrFalse"
| "negatePartialValidity PVNone = None"

record 'p incomplete_solver =
  inc_computeTruth :: "query \<Rightarrow> 'p \<Rightarrow> (PartialValidity \<times> 'p) option"
  inc_computeValidity :: "query \<Rightarrow> 'p \<Rightarrow> (PartialValidity \<times> 'p) option"
  inc_computeValue :: "query \<Rightarrow> 'p \<Rightarrow> ('p, expr) answer"
  inc_computeInitialValues :: "query \<Rightarrow> array list \<Rightarrow> 'p \<Rightarrow> ('p, int list list \<times> bool) answer"

definition IncompleteSolver_computeValidity ::
  "(query \<Rightarrow> 'p \<Rightarrow> (PartialValidity \<times> 'p) option) \<Rightarrow> query \<Rightarrow> 'p \<Rightarrow> (PartialValidity \<times> 'p) option" where
  "IncompleteSolver_computeValidity truth q p =
     do {
       (trueResult, p) \<leftarrow> truth q p;
       if trueResult = MustBeTrue then Some (MustBeTrue, p)
       else do {
         nq \<leftarrow> negateExpr q;
         (falseResult, p) \<leftarrow> truth nq p;
         if falseResult = MustBeTrue then Some (MustBeFalse, p)
         else Some (if trueResult \<noteq> PVNone \<and> falseResult \<noteq> PVNone then TrueOrFalse
                    else if trueResult \<noteq> PVNone then MayBeFalse
                    else if falseResult \<noteq> PVNone then MayBeTrue
                    else PVNone, p) } }"

text \<open>The answer of the secondary solver, with the state of the primary one put back beside it.\<close>

definition beside :: "'p \<Rightarrow> ('s, 'a) answer \<Rightarrow> ('p \<times> 's, 'a) answer" where
  "beside p m = map_option (\<lambda>(r, s). (r, (p, s))) m"

definition Staged_computeTruth ::
  "'p incomplete_solver \<Rightarrow> 's solver_impl \<Rightarrow> query \<Rightarrow> 'p \<times> 's \<Rightarrow> ('p \<times> 's, bool) answer" where
  "Staged_computeTruth P S q st =
     do {
       (trueResult, p) \<leftarrow> inc_computeTruth P q (fst st);
       if trueResult \<noteq> PVNone then Some (Some (trueResult = MustBeTrue), (p, snd st))
       else beside p (computeTruth S q (snd st)) }"

definition Staged_computeValidity ::
  "'p incomplete_solver \<Rightarrow> 's solver_impl \<Rightarrow> query \<Rightarrow> 'p \<times> 's \<Rightarrow> ('p \<times> 's, Validity) answer" where
  "Staged_computeValidity P S q st =
     do {
       (v, p) \<leftarrow> inc_computeValidity P q (fst st);
       case v of
         MustBeTrue \<Rightarrow> Some (Some VTrue, (p, snd st))
       | MustBeFalse \<Rightarrow> Some (Some VFalse, (p, snd st))
       | TrueOrFalse \<Rightarrow> Some (Some VUnknown, (p, snd st))
       | MayBeTrue \<Rightarrow> call (beside p (computeTruth S q (snd st)))
           (\<lambda>tmp st. Some (Some (if tmp then VTrue else VUnknown), st))
       | MayBeFalse \<Rightarrow> do {
           nq \<leftarrow> negateExpr q;
           call (beside p (computeTruth S nq (snd st)))
             (\<lambda>tmp st. Some (Some (if tmp then VFalse else VUnknown), st)) }
       | PVNone \<Rightarrow> beside p (computeValidity S q (snd st)) }"

definition Staged_computeValue ::
  "'p incomplete_solver \<Rightarrow> 's solver_impl \<Rightarrow> query \<Rightarrow> 'p \<times> 's \<Rightarrow> ('p \<times> 's, expr) answer" where
  "Staged_computeValue P S q st =
     do {
       (r, p) \<leftarrow> inc_computeValue P q (fst st);
       case r of Some e \<Rightarrow> Some (Some e, (p, snd st))
       | None \<Rightarrow> beside p (computeValue S q (snd st)) }"

definition Staged_computeInitialValues ::
  "'p incomplete_solver \<Rightarrow> 's solver_impl \<Rightarrow> query \<Rightarrow> array list \<Rightarrow> 'p \<times> 's \<Rightarrow>
   ('p \<times> 's, int list list \<times> bool) answer" where
  "Staged_computeInitialValues P S q objs st =
     do {
       (r, p) \<leftarrow> inc_computeInitialValues P q objs (fst st);
       case r of Some x \<Rightarrow> Some (Some x, (p, snd st))
       | None \<Rightarrow> beside p (computeInitialValues S q objs (snd st)) }"

definition StagedSolver :: "'p incomplete_solver \<Rightarrow> 's solver_impl \<Rightarrow> ('p \<times> 's) solver_impl" where
  "StagedSolver P S =
     \<lparr>computeTruth = Staged_computeTruth P S, computeValidity = Staged_computeValidity P S,
      computeValue = Staged_computeValue P S, computeInitialValues = Staged_computeInitialValues P S\<rparr>"

text \<open>
  What the sources ask of an incomplete solver: a partial validity that is not
  \<open>None\<close> holds of the query, and \<^verbatim>\<open>computeTruth\<close> answers \<open>MayBeTrue\<close> for no query,
  since its callers read every answer but \<open>MustBeTrue\<close> as \<^emph>\<open>not valid\<close>.
\<close>

definition sound_incomplete :: "'p incomplete_solver \<Rightarrow> ('p \<Rightarrow> bool) \<Rightarrow> bool" where
  "sound_incomplete P J \<longleftrightarrow>
     (\<forall>q p. J p \<longrightarrow> bool_query q \<longrightarrow>
        (\<exists>v p'. inc_computeTruth P q p = Some (v, p') \<and> J p' \<and> v \<noteq> MayBeTrue \<and> (v = PVNone \<or> pv_holds v q)) \<and>
        (\<exists>v p'. inc_computeValidity P q p = Some (v, p') \<and> J p' \<and> (v = PVNone \<or> pv_holds v q)) \<and>
        (\<forall>objs. delivers True J (inc_computeInitialValues P q objs p)
           (initial_of_query q objs))) \<and>
     (\<forall>q p. J p \<longrightarrow> wf_query q \<longrightarrow> delivers True J (inc_computeValue P q p) (value_of_query q))"

lemma pv_holds_valid:
  assumes "bool_query q" "pv_holds v q" "v \<noteq> MayBeTrue"
  shows "must_be 1 q \<longleftrightarrow> v = MustBeTrue"
  using assms(2,3) must_be_may_be [OF assms(1)] by (cases v) auto

lemma inc_default_validity:
  assumes truth: "\<And>q p. J p \<Longrightarrow> bool_query q \<Longrightarrow>
      \<exists>v p'. truth q p = Some (v, p') \<and> J p' \<and> v \<noteq> MayBeTrue \<and> (v = PVNone \<or> pv_holds v q)"
    and J: "J p" and q: "bool_query q"
  shows "\<exists>v p'. IncompleteSolver_computeValidity truth q p = Some (v, p') \<and> J p' \<and> (v = PVNone \<or> pv_holds v q)"
proof -
  obtain v p1 where v: "truth q p = Some (v, p1)" "J p1" "v \<noteq> MayBeTrue" "v = PVNone \<or> pv_holds v q"
    using truth [OF J q] by blast
  obtain nq where nq: "negateExpr q = Some nq" "bool_query nq" "must_be 1 nq = must_be 0 q"
    using negateExpr_sem [OF q] by metis
  obtain w p2 where w: "truth nq p1 = Some (w, p2)" "J p2" "w \<noteq> MayBeTrue" "w = PVNone \<or> pv_holds w nq"
    using truth [OF v(2) nq(2)] by blast
  have 1: "v \<noteq> PVNone \<Longrightarrow> must_be 1 q \<longleftrightarrow> v = MustBeTrue" using pv_holds_valid [OF q _ v(3)] v(4) by blast
  have 2: "w \<noteq> PVNone \<Longrightarrow> must_be 0 q \<longleftrightarrow> w = MustBeTrue" using pv_holds_valid [OF nq(2) _ w(3)] w(4) nq(3) by blast
  show ?thesis using 1 2 v w nq(1) must_be_may_be [OF q]
    by (auto simp: IncompleteSolver_computeValidity_def)
qed

lemma delivers_beside:
  "delivers mf I m Q \<Longrightarrow> J p \<Longrightarrow> delivers mf (\<lambda>(p, s). J p \<and> I s) (beside p m) Q"
  by (auto simp: delivers_def beside_def)

lemma delivers_weaken: "delivers False I m P \<Longrightarrow> delivers mf I m P"
  by (auto simp: delivers_def)

context sound_solver
begin

lemma staged_sound:
  assumes P: "sound_incomplete P J"
  shows "sound_solver (StagedSolver P S) (\<lambda>(p, s). J p \<and> I s) mf"
proof (unfold_locales, goal_cases)
  case (1 st q)
  then have st: "J (fst st)" "I (snd st)" by auto
  from P st(1) 1(2) obtain v p where v: "inc_computeTruth P q (fst st) = Some (v, p)" "J p" "v \<noteq> MayBeTrue"
    "v = PVNone \<or> pv_holds v q" unfolding sound_incomplete_def by blast
  then show ?case
    using pv_holds_valid [OF 1(2) _ v(3)] delivers_beside [OF truth_sound [OF st(2) 1(2)], of J p] st
    by (auto simp: StagedSolver_def Staged_computeTruth_def)
next
  case (2 st q)
  then have st: "J (fst st)" "I (snd st)" by auto
  from P st(1) 2(2) obtain v p where v: "inc_computeValidity P q (fst st) = Some (v, p)" "J p"
    "v = PVNone \<or> pv_holds v q" unfolding sound_incomplete_def by blast
  obtain nq where nq: "negateExpr q = Some nq" "bool_query nq" "must_be 1 nq = must_be 0 q"
    using negateExpr_sem [OF 2(2)] by metis
  note m = must_be_may_be [OF 2(2)]
  have t: "delivers mf (\<lambda>(p, s). J p \<and> I s) (beside p (computeTruth S q (snd st))) (\<lambda>b. b = must_be 1 q)"
    "delivers mf (\<lambda>(p, s). J p \<and> I s) (beside p (computeTruth S nq (snd st))) (\<lambda>b. b = must_be 0 q)"
    "delivers mf (\<lambda>(p, s). J p \<and> I s) (beside p (computeValidity S q (snd st))) (\<lambda>v. v = validity q)"
    using delivers_beside [OF truth_sound [OF st(2) 2(2)], of J p] delivers_beside [OF truth_sound [OF st(2) nq(2)], of J p]
      delivers_beside [OF validity_sound [OF st(2) 2(2)], of J p] nq(3) v(2)
    by simp_all
  show ?case
    using v m st t
    by (cases v) (auto simp: StagedSolver_def Staged_computeValidity_def validity_def nq(1)
      intro!: delivers_call [OF t(1)] delivers_call [OF t(2)])
next
  case (3 st q)
  then have st: "J (fst st)" "I (snd st)" by auto
  from P st(1) 3(2) have "delivers True J (inc_computeValue P q (fst st)) (value_of_query q)"
    unfolding sound_incomplete_def by blast
  then obtain r p where r: "inc_computeValue P q (fst st) = Some (r, p)" "J p" "\<forall>x. r = Some x \<longrightarrow> value_of_query q x"
    unfolding delivers_def by blast
  then show ?case using delivers_beside [OF value_sound [OF st(2) 3(2)], of J p] st
    by (auto simp: StagedSolver_def Staged_computeValue_def split: option.split)
next
  case (4 st q objs)
  then have st: "J (fst st)" "I (snd st)" by auto
  from P st(1) 4(2) have "delivers True J (inc_computeInitialValues P q objs (fst st))
      (initial_of_query q objs)"
    unfolding sound_incomplete_def by blast
  then obtain r p where r: "inc_computeInitialValues P q objs (fst st) = Some (r, p)" "J p"
    "\<forall>x. r = Some x \<longrightarrow> initial_of_query q objs x"
    unfolding delivers_def by blast
  then show ?case using delivers_beside [OF initial_sound [OF st(2) 4(2)], of J p] st
    by (auto simp: StagedSolver_def Staged_computeInitialValues_def split: option.split)
qed

end

section \<open>The caching solver\<close>

text \<open>
  The cache maps a set of constraints and a canonical expression to what is known
  of it. The canonical expression is the smaller one of the query and its negation
  in the order of \<^verbatim>\<open>Expr::compare\<close>, which goes by hash values and addresses; it is
  the parameter \<open>cmp\<close>, on which nothing is assumed. \<^verbatim>\<open>unordered_map::insert\<close> keeps
  an entry that is already there.
\<close>

record 's caching =
  base :: 's
  cache :: "expr set \<times> expr \<rightharpoonup> PartialValidity"
  queryCacheHits :: nat
  queryCacheMisses :: nat

type_synonym expr_cmp = "expr \<Rightarrow> expr \<Rightarrow> int"

definition canonicalizeQuery :: "expr_cmp \<Rightarrow> expr \<Rightarrow> (expr \<times> bool) option" where
  "canonicalizeQuery cmp originalQuery =
     do { negatedQuery \<leftarrow> createIsZero originalQuery;
          Some (if cmp originalQuery negatedQuery < 0 then (originalQuery, False) else (negatedQuery, True)) }"

definition cacheLookup :: "expr_cmp \<Rightarrow> query \<Rightarrow> 's caching \<Rightarrow> PartialValidity option option" where
  "cacheLookup cmp q st =
     do { (canonicalQuery, negationUsed) \<leftarrow> canonicalizeQuery cmp (q_expr q);
          case cache st (q_constraints q, canonicalQuery) of
            None \<Rightarrow> Some None
          | Some v \<Rightarrow> if negationUsed then do { v' \<leftarrow> negatePartialValidity v; Some (Some v') } else Some (Some v) }"

definition cacheInsert :: "expr_cmp \<Rightarrow> query \<Rightarrow> PartialValidity \<Rightarrow> 's caching \<Rightarrow> 's caching option" where
  "cacheInsert cmp q result st =
     do { (canonicalQuery, negationUsed) \<leftarrow> canonicalizeQuery cmp (q_expr q);
          cachedResult \<leftarrow> (if negationUsed then negatePartialValidity result else Some result);
          Some (case cache st (q_constraints q, canonicalQuery) of
              Some _ \<Rightarrow> st
            | None \<Rightarrow> st\<lparr>cache := (cache st)((q_constraints q, canonicalQuery) \<mapsto> cachedResult)\<rparr>) }"

definition cache_hit :: "'s caching \<Rightarrow> 's caching" where
  "cache_hit st = st\<lparr>queryCacheHits := queryCacheHits st + 1\<rparr>"

definition cache_miss :: "'s caching \<Rightarrow> 's caching" where
  "cache_miss st = st\<lparr>queryCacheMisses := queryCacheMisses st + 1\<rparr>"

definition on_base :: "('s \<Rightarrow> ('s, 'a) answer) \<Rightarrow> 's caching \<Rightarrow> ('s caching, 'a) answer" where
  "on_base f st = map_option (\<lambda>(r, s). (r, st\<lparr>base := s\<rparr>)) (f (base st))"

definition insert_answer :: "expr_cmp \<Rightarrow> query \<Rightarrow> PartialValidity \<Rightarrow> 'a \<Rightarrow> 's caching \<Rightarrow> ('s caching, 'a) answer" where
  "insert_answer cmp q v x st = do { st \<leftarrow> cacheInsert cmp q v st; Some (Some x, st) }"

definition Caching_computeValidity ::
  "expr_cmp \<Rightarrow> 's solver_impl \<Rightarrow> query \<Rightarrow> 's caching \<Rightarrow> ('s caching, Validity) answer" where
  "Caching_computeValidity cmp S q st =
     do { cached \<leftarrow> cacheLookup cmp q st;
          case cached of
            Some MustBeTrue \<Rightarrow> Some (Some VTrue, cache_hit st)
          | Some MustBeFalse \<Rightarrow> Some (Some VFalse, cache_hit st)
          | Some TrueOrFalse \<Rightarrow> Some (Some VUnknown, cache_hit st)
          | Some MayBeTrue \<Rightarrow>
              call (on_base (computeTruth S q) (cache_miss st)) (\<lambda>tmp st.
                if tmp then insert_answer cmp q MustBeTrue VTrue st
                else insert_answer cmp q TrueOrFalse VUnknown st)
          | Some MayBeFalse \<Rightarrow> do {
              nq \<leftarrow> negateExpr q;
              call (on_base (computeTruth S nq) (cache_miss st)) (\<lambda>tmp st.
                if tmp then insert_answer cmp q MustBeFalse VFalse st
                else insert_answer cmp q TrueOrFalse VUnknown st) }
          | Some PVNone \<Rightarrow> None
          | None \<Rightarrow>
              call (on_base (computeValidity S q) (cache_miss st)) (\<lambda>result st.
                insert_answer cmp q
                  (case result of VTrue \<Rightarrow> MustBeTrue | VFalse \<Rightarrow> MustBeFalse | VUnknown \<Rightarrow> TrueOrFalse) result st) }"

definition Caching_computeTruth ::
  "expr_cmp \<Rightarrow> 's solver_impl \<Rightarrow> query \<Rightarrow> 's caching \<Rightarrow> ('s caching, bool) answer" where
  "Caching_computeTruth cmp S q st =
     do { cached \<leftarrow> cacheLookup cmp q st;
          if cached \<noteq> None \<and> cached \<noteq> Some MayBeTrue
          then Some (Some (cached = Some MustBeTrue), cache_hit st)
          else call (on_base (computeTruth S q) (cache_miss st)) (\<lambda>isValid st.
            insert_answer cmp q
              (if isValid then MustBeTrue else if cached \<noteq> None then TrueOrFalse else MayBeFalse) isValid st) }"

definition CachingSolver :: "expr_cmp \<Rightarrow> 's solver_impl \<Rightarrow> 's caching solver_impl" where
  "CachingSolver cmp S =
     \<lparr>computeTruth = Caching_computeTruth cmp S,
      computeValidity = Caching_computeValidity cmp S,
      computeValue = \<lambda>q st. on_base (computeValue S q) (cache_miss st),
      computeInitialValues = \<lambda>q objs st. on_base (computeInitialValues S q objs) (cache_miss st)\<rparr>"

text \<open>Every entry is true of the query it is filed under.\<close>

definition cache_inv :: "('s \<Rightarrow> bool) \<Rightarrow> 's caching \<Rightarrow> bool" where
  "cache_inv I st \<longleftrightarrow> I (base st) \<and>
     (\<forall>C e v. cache st (C, e) = Some v \<longrightarrow> bool_query \<lparr>q_constraints = C, q_expr = e\<rparr> \<longrightarrow>
        pv_holds v \<lparr>q_constraints = C, q_expr = e\<rparr>)"

lemma cache_inv_simps [simp]:
  "cache_inv I (cache_hit st) = cache_inv I st" "cache_inv I (cache_miss st) = cache_inv I st"
  by (simp_all add: cache_inv_def cache_hit_def cache_miss_def)

lemma delivers_on_base:
  assumes "cache_inv I st" "\<And>s. I s \<Longrightarrow> delivers mf I (f s) P"
  shows "delivers mf (cache_inv I) (on_base f st) P"
  using assms(2) [of "base st"] assms(1) by (auto simp: delivers_def on_base_def cache_inv_def)

lemma pv_negate:
  assumes "bool_query q" "negateExpr q = Some nq" "v \<noteq> PVNone"
  shows "\<exists>v'. negatePartialValidity v = Some v' \<and> v' \<noteq> PVNone \<and> pv_holds v' nq = pv_holds v q \<and> pv_holds v' q = pv_holds v nq"
proof -
  obtain m where "negateExpr q = Some m" "must_be 1 m = must_be 0 q" "must_be 0 m = must_be 1 q"
    "may_be 1 m = may_be 0 q" "may_be 0 m = may_be 1 q"
    using negateExpr_sem [OF assms(1)] by metis
  with assms(2,3) show ?thesis by (cases v) auto
qed

text \<open>The canonical query, with the way its facts turn into facts on the query.\<close>

lemma canonical:
  assumes "bool_query q"
  obtains k neg where "canonicalizeQuery cmp (q_expr q) = Some (k, neg)"
    "bool_query (withExpr q k)"
    "\<And>v. v \<noteq> PVNone \<Longrightarrow> \<exists>v'. (if neg then negatePartialValidity v else Some v) = Some v' \<and> v' \<noteq> PVNone \<and>
        pv_holds v' (withExpr q k) = pv_holds v q \<and> pv_holds v' q = pv_holds v (withExpr q k)"
proof -
  obtain nq where nq: "negateExpr q = Some nq" "bool_query nq" using negateExpr_sem [OF assms] by metis
  then obtain ne where ne: "createIsZero (q_expr q) = Some ne" "nq = withExpr q ne" by (auto simp: negateExpr_def)
  show ?thesis
  proof (cases "cmp (q_expr q) ne < 0")
    case True
    with ne assms show ?thesis by (intro that [of "q_expr q" False]) (auto simp: canonicalizeQuery_def withExpr_def)
  next
    case False
    with ne nq pv_negate [OF assms nq(1)] show ?thesis
      by (intro that [of ne True]) (auto simp: canonicalizeQuery_def)
  qed
qed

lemma withExpr_query: "\<lparr>q_constraints = q_constraints q, q_expr = k\<rparr> = withExpr q k" for q :: query
  by (simp add: withExpr_def)

lemma cacheLookup_sound:
  assumes "bool_query q" "cache_inv I st"
  shows "\<exists>r. cacheLookup cmp q st = Some r \<and> (\<forall>v. r = Some v \<longrightarrow> pv_holds v q)"
proof -
  obtain k neg where k: "canonicalizeQuery cmp (q_expr q) = Some (k, neg)" "bool_query (withExpr q k)"
    "\<And>v. v \<noteq> PVNone \<Longrightarrow> \<exists>v'. (if neg then negatePartialValidity v else Some v) = Some v' \<and> v' \<noteq> PVNone \<and>
        pv_holds v' (withExpr q k) = pv_holds v q \<and> pv_holds v' q = pv_holds v (withExpr q k)"
    using canonical [OF assms(1), of cmp] by metis
  show ?thesis
  proof (cases "cache st (q_constraints q, k)")
    case None
    with k(1) show ?thesis by (simp add: cacheLookup_def)
  next
    case (Some v)
    then have v: "pv_holds v (withExpr q k)"
      using assms(2) k(2) unfolding cache_inv_def withExpr_query [of q k, symmetric] by blast
    then have "v \<noteq> PVNone" by auto
    from k(3) [OF this] v Some k(1) show ?thesis by (auto simp: cacheLookup_def split: if_splits)
  qed
qed

lemma cacheInsert_sound:
  assumes "bool_query q" "cache_inv I st" "pv_holds v q"
  shows "\<exists>st'. cacheInsert cmp q v st = Some st' \<and> cache_inv I st'"
proof -
  obtain k neg where k: "canonicalizeQuery cmp (q_expr q) = Some (k, neg)" "bool_query (withExpr q k)"
    "\<And>v. v \<noteq> PVNone \<Longrightarrow> \<exists>v'. (if neg then negatePartialValidity v else Some v) = Some v' \<and> v' \<noteq> PVNone \<and>
        pv_holds v' (withExpr q k) = pv_holds v q \<and> pv_holds v' q = pv_holds v (withExpr q k)"
    using canonical [OF assms(1), of cmp] by metis
  from assms(3) have "v \<noteq> PVNone" by auto
  from k(3) [OF this] obtain v' where v': "(if neg then negatePartialValidity v else Some v) = Some v'"
    "pv_holds v' (withExpr q k)" using assms(3) by blast
  have "cacheInsert cmp q v st = Some (case cache st (q_constraints q, k) of
              Some _ \<Rightarrow> st | None \<Rightarrow> st\<lparr>cache := (cache st)((q_constraints q, k) \<mapsto> v')\<rparr>)"
    using k(1) v'(1) by (simp add: cacheInsert_def)
  moreover have "cache_inv I (st\<lparr>cache := (cache st)((q_constraints q, k) \<mapsto> v')\<rparr>)"
    using assms(2) v'(2) by (auto simp: cache_inv_def withExpr_query)
  ultimately show ?thesis using assms(2) by (auto split: option.split)
qed

lemma insert_answer_sound:
  assumes "bool_query q" "cache_inv I st" "pv_holds v q" "P x"
  shows "delivers mf (cache_inv I) (insert_answer cmp q v x st) P"
  using cacheInsert_sound [OF assms(1-3), of cmp] assms(4) by (auto simp: insert_answer_def)

context sound_solver
begin

lemma caching_truth:
  assumes st: "cache_inv I st" and q: "bool_query q"
  shows "delivers mf (cache_inv I) (Caching_computeTruth cmp S q st) (\<lambda>b. b = must_be 1 q)"
proof -
  obtain r where r: "cacheLookup cmp q st = Some r" "\<forall>v. r = Some v \<longrightarrow> pv_holds v q"
    using cacheLookup_sound [OF q st] by blast
  note m = must_be_may_be [OF q]
  have b: "delivers mf (cache_inv I) (on_base (computeTruth S q) (cache_miss st)) (\<lambda>b. b = must_be 1 q)"
    by (rule delivers_on_base) (use st truth_sound q in simp_all)
  show ?thesis
  proof (cases "r \<noteq> None \<and> r \<noteq> Some MayBeTrue")
    case True
    then show ?thesis using r st pv_holds_valid [OF q] by (auto simp: Caching_computeTruth_def)
  next
    case False
    then show ?thesis
      unfolding Caching_computeTruth_def using r(2) m
      by (auto simp: r(1) intro!: delivers_call [OF b] insert_answer_sound [OF q])
  qed
qed

lemma caching_validity:
  assumes st: "cache_inv I st" and q: "bool_query q"
  shows "delivers mf (cache_inv I) (Caching_computeValidity cmp S q st) (\<lambda>v. v = validity q)"
proof -
  obtain r where r: "cacheLookup cmp q st = Some r" "\<forall>v. r = Some v \<longrightarrow> pv_holds v q"
    using cacheLookup_sound [OF q st] by blast
  obtain nq where nq: "negateExpr q = Some nq" "bool_query nq" "must_be 1 nq = must_be 0 q"
    using negateExpr_sem [OF q] by metis
  note m = must_be_may_be [OF q]
  have b: "delivers mf (cache_inv I) (on_base (computeTruth S q) (cache_miss st)) (\<lambda>b. b = must_be 1 q)"
    "delivers mf (cache_inv I) (on_base (computeTruth S nq) (cache_miss st)) (\<lambda>b. b = must_be 0 q)"
    "delivers mf (cache_inv I) (on_base (computeValidity S q) (cache_miss st)) (\<lambda>v. v = validity q)"
    by (rule delivers_on_base; use st truth_sound [OF _ q] truth_sound [OF _ nq(2)] validity_sound [OF _ q] nq(3) in simp)+
  show ?thesis
  proof (cases r)
    case None
    then show ?thesis unfolding Caching_computeValidity_def using m
      by (auto simp: r(1) validity_def intro!: delivers_call [OF b(3)] insert_answer_sound [OF q] split: Validity.split)
  next
    case (Some v)
    then have v: "pv_holds v q" using r(2) by blast
    show ?thesis unfolding Caching_computeValidity_def using m v st Some
      by (cases v) (auto simp: r(1) nq(1) validity_def intro!: delivers_call [OF b(1)] delivers_call [OF b(2)] insert_answer_sound [OF q])
  qed
qed

lemma caching_sound: "sound_solver (CachingSolver cmp S) (cache_inv I) mf"
  by unfold_locales
    (auto simp: CachingSolver_def intro: caching_truth caching_validity
      intro!: delivers_on_base value_sound initial_sound)

end

interpretation cached_dummy: sound_solver "CachingSolver cmp DummySolver" "cache_inv (\<lambda>_. True)" True for cmp
  by (rule dummy.caching_sound)

text \<open>An entry is never replaced, so a partial answer is never refined by the exact one.\<close>

lemma cacheInsert_present:
  assumes "canonicalizeQuery cmp (q_expr q) = Some (k, neg)" "cache st (q_constraints q, k) \<noteq> None"
    "cacheInsert cmp q v st = Some st'"
  shows "st' = st"
  using assms by (auto simp: cacheInsert_def)

lemma on_base_cache: "on_base f st = Some (r, st') \<Longrightarrow> cache st' = cache st"
  by (auto simp: on_base_def)

lemma insert_answer_present:
  assumes "canonicalizeQuery cmp (q_expr q) = Some (k, neg)" "cache st (q_constraints q, k) \<noteq> None"
    "insert_answer cmp q v x st = Some (r, st')"
  shows "st' = st"
  using assms cacheInsert_present [OF assms(1,2)] by (auto simp: insert_answer_def)

lemma call_cases:
  assumes "call m f = Some (r, s)"
  obtains "m = Some (None, s)" "r = None" | x t where "m = Some (Some x, t)" "f x t = Some (r, s)"
  using assms by (auto simp: call_def split: option.splits)

lemma call_keeps_cache:
  assumes "call (on_base g (cache_miss st)) f = Some (r, st')"
    "\<And>x t. cache t = cache st \<Longrightarrow> f x t = Some (r, st') \<Longrightarrow> cache st' = cache st"
  shows "cache st' = cache st"
  using assms(1)
proof (cases rule: call_cases)
  case 1
  then show ?thesis using on_base_cache by (fastforce simp: cache_miss_def)
next
  case (2 x t)
  then show ?thesis using assms(2) on_base_cache [OF 2(1)] by (simp add: cache_miss_def)
qed

lemma cacheLookup_present:
  assumes "canonicalizeQuery cmp (q_expr q) = Some (k, neg)" "cache st (q_constraints q, k) \<noteq> None"
    "cacheLookup cmp q st = Some r"
  obtains c where "r = Some c"
proof (cases r)
  case None
  then show ?thesis using assms by (auto simp: cacheLookup_def split: if_splits option.splits)
qed (rule that)

lemma insert_answer_keeps_cache:
  assumes "canonicalizeQuery cmp (q_expr q) = Some (k, neg)" "cache st (q_constraints q, k) \<noteq> None"
    "insert_answer cmp q w x t = Some (y, t')" "cache t = cache st"
  shows "cache t' = cache st"
  using insert_answer_present [OF assms(1) _ assms(3)] assms(2,4) by simp

lemma caching_keeps_cache:
  assumes k: "canonicalizeQuery cmp (q_expr q) = Some (k, neg)" "cache st (q_constraints q, k) \<noteq> None"
  shows "Caching_computeTruth cmp S q st = Some (r, st') \<Longrightarrow> cache st' = cache st"
    "Caching_computeValidity cmp S q st = Some (v, st') \<Longrightarrow> cache st' = cache st"
proof -
  note ins = insert_answer_keeps_cache [OF k]
  show "cache st' = cache st" if run: "Caching_computeTruth cmp S q st = Some (r, st')"
  proof -
    from run obtain x where "cacheLookup cmp q st = Some x" by (auto simp: Caching_computeTruth_def)
    moreover from cacheLookup_present [OF k this] obtain c where "x = Some c" .
    ultimately show ?thesis using run
      by (auto simp: Caching_computeTruth_def cache_hit_def split: if_splits elim!: call_keeps_cache dest!: ins)
  qed
  show "cache st' = cache st" if run: "Caching_computeValidity cmp S q st = Some (v, st')"
  proof -
    from run obtain x where "cacheLookup cmp q st = Some x" by (auto simp: Caching_computeValidity_def)
    moreover from cacheLookup_present [OF k this] obtain c where "x = Some c" .
    ultimately show ?thesis using run
      by (cases c) (auto simp: Caching_computeValidity_def cache_hit_def split: if_splits elim!: call_keeps_cache dest!: ins)
  qed
qed

end
