(* ===== verification/ER_SolverQueries.thy ===== *)
theory ER_SolverQueries
  imports ER_Solver
begin

text \<open>
  What the methods of a sound solver give their clients: the range of an
  expression by binary search (\<^verbatim>\<open>Solver::getRange\<close>), the solver that checks another
  against an oracle (\<^verbatim>\<open>ValidatingSolver.cpp\<close>), and the solver as the executor calls
  it, after simplification by the constraint manager (\<^verbatim>\<open>TimingSolver.cpp\<close>).
\<close>

section \<open>Ranges\<close>

text \<open>A binary search for a question that is monotone in its bound returns the least bound it holds of.\<close>

lemma search_least:
  assumes ask: "\<And>m s. I s \<Longrightarrow> m < H \<Longrightarrow> delivers False I (ask m s) (\<lambda>b. b = Q m)"
    and mono: "\<And>a b. Q a \<Longrightarrow> a \<le> b \<Longrightarrow> Q b"
    and init: "I s" "Q hi" "lo \<le> hi" "hi \<le> H"
  shows "\<exists>x s'. search ask lo hi s = Some (x, s') \<and> I s' \<and> lo \<le> x \<and> x \<le> hi \<and> Q x \<and> (\<forall>y. lo \<le> y \<longrightarrow> y < x \<longrightarrow> \<not> Q y)"
  using init
proof (induction "unat hi - unat lo" arbitrary: lo hi s rule: less_induct)
  case less
  show ?case
  proof (cases "lo < hi")
    case False
    with less.prems have "lo = hi" by simp
    with less.prems show ?thesis by (auto simp: search.simps [of ask hi hi s])
  next
    case True
    let ?mid = "lo + (hi - lo) div 2"
    note mid = search_mid [OF True]
    have le: "lo \<le> ?mid" "?mid < H" "?mid + 1 \<le> hi"
      using mid less.prems(4) by (simp_all add: word_le_nat_alt word_less_nat_alt)
    obtain s' where s': "ask ?mid s = Some (Some (Q ?mid), s')" "I s'"
      using ask [OF less.prems(1) le(2)] by (auto elim: delivers_answer)
    show ?thesis
    proof (cases "Q ?mid")
      case m: True
      have "unat ?mid - unat lo < unat hi - unat lo" using mid(1,2) True by (simp add: word_less_nat_alt)
      from less.hyps [OF this s'(2) m le(1) less_imp_le [OF le(2)]] obtain x t where
        x: "search ask lo ?mid s' = Some (x, t)" "I t" "lo \<le> x" "x \<le> ?mid" "Q x" "\<forall>y. lo \<le> y \<longrightarrow> y < x \<longrightarrow> \<not> Q y"
        by blast
      have "search ask lo hi s = Some (x, t)" using True s'(1) m x(1) by (simp add: search.simps [of ask lo hi s] Let_def)
      moreover have "x \<le> hi" using x(4) mid(2) by (metis order_trans less_imp_le)
      ultimately show ?thesis using x by blast
    next
      case m: False
      have "unat hi - unat (?mid + 1) < unat hi - unat lo"
        using mid True by (simp add: word_less_nat_alt) linarith
      from less.hyps [OF this s'(2) less.prems(2) le(3) less.prems(4)] obtain x t where
        x: "search ask (?mid + 1) hi s' = Some (x, t)" "I t" "?mid + 1 \<le> x" "x \<le> hi" "Q x" "\<forall>y. ?mid + 1 \<le> y \<longrightarrow> y < x \<longrightarrow> \<not> Q y"
        by blast
      have ny: "\<not> Q y" if "y < x" for y
      proof (cases "?mid + 1 \<le> y")
        case False
        then have "y \<le> ?mid" using mid(3) by (simp add: word_le_nat_alt)
        with m mono show ?thesis by blast
      qed (use x(6) that in blast)
      have lx: "lo \<le> x" using x(3) le(1) mid(3) by (simp add: word_le_nat_alt)
      have sx: "search ask lo hi s = Some (x, t)" using True s'(1) m x(1) by (simp add: search.simps [of ask lo hi s] Let_def)
      show ?thesis
      proof (rule exI [of _ x], rule exI [of _ t], intro conjI)
        show "\<forall>y. lo \<le> y \<longrightarrow> y < x \<longrightarrow> \<not> Q y" using ny by blast
      qed (fact sx lx x(2,4,5))+
    qed
  qed
qed

text \<open>A query about a property of the value of another.\<close>

lemma derived_query:
  assumes "wf_query q" "wf_expr c" "getWidth c = 1"
    and "\<And>\<sigma> v. eval \<sigma> (q_expr q) = Some v \<Longrightarrow> eval \<sigma> c = Some (bool_val (R v))"
  shows "bool_query (withExpr q c)"
    "must_be 1 (withExpr q c) \<longleftrightarrow> (\<forall>v. may_be v q \<longrightarrow> R v)"
    "may_be 1 (withExpr q c) \<longleftrightarrow> (\<exists>v. may_be v q \<and> R v)"
proof -
  have ev: "\<exists>v. eval \<sigma> (q_expr q) = Some v \<and> eval \<sigma> c = Some (bool_val (R v))" if "sat \<sigma> (q_constraints q)" for \<sigma>
    using assms(1,4) that by (auto simp: wf_query_def)
  show "bool_query (withExpr q c)"
    using assms(1-3) ev by (fastforce simp: bool_query_def wf_query_def withExpr_def)
  have [simp]: "bool_val b = 1 \<longleftrightarrow> b" for b by (simp add: bool_val_def)
  show "must_be 1 (withExpr q c) \<longleftrightarrow> (\<forall>v. may_be v q \<longrightarrow> R v)"
    using ev assms(4) by (fastforce simp: must_be_def may_be_def withExpr_def)
  show "may_be 1 (withExpr q c) \<longleftrightarrow> (\<exists>v. may_be v q \<and> R v)"
    using ev assms(4) by (fastforce simp: may_be_def withExpr_def)
qed

lemma may_be_range:
  assumes "wf_query q" "may_be v q"
  shows "0 \<le> v" "v < 2 ^ getWidth (q_expr q)"
  using assms eval_range by (auto simp: wf_query_def may_be_def)

lemma may_be_exists: "wf_query q \<Longrightarrow> \<exists>v. may_be v q"
  unfolding wf_query_def may_be_def by blast

lemma Ule_const_eval:
  assumes "wf_expr e" "getWidth e \<le> 64" "0 \<le> v" "v < 2 ^ getWidth e"
  shows "\<exists>c. (do { m \<leftarrow> ConstantExpr_create v (getWidth e); UleExpr_create e m }) = Some c \<and> wf_expr c \<and> getWidth c = 1 \<and>
    (\<forall>\<sigma> a. eval \<sigma> e = Some a \<longrightarrow> eval \<sigma> c = Some (bool_val (a \<le> v)))"
proof -
  note w = wf_width_pos [OF assms(1)]
  note c = alloc_ok [OF w assms(3,4)] and cc = ConstantExpr_create_ok [OF w assms(2-4)]
  have "creates (BinaryExpr Ule e (ConstantExpr_alloc v (getWidth e))) (UleExpr_create e (ConstantExpr_alloc v (getWidth e)))"
    by (rule Ule_create.create_sound_nodiv) (use assms c in simp_all)
  then show ?thesis using c cc by (auto elim!: createsE simp: refines_def)
qed

lemma Eq_const_eval:
  assumes "wf_expr e" "getWidth e \<le> 64" "0 \<le> v" "v < 2 ^ getWidth e"
  shows "\<exists>c. (do { m \<leftarrow> ConstantExpr_create v (getWidth e); EqExpr_create e m }) = Some c \<and> wf_expr c \<and> getWidth c = 1 \<and>
    (\<forall>\<sigma> a. eval \<sigma> e = Some a \<longrightarrow> eval \<sigma> c = Some (bool_val (a = v)))"
proof -
  note w = wf_width_pos [OF assms(1)]
  note c = alloc_ok [OF w assms(3,4)] and cc = ConstantExpr_create_ok [OF w assms(2-4)]
  have "creates (BinaryExpr Eq e (ConstantExpr_alloc v (getWidth e))) (EqExpr_create e (ConstantExpr_alloc v (getWidth e)))"
    by (rule Eq_create.create_sound_nodiv) (use assms c in simp_all)
  then show ?thesis using c cc by (auto elim!: createsE simp: refines_def)
qed

lemma shifted_zero_eval:
  assumes "wf_expr e" "getWidth e \<le> 64" "0 \<le> v" "v < int (getWidth e)"
  shows "\<exists>c. (do { m \<leftarrow> ConstantExpr_create v (getWidth e); sh \<leftarrow> LShrExpr_create e m;
                z \<leftarrow> ConstantExpr_create 0 (getWidth e); EqExpr_create sh z }) = Some c \<and> wf_expr c \<and> getWidth c = 1 \<and>
    (\<forall>\<sigma> a. eval \<sigma> e = Some a \<longrightarrow> eval \<sigma> c = Some (bool_val (a < 2 ^ nat v)))"
proof -
  let ?w = "getWidth e"
  have "int ?w < 2 ^ ?w" using less_exp [of ?w] by (metis of_nat_less_numeral_power_cancel_iff)
  then have v: "v < 2 ^ ?w" by (rule less_trans [OF assms(4)])
  note w = wf_width_pos [OF assms(1)]
  note c = alloc_ok [OF w assms(3) v] and cc = ConstantExpr_create_ok [OF w assms(2,3) v]
    and cz = ConstantExpr_create_ok [OF w assms(2), of 0]
  have "creates (BinaryExpr LShr e (ConstantExpr_alloc v ?w)) (LShrExpr_create e (ConstantExpr_alloc v ?w))"
    by (rule LShr_create.create_sound_nodiv) (use assms c in simp_all)
  then obtain sh where sh: "LShrExpr_create e (ConstantExpr_alloc v ?w) = Some sh" "wf_expr sh" "getWidth sh = ?w"
    "refines (BinaryExpr LShr e (ConstantExpr_alloc v ?w)) sh" by (auto elim!: createsE)
  have sv: "eval \<sigma> sh = Some (a div 2 ^ nat v)" if "eval \<sigma> e = Some a" for \<sigma> a
    using sh(4) that assms(4) c by (auto simp: refines_def)
  obtain d where d: "(do { m \<leftarrow> ConstantExpr_create 0 ?w; EqExpr_create sh m }) = Some d" "wf_expr d" "getWidth d = 1"
    "\<forall>\<sigma> a. eval \<sigma> sh = Some a \<longrightarrow> eval \<sigma> d = Some (bool_val (a = 0))"
    using Eq_const_eval [of sh 0] sh(2,3) assms(2) by auto
  have "eval \<sigma> d = Some (bool_val (a < 2 ^ nat v))" if "eval \<sigma> e = Some a" for \<sigma> a
    using d(4) sv [OF that] eval_range(1) [OF assms(1) that] by (auto simp: zdiv_eq_0_iff)
  then show ?thesis using cc sh(1) d(1-3) by auto
qed

context sound_solver
begin

lemma ask_shifted_zero_sound:
  assumes "I s" "wf_query q" "getWidth (q_expr q) \<le> 64" "unat m < getWidth (q_expr q)"
  shows "delivers mf I (ask_shifted_zero S q m s) (\<lambda>b. b = (\<forall>v. may_be v q \<longrightarrow> v < 2 ^ unat m))"
proof -
  have wf: "wf_expr (q_expr q)" using assms(2) by (simp add: wf_query_def)
  have m: "nat (uint m) = unat m" "uint m < int (getWidth (q_expr q))"
    using assms(4) unfolding unat_eq_nat_uint by (auto simp only: nat_less_iff [OF uint_ge_0])
  obtain c where c: "(do { m \<leftarrow> ConstantExpr_create (uint m) (getWidth (q_expr q)); sh \<leftarrow> LShrExpr_create (q_expr q) m;
        z \<leftarrow> ConstantExpr_create 0 (getWidth (q_expr q)); EqExpr_create sh z }) = Some c" "wf_expr c" "getWidth c = 1"
    "\<And>\<sigma> a. eval \<sigma> (q_expr q) = Some a \<Longrightarrow> eval \<sigma> c = Some (bool_val (a < 2 ^ unat m))"
    using shifted_zero_eval [OF wf assms(3) uint_ge_0 m(2)] unfolding m(1) by blast
  note d = derived_query [where R = "\<lambda>v. v < 2 ^ unat m", OF assms(2) c(2-4)]
  show ?thesis using mustBeTrue_sound [OF assms(1) d(1)] d(2)
    unfolding ask_shifted_zero_def Let_def c(1) by simp
qed

lemma ask_at_most_sound:
  assumes "I s" "wf_query q" "getWidth (q_expr q) \<le> 64" "uint m < 2 ^ getWidth (q_expr q)"
  shows "delivers mf I (ask_at_most Solver_mustBeTrue S q m s) (\<lambda>b. b = (\<forall>v. may_be v q \<longrightarrow> v \<le> uint m))"
    "delivers mf I (ask_at_most Solver_mayBeTrue S q m s) (\<lambda>b. b = (\<exists>v. may_be v q \<and> v \<le> uint m))"
proof -
  have wf: "wf_expr (q_expr q)" using assms(2) by (simp add: wf_query_def)
  obtain c where c: "(do { m \<leftarrow> ConstantExpr_create (uint m) (getWidth (q_expr q)); UleExpr_create (q_expr q) m }) = Some c"
    "wf_expr c" "getWidth c = 1" "\<And>\<sigma> a. eval \<sigma> (q_expr q) = Some a \<Longrightarrow> eval \<sigma> c = Some (bool_val (a \<le> uint m))"
    using Ule_const_eval [OF wf assms(3) uint_ge_0 assms(4)] by metis
  note d = derived_query [where R = "\<lambda>v. v \<le> uint m", OF assms(2) c(2-4)]
  show "delivers mf I (ask_at_most Solver_mustBeTrue S q m s) (\<lambda>b. b = (\<forall>v. may_be v q \<longrightarrow> v \<le> uint m))"
    "delivers mf I (ask_at_most Solver_mayBeTrue S q m s) (\<lambda>b. b = (\<exists>v. may_be v q \<and> v \<le> uint m))"
    using mustBeTrue_sound [OF assms(1) d(1)] mayBeTrue_sound [OF assms(1) d(1)] d(2,3)
    unfolding ask_at_most_def Let_def c(1) by simp_all
qed

lemma ask_zero_sound:
  assumes "I s" "wf_query q" "getWidth (q_expr q) \<le> 64"
  shows "delivers mf I (ask_zero S q s) (\<lambda>b. b = may_be 0 q)"
proof -
  have wf: "wf_expr (q_expr q)" using assms(2) by (simp add: wf_query_def)
  obtain c where c: "(do { m \<leftarrow> ConstantExpr_create 0 (getWidth (q_expr q)); EqExpr_create (q_expr q) m }) = Some c"
    "wf_expr c" "getWidth c = 1" "\<And>\<sigma> a. eval \<sigma> (q_expr q) = Some a \<Longrightarrow> eval \<sigma> c = Some (bool_val (a = 0))"
    using Eq_const_eval [OF wf assms(3), of 0] by auto
  note d = derived_query [where R = "\<lambda>v. v = 0", OF assms(2) c(2-4)]
  show ?thesis using mayBeTrue_sound [OF assms(1) d(1)] d(3) unfolding ask_zero_def Let_def c(1) by simp
qed

end

text \<open>For a solver that always answers, the searches end with the exact bounds.\<close>

locale complete_solver = sound_solver S I False for S :: "'s solver_impl" and I
begin

lemma range_bits_exact:
  assumes "I s" "wf_query q" "getWidth (q_expr q) \<le> 64"
  shows "\<exists>b s'. range_bits S q s = Some (b, s') \<and> I s' \<and> unat b \<le> getWidth (q_expr q) \<and> (\<forall>v. may_be v q \<longrightarrow> v < 2 ^ unat b)"
proof -
  let ?w = "getWidth (q_expr q)" and ?Q = "\<lambda>m :: 64 word. \<forall>v. may_be v q \<longrightarrow> v < 2 ^ unat m"
  have u: "unat (of_nat ?w :: 64 word) = ?w" using assms(3) by (simp add: unat_of_nat)
  have "\<exists>x s'. search (ask_shifted_zero S q) 0 (of_nat ?w) s = Some (x, s') \<and> I s' \<and> 0 \<le> x \<and> x \<le> of_nat ?w \<and> ?Q x \<and>
      (\<forall>y. 0 \<le> y \<longrightarrow> y < x \<longrightarrow> \<not> ?Q y)"
  proof (rule search_least)
    show "delivers False I (ask_shifted_zero S q m s) (\<lambda>b. b = ?Q m)" if "I s" "m < of_nat ?w" for m s
      by (rule ask_shifted_zero_sound [OF that(1) assms(2,3)]) (use that(2) [unfolded word_less_nat_alt u] in assumption)
    show "?Q b" if "?Q a" "a \<le> b" for a b :: "64 word"
      using that pow2_mono_less [of _ "unat a" "unat b"] unfolding word_le_nat_alt by blast
    show "?Q (of_nat ?w)" unfolding u using may_be_range(2) [OF assms(2)] by blast
    show "I s" "0 \<le> (of_nat ?w :: 64 word)" "of_nat ?w \<le> (of_nat ?w :: 64 word)" using assms(1) by simp_all
  qed
  then show ?thesis unfolding range_bits_def word_le_nat_alt u by blast
qed

lemma uint_mask64: "n \<le> 64 \<Longrightarrow> uint (mask n :: 64 word) = 2 ^ n - 1"
  by (simp only: uint_mask_eq) (simp add: min_def mask_eq_exp_minus_1)

lemma uint_mask_less: "n \<le> w \<Longrightarrow> w \<le> 64 \<Longrightarrow> m \<le> (mask n :: 64 word) \<Longrightarrow> uint m < 2 ^ w"
proof -
  assume a: "n \<le> w" "w \<le> 64" "m \<le> (mask n :: 64 word)"
  then have "uint m \<le> 2 ^ n - 1" using uint_mask64 [of n] by (simp only: word_le_def)
  then have "uint m < 2 ^ n" by simp
  then show "uint m < 2 ^ w" using pow2_mono_less a(1) by blast
qed

lemma range_max_exact:
  assumes "I s" "wf_query q" "getWidth (q_expr q) \<le> 64" "unat b \<le> getWidth (q_expr q)"
    "\<forall>v. may_be v q \<longrightarrow> v < 2 ^ unat b" "may_be (uint lo) q" "\<forall>v. may_be v q \<longrightarrow> uint lo \<le> v"
  shows "\<exists>x s'. range_max S q b lo s = Some (x, s') \<and> I s' \<and> may_be (uint x) q \<and> (\<forall>v. may_be v q \<longrightarrow> v \<le> uint x)"
proof -
  let ?Q = "\<lambda>m :: 64 word. \<forall>v. may_be v q \<longrightarrow> v \<le> uint m" and ?hi = "mask (unat b) :: 64 word"
  have hi: "bits64_maxValueOfNBits (unat b) = Some ?hi" using assms(3,4) by (simp add: bits64_maxValue_mask)
  have uh: "uint ?hi = 2 ^ unat b - 1" using assms(3,4) by (intro uint_mask64) simp
  have "\<exists>x s'. search (ask_at_most Solver_mustBeTrue S q) lo ?hi s = Some (x, s') \<and> I s' \<and> lo \<le> x \<and> x \<le> ?hi \<and> ?Q x \<and>
      (\<forall>y. lo \<le> y \<longrightarrow> y < x \<longrightarrow> \<not> ?Q y)"
  proof (rule search_least)
    show "delivers False I (ask_at_most Solver_mustBeTrue S q m s) (\<lambda>b. b = ?Q m)" if "I s" "m < ?hi" for m s
      by (rule ask_at_most_sound(1) [OF that(1) assms(2,3) uint_mask_less [OF assms(4,3)]]) (use that(2) in simp)
    show "?Q c" if "?Q a" "a \<le> c" for a c :: "64 word" using that by (force simp: word_le_def)
    show "?Q ?hi" unfolding uh using assms(5) by simp
    show "lo \<le> ?hi" unfolding word_le_def uh using assms(5,6) by simp
  qed (use assms in simp_all)
  then obtain x s' where x: "search (ask_at_most Solver_mustBeTrue S q) lo ?hi s = Some (x, s')" "I s'" "lo \<le> x" "?Q x"
    "\<forall>y. lo \<le> y \<longrightarrow> y < x \<longrightarrow> \<not> ?Q y" by blast
  have "may_be (uint x) q"
  proof (cases "x = lo")
    case False
    with x(3) have "lo < x" by simp
    then have l: "uint lo < uint x" by (simp add: word_less_def)
    then have "1 \<le> uint x" using uint_ge_0 [of lo] by linarith
    then have p: "uint (x - 1) = uint x - 1" using uint_minus_simple_alt [of 1 x] by (simp add: word_le_def)
    with l have "lo \<le> x - 1" "x - 1 < x" by (simp_all add: word_le_def word_less_def)
    with x(5) obtain v where v: "may_be v q" "\<not> v \<le> uint (x - 1)" by blast
    with x(4) p have "v = uint x" by fastforce
    with v(1) show ?thesis by simp
  qed (use assms(6) in simp)
  moreover have "range_max S q b lo s = Some (x, s')" using x(1) by (simp add: range_max_def hi)
  ultimately show ?thesis using x(2,4) by blast
qed

lemma range_min_exact:
  assumes "I s" "wf_query q" "getWidth (q_expr q) \<le> 64" "unat b \<le> getWidth (q_expr q)"
    "\<forall>v. may_be v q \<longrightarrow> v < 2 ^ unat b"
  shows "\<exists>x s'. range_min S q b s = Some (x, s') \<and> I s' \<and> may_be (uint x) q \<and> (\<forall>v. may_be v q \<longrightarrow> uint x \<le> v)"
proof -
  let ?Q = "\<lambda>m :: 64 word. \<exists>v. may_be v q \<and> v \<le> uint m" and ?hi = "mask (unat b) :: 64 word"
  have hi: "bits64_maxValueOfNBits (unat b) = Some ?hi" using assms(3,4) by (simp add: bits64_maxValue_mask)
  have uh: "uint ?hi = 2 ^ unat b - 1" using assms(3,4) by (intro uint_mask64) simp
  obtain s1 where s1: "ask_zero S q s = Some (Some (may_be 0 q), s1)" "I s1"
    using ask_zero_sound [OF assms(1-3)] by (auto elim: delivers_answer)
  note pos = may_be_range(1) [OF assms(2)]
  show ?thesis
  proof (cases "may_be 0 q")
    case True
    then show ?thesis using s1 pos by (simp add: range_min_def)
  next
    case False
    have "\<exists>x s'. search (ask_at_most Solver_mayBeTrue S q) 0 ?hi s1 = Some (x, s') \<and> I s' \<and> 0 \<le> x \<and> x \<le> ?hi \<and> ?Q x \<and>
        (\<forall>y. 0 \<le> y \<longrightarrow> y < x \<longrightarrow> \<not> ?Q y)"
    proof (rule search_least)
      show "delivers False I (ask_at_most Solver_mayBeTrue S q m s) (\<lambda>b. b = ?Q m)" if "I s" "m < ?hi" for m s
        by (rule ask_at_most_sound(2) [OF that(1) assms(2,3) uint_mask_less [OF assms(4,3)]]) (use that(2) in simp)
      show "?Q c" if "?Q a" "a \<le> c" for a c :: "64 word"
        using that order_trans [of _ "uint a" "uint c"] unfolding word_le_def by blast
      obtain v where "may_be v q" using may_be_exists [OF assms(2)] by blast
      with assms(5) uh show "?Q ?hi" by (intro exI [of _ v]) simp
    qed (use s1 in simp_all)
    then obtain x s' where x: "search (ask_at_most Solver_mayBeTrue S q) 0 ?hi s1 = Some (x, s')" "I s'" "?Q x"
      "\<forall>y. y < x \<longrightarrow> \<not> ?Q y" by auto
    have least: "uint x \<le> v" if "may_be v q" for v
    proof (rule ccontr)
      assume "\<not> uint x \<le> v"
      then have v: "0 \<le> v" "v < uint x" using pos [OF that] by simp_all
      moreover have "uint x < 2 ^ 64" using uint_bounded [of x] by simp
      ultimately have u: "uint (word_of_int v :: 64 word) = v" by (simp add: uint_word_of_int)
      with v have "word_of_int v < x" by (simp add: word_less_def)
      with x(4) have "\<not> ?Q (word_of_int v)" by blast
      with u that show False by (metis order_refl)
    qed
    from x(3) obtain v where "may_be v q" "v \<le> uint x" by blast
    with least [of v] have "may_be (uint x) q" by (simp add: order_antisym)
    moreover have "range_min S q b s = Some (x, s')" using s1(1) False x(1) by (simp add: range_min_def hi)
    ultimately show ?thesis using least x(2) by blast
  qed
qed

end

context complete_solver
begin

lemma range_bool_exact:
  assumes "I s" "wf_query q" "getWidth (q_expr q) = 1"
  shows "\<exists>lo hi s'. (case Solver_evaluate S q s of
               Some (Some v, s) \<Rightarrow> Some (case v of VTrue \<Rightarrow> ((1, 1), s) | VFalse \<Rightarrow> ((0, 0), s) | VUnknown \<Rightarrow> ((0, 1), s))
             | _ \<Rightarrow> None) = Some ((lo :: 64 word, hi :: 64 word), s') \<and> I s' \<and> may_be (uint lo) q \<and> may_be (uint hi) q \<and>
     (\<forall>v. may_be v q \<longrightarrow> uint lo \<le> v \<and> v \<le> uint hi)"
proof -
  have q: "bool_query q" using assms by (simp add: bool_query_def)
  obtain s1 where s1: "Solver_evaluate S q s = Some (Some (validity q), s1)" "I s1"
    using evaluate_sound [OF assms(1) q] by (auto elim: delivers_answer)
  note m = must_be_may_be [OF q]
  obtain v where v: "may_be v q" using may_be_exists [OF assms(2)] by blast
  have r: "0 \<le> v" "v < 2" if "may_be v q" for v using may_be_range [OF assms(2) that] assms(3) by simp_all
  have r: "v = 0 \<or> v = 1" if "may_be v q" for v using r [OF that] by linarith
  consider "must_be 1 q" "may_be 1 q" "\<not> may_be 0 q" | "must_be 0 q" "\<not> must_be 1 q" "may_be 0 q" "\<not> may_be 1 q"
    | "\<not> must_be 1 q" "\<not> must_be 0 q" "may_be 0 q" "may_be 1 q"
    using m r [OF v] v by blast
  then show ?thesis
  proof cases
    case 1
    have "\<forall>v. may_be v q \<longrightarrow> 1 \<le> v \<and> v \<le> 1" using r 1(3) by auto
    then show ?thesis using s1 1
      by (intro exI [of _ 1] exI [of _ s1]) (simp add: validity_def)
  next
    case 2
    have "\<forall>v. may_be v q \<longrightarrow> 0 \<le> v \<and> v \<le> 0" using r 2(4) by auto
    then show ?thesis using s1 2
      by (intro exI [of _ 0] exI [of _ s1]) (simp add: validity_def)
  next
    case 3
    have "\<forall>v. may_be v q \<longrightarrow> 0 \<le> v \<and> v \<le> 1" using r by fastforce
    then show ?thesis using s1 3
      by (intro exI [of _ 0] exI [of _ 1] exI [of _ s1]) (simp add: validity_def)
  qed
qed

lemma range_search_exact:
  assumes "I s" "wf_query q" "getWidth (q_expr q) \<le> 64"
  shows "\<exists>lo hi s'. (do { (bits, s) \<leftarrow> range_bits S q s; (min, s) \<leftarrow> range_min S q bits s;
      (max, s) \<leftarrow> range_max S q bits min s; Some ((min, max), s) }) = Some ((lo, hi), s') \<and> I s' \<and>
    may_be (uint lo) q \<and> may_be (uint hi) q \<and> (\<forall>v. may_be v q \<longrightarrow> uint lo \<le> v \<and> v \<le> uint hi)"
proof -
  obtain b s1 where b: "range_bits S q s = Some (b, s1)" "I s1" "unat b \<le> getWidth (q_expr q)" "\<forall>v. may_be v q \<longrightarrow> v < 2 ^ unat b"
    using range_bits_exact [OF assms] by blast
  obtain lo s2 where lo: "range_min S q b s1 = Some (lo, s2)" "I s2" "may_be (uint lo) q" "\<forall>v. may_be v q \<longrightarrow> uint lo \<le> v"
    using range_min_exact [OF b(2) assms(2,3) b(3,4)] by blast
  obtain hi s3 where hi: "range_max S q b lo s2 = Some (hi, s3)" "I s3" "may_be (uint hi) q" "\<forall>v. may_be v q \<longrightarrow> v \<le> uint hi"
    using range_max_exact [OF lo(2) assms(2,3) b(3,4) lo(3,4)] by blast
  show ?thesis by (rule exI [of _ lo], rule exI [of _ hi], rule exI [of _ s3]) (use b(1) lo hi in simp)
qed

lemma getRange_exact:
  assumes "I s" "wf_query q" "getWidth (q_expr q) \<le> 64"
  shows "\<exists>lo hi s'. getRange S q s =
      Some ((ConstantExpr_alloc lo (getWidth (q_expr q)), ConstantExpr_alloc hi (getWidth (q_expr q))), s') \<and> I s' \<and>
    may_be lo q \<and> may_be hi q \<and> (\<forall>v. may_be v q \<longrightarrow> lo \<le> v \<and> v \<le> hi)"
proof -
  let ?w = "getWidth (q_expr q)"
  define m where "m = (if ?w = 1 then
            (case Solver_evaluate S q s of
               Some (Some v, s) \<Rightarrow> Some (case v of VTrue \<Rightarrow> ((1, 1), s) | VFalse \<Rightarrow> ((0, 0), s) | VUnknown \<Rightarrow> ((0, 1), s))
             | _ \<Rightarrow> None)
          else case as_const (q_expr q) of
            Some c \<Rightarrow> do { v \<leftarrow> ConstantExpr_getZExtValue c; Some ((v, v), s) }
          | None \<Rightarrow> do {
              (bits, s) \<leftarrow> range_bits S q s;
              (min, s) \<leftarrow> range_min S q bits s;
              (max, s) \<leftarrow> range_max S q bits min s;
              Some ((min, max), s) })"
  have wf: "wf_expr (q_expr q)" using assms(2) by (simp add: wf_query_def)
  have "\<exists>lo hi s'. m = Some ((lo, hi), s') \<and> I s' \<and> may_be (uint lo) q \<and> may_be (uint hi) q \<and>
     (\<forall>v. may_be v q \<longrightarrow> uint lo \<le> v \<and> v \<le> uint hi)"
  proof (cases "?w = 1")
    case True
    then show ?thesis unfolding m_def using range_bool_exact [OF assms(1,2)] by simp
  next
    case w: False
    show ?thesis
    proof (cases "as_const (q_expr q)")
      case None
      then show ?thesis unfolding m_def using range_search_exact [OF assms] w by simp
    next
      case (Some c)
      then have c: "q_expr q = ConstantExpr c" by (cases "q_expr q") auto
      then have "0 \<le> apval c" "apval c < 2 ^ ?w" "getBitWidth c = ?w" using wf by (auto simp: wf_apint_def)
      moreover have "apval c < 2 ^ 64" using pow2_mono_less [OF calculation(2) assms(3)] .
      ultimately have u: "uint (word_of_int (apval c) :: 64 word) = apval c" by (simp add: uint_word_of_int)
      have mb: "may_be v q \<longleftrightarrow> v = apval c" for v using assms(2) c by (auto simp: may_be_def wf_query_def)
      show ?thesis unfolding m_def using w c u mb assms(1,3)
        by (intro exI [of _ "word_of_int (apval c)"] exI [of _ s]) (simp add: ConstantExpr_getZExtValue_def)
    qed
  qed
  then obtain lo hi s' where r: "m = Some ((lo, hi), s')" "I s'" "may_be (uint lo) q" "may_be (uint hi) q"
    "\<forall>v. may_be v q \<longrightarrow> uint lo \<le> v \<and> v \<le> uint hi" by blast
  have c: "ConstantExpr_create (uint x) ?w = Some (ConstantExpr_alloc (uint x) ?w)" if "may_be (uint x) q" for x :: "64 word"
    by (rule ConstantExpr_create_ok) (use wf_width_pos [OF wf] assms(3) may_be_range [OF assms(2) that] in simp_all)
  have "getRange S q s = (do { ((min, max), s) \<leftarrow> m; lo \<leftarrow> ConstantExpr_create (uint min) ?w;
      hi \<leftarrow> ConstantExpr_create (uint max) ?w; Some ((lo, hi), s) })"
    unfolding getRange_def m_def Let_def ..
  also have "\<dots> = Some ((ConstantExpr_alloc (uint lo) ?w, ConstantExpr_alloc (uint hi) ?w), s')"
    using r(1) c [OF r(3)] c [OF r(4)] by simp
  finally show ?thesis using r(2-5) by blast
qed

end

section \<open>A solver that decides every query\<close>

text \<open>
  The ideal of the decision procedures at the bottom of the stack. The solvers of
  the sources are sound and complete over it.
\<close>

definition decide_initial :: "query \<Rightarrow> array list \<Rightarrow> int list list \<times> bool" where
  "decide_initial q objs =
     (if must_be 1 q then ([], False)
      else (map (\<lambda>a. map (\<lambda>j. initial_value (SOME \<sigma>. sat \<sigma> (q_constraints q) \<and> eval \<sigma> (q_expr q) = Some 0) a (int j))
          [0..<arr_size a]) objs, True))"

definition exact_solver :: "unit solver_impl" where
  "exact_solver =
     \<lparr>computeTruth = \<lambda>q s. Some (Some (must_be 1 q), s),
      computeValidity = \<lambda>q s. Some (Some (validity q), s),
      computeValue = \<lambda>q s. Some (Some (ConstantExpr (apint_of (getWidth (q_expr q)) (SOME v. may_be v q))), s),
      computeInitialValues = \<lambda>q objs s. Some (Some (decide_initial q objs), s)\<rparr>"

lemma exact_value: "wf_query q \<Longrightarrow> value_of_query q (ConstantExpr (apint_of (getWidth (q_expr q)) (SOME v. may_be v q)))"
proof -
  assume q: "wf_query q"
  have m: "may_be (SOME v. may_be v q) q" by (rule someI_ex) (rule may_be_exists [OF q])
  have w: "0 < getWidth (q_expr q)" using q wf_width_pos by (auto simp: wf_query_def)
  show ?thesis using m may_be_range [OF q m] w
    by (auto simp: value_of_query_def apint_of_def wf_apint_def take_bit_int_eq_self)
qed

lemma exact_initial: "bool_query q \<Longrightarrow> initial_of_query q objs (decide_initial q objs)"
proof -
  assume q: "bool_query q"
  show ?thesis
  proof (cases "must_be 1 q")
    case False
    then have "may_be 0 q" using must_be_may_be(2) [OF q] by blast
    then have "\<exists>\<sigma>. sat \<sigma> (q_constraints q) \<and> eval \<sigma> (q_expr q) = Some 0" by (simp add: may_be_def)
    from someI_ex [OF this] False show ?thesis by (auto simp: initial_of_query_def decide_initial_def solves_def)
  qed (simp add: initial_of_query_def decide_initial_def)
qed

interpretation exact: complete_solver exact_solver "\<lambda>_. True"
  by unfold_locales (simp_all add: exact_solver_def exact_value exact_initial)

interpretation cached_exact: complete_solver "CachingSolver cmp exact_solver" "cache_inv (\<lambda>_. True)" for cmp
  by (rule complete_solver.intro [OF exact.caching_sound])

section \<open>The validating solver\<close>

definition second :: "('s \<Rightarrow> ('s, 'a) answer) \<Rightarrow> 'p \<times> 's \<Rightarrow> ('p \<times> 's, 'a) answer" where
  "second f st = beside (fst st) (f (snd st))"

definition first :: "('p \<Rightarrow> ('p, 'a) answer) \<Rightarrow> 'p \<times> 's \<Rightarrow> ('p \<times> 's, 'a) answer" where
  "first f st = map_option (\<lambda>(r, p). (r, (p, snd st))) (f (fst st))"

definition Validating_computeTruth ::
  "'p solver_impl \<Rightarrow> 's solver_impl \<Rightarrow> query \<Rightarrow> 'p \<times> 's \<Rightarrow> ('p \<times> 's, bool) answer" where
  "Validating_computeTruth S ora q st =
     call (first (computeTruth S q) st) (\<lambda>isValid st.
     call (second (computeTruth ora q) st) (\<lambda>answer st.
       if isValid \<noteq> answer then None else Some (Some isValid, st)))"

definition Validating_computeValidity ::
  "'p solver_impl \<Rightarrow> 's solver_impl \<Rightarrow> query \<Rightarrow> 'p \<times> 's \<Rightarrow> ('p \<times> 's, Validity) answer" where
  "Validating_computeValidity S ora q st =
     call (first (computeValidity S q) st) (\<lambda>result st.
     call (second (computeValidity ora q) st) (\<lambda>answer st.
       if result \<noteq> answer then None else Some (Some result, st)))"

definition Validating_computeValue ::
  "'p solver_impl \<Rightarrow> 's solver_impl \<Rightarrow> query \<Rightarrow> 'p \<times> 's \<Rightarrow> ('p \<times> 's, expr) answer" where
  "Validating_computeValue S ora q st =
     call (first (computeValue S q) st) (\<lambda>result st.
       case NeExpr_create (q_expr q) result of None \<Rightarrow> None
       | Some ne \<Rightarrow> call (second (computeTruth ora (withExpr q ne)) st) (\<lambda>answer st.
           if answer then None else Some (Some result, st)))"

text \<open>
  The bindings of a solution as constraints, byte by byte. A row that is shorter
  than its array is read out of bounds.
\<close>

definition binding :: "array \<Rightarrow> int list \<Rightarrow> nat \<Rightarrow> expr option" where
  "binding array row j =
     (if j < length row then do {
        r \<leftarrow> ReadExpr_create array [] (ConstantExpr_alloc (int j) (arr_domain array));
        EqExpr_create r (ConstantExpr_alloc (row ! j) (arr_range array)) }
      else None)"

fun bindings_upto :: "array \<Rightarrow> int list \<Rightarrow> nat \<Rightarrow> nat \<Rightarrow> expr set \<Rightarrow> expr set option" where
  "bindings_upto array row j 0 out = Some out"
| "bindings_upto array row j (Suc n) out =
     do { b \<leftarrow> binding array row j; bindings_upto array row (Suc j) n (insert b out) }"

fun solution_bindings :: "array list \<Rightarrow> int list list \<Rightarrow> expr set \<Rightarrow> expr set option" where
  "solution_bindings objs [] out = Some out"
| "solution_bindings [] (v # vs) out = None"
| "solution_bindings (a # objs) (v # vs) out =
     do { out \<leftarrow> bindings_upto a v 0 (arr_size a) out; solution_bindings objs vs out }"

fun conjoin :: "expr \<Rightarrow> expr list \<Rightarrow> expr option" where
  "conjoin c [] = Some c"
| "conjoin c (d # ds) = do { c' \<leftarrow> AndExpr_create c d; conjoin c' ds }"

text \<open>\<open>order\<close> is the iteration order of the unordered set of constraints.\<close>

definition Validating_computeInitialValues ::
  "(expr set \<Rightarrow> expr list) \<Rightarrow> 'p solver_impl \<Rightarrow> 's solver_impl \<Rightarrow> query \<Rightarrow> array list \<Rightarrow> 'p \<times> 's \<Rightarrow>
   ('p \<times> 's, int list list \<times> bool) answer" where
  "Validating_computeInitialValues order S ora q objs st =
     call (first (computeInitialValues S q objs) st) (\<lambda>(values, hasSolution) st.
       if hasSolution then
         (case (do { b \<leftarrow> solution_bindings objs values {};
                     n \<leftarrow> createIsZero (q_expr q);
                     c \<leftarrow> conjoin n (order (q_constraints q));
                     Some (b, c) }) of
            None \<Rightarrow> None
          | Some (b, c) \<Rightarrow>
              call (second (computeTruth ora \<lparr>q_constraints = b, q_expr = c\<rparr>) st) (\<lambda>answer st.
                if \<not> answer then None else Some (Some (values, True), st)))
       else
         call (second (computeTruth ora q) st) (\<lambda>answer st.
           if \<not> answer then None else Some (Some (values, False), st)))"

definition ValidatingSolver :: "(expr set \<Rightarrow> expr list) \<Rightarrow> 'p solver_impl \<Rightarrow> 's solver_impl \<Rightarrow> ('p \<times> 's) solver_impl" where
  "ValidatingSolver order S ora =
     \<lparr>computeTruth = Validating_computeTruth S ora, computeValidity = Validating_computeValidity S ora,
      computeValue = Validating_computeValue S ora,
      computeInitialValues = Validating_computeInitialValues order S ora\<rparr>"

lemma call_Some: "call m f = Some (Some x, s) \<Longrightarrow> \<exists>y t. m = Some (Some y, t) \<and> f y t = Some (Some x, s)"
  by (auto simp: call_def split: option.splits)

lemma first_Some: "first f st = Some (r, t) \<Longrightarrow> snd t = snd st"
  by (auto simp: first_def)

lemma second_Some: "second f st = Some (r, t) \<Longrightarrow> \<exists>s. f (snd st) = Some (r, s) \<and> t = (fst st, s)"
  by (auto simp: second_def beside_def)

context sound_solver
begin

text \<open>Whatever the solver under test does, an answer that passes the comparison with a sound oracle is right.\<close>

lemma validated_truth:
  assumes "I (snd st)" "bool_query q" "Validating_computeTruth T S q st = Some (Some b, st')"
  shows "b = must_be 1 q"
  using assms(3) unfolding Validating_computeTruth_def
  by (auto dest!: call_Some second_Some first_Some split: if_splits)
    (use truth_sound [OF assms(1,2)] in \<open>auto simp: delivers_def\<close>)

lemma validated_validity:
  assumes "I (snd st)" "bool_query q" "Validating_computeValidity T S q st = Some (Some v, st')"
  shows "v = validity q"
  using assms(3) unfolding Validating_computeValidity_def
  by (auto dest!: call_Some second_Some first_Some split: if_splits)
    (use validity_sound [OF assms(1,2)] in \<open>auto simp: delivers_def\<close>)

lemma Ne_query:
  assumes "wf_query q" "wf_apint c" "getBitWidth c = getWidth (q_expr q)"
  obtains ne where "NeExpr_create (q_expr q) (ConstantExpr c) = Some ne" "bool_query (withExpr q ne)"
    "must_be 1 (withExpr q ne) \<longleftrightarrow> \<not> may_be (apval c) q"
proof -
  have "creates (BinaryExpr Ne (q_expr q) (ConstantExpr c)) (NeExpr_create (q_expr q) (ConstantExpr c))"
    by (rule NeExpr_create_sound) (use assms in \<open>simp add: wf_query_def\<close>)
  then obtain ne where ne: "NeExpr_create (q_expr q) (ConstantExpr c) = Some ne" "wf_expr ne" "getWidth ne = 1"
    "refines (BinaryExpr Ne (q_expr q) (ConstantExpr c)) ne" by (auto elim!: createsE)
  have "eval \<sigma> ne = Some (bool_val (v \<noteq> apval c))" if "eval \<sigma> (q_expr q) = Some v" for \<sigma> v
    by (rule refinesD [OF ne(4)]) (use that in simp)
  note d = derived_query [where R = "\<lambda>v. v \<noteq> apval c", OF assms(1) ne(2,3) this]
  show ?thesis by (rule that [OF ne(1) d(1)]) (use d(2) in auto)
qed

lemma validated_value:
  assumes "I (snd st)" "wf_query q" "Validating_computeValue T S q st = Some (Some (ConstantExpr c), st')"
    "wf_apint c" "getBitWidth c = getWidth (q_expr q)"
  shows "may_be (apval c) q"
proof -
  obtain ne where ne: "NeExpr_create (q_expr q) (ConstantExpr c) = Some ne" "bool_query (withExpr q ne)"
    "must_be 1 (withExpr q ne) \<longleftrightarrow> \<not> may_be (apval c) q" using Ne_query [OF assms(2,4,5)] by blast
  from assms(3) obtain s where "computeTruth S (withExpr q ne) (snd st) = Some (Some False, s)"
    unfolding Validating_computeValue_def
    by (auto dest!: call_Some second_Some first_Some simp: ne(1) split: if_splits option.splits)
  with truth_sound [OF assms(1) ne(2)] ne(3) show ?thesis by simp
qed

end

section \<open>The timing solver\<close>

text \<open>
  The executor's way to the solver: constants are answered at once, and the
  expression is simplified by the constraint manager of the state first when
  \<^verbatim>\<open>simplifyExprs\<close> is set. A constraint manager is its constraints and the
  simplification it has built from them. The time accounting is left out.
\<close>

record constraint_manager =
  getAllConstraints :: "expr set"
  simplifyExpr :: "expr \<Rightarrow> expr option"

record 's timing_solver =
  ts_solver :: "'s solver_impl"
  simplifyExprs :: bool

definition TS_simplified :: "'s timing_solver \<Rightarrow> constraint_manager \<Rightarrow> expr \<Rightarrow> expr option" where
  "TS_simplified ts cm e = (if simplifyExprs ts then simplifyExpr cm e else Some e)"

definition TS_query :: "constraint_manager \<Rightarrow> expr \<Rightarrow> query" where
  "TS_query cm e = \<lparr>q_constraints = getAllConstraints cm, q_expr = e\<rparr>"

definition TS_evaluate :: "'s timing_solver \<Rightarrow> constraint_manager \<Rightarrow> expr \<Rightarrow> 's \<Rightarrow> ('s, Validity) answer" where
  "TS_evaluate ts cm e s =
     (case as_const e of
        Some c \<Rightarrow> Some (Some (if ConstantExpr_isTrue c then VTrue else VFalse), s)
      | None \<Rightarrow> (case TS_simplified ts cm e of None \<Rightarrow> None
          | Some e \<Rightarrow> Solver_evaluate (ts_solver ts) (TS_query cm e) s))"

definition TS_mustBeTrue :: "'s timing_solver \<Rightarrow> constraint_manager \<Rightarrow> expr \<Rightarrow> 's \<Rightarrow> ('s, bool) answer" where
  "TS_mustBeTrue ts cm e s =
     (case as_const e of
        Some c \<Rightarrow> Some (Some (ConstantExpr_isTrue c), s)
      | None \<Rightarrow> (case TS_simplified ts cm e of None \<Rightarrow> None
          | Some e \<Rightarrow> Solver_mustBeTrue (ts_solver ts) (TS_query cm e) s))"

definition TS_mustBeFalse :: "'s timing_solver \<Rightarrow> constraint_manager \<Rightarrow> expr \<Rightarrow> 's \<Rightarrow> ('s, bool) answer" where
  "TS_mustBeFalse ts cm e s =
     (case createIsZero e of None \<Rightarrow> None | Some ne \<Rightarrow> TS_mustBeTrue ts cm ne s)"

definition TS_mayBeTrue :: "'s timing_solver \<Rightarrow> constraint_manager \<Rightarrow> expr \<Rightarrow> 's \<Rightarrow> ('s, bool) answer" where
  "TS_mayBeTrue ts cm e s = call (TS_mustBeFalse ts cm e s) (\<lambda>res s. Some (Some (\<not> res), s))"

definition TS_mayBeFalse :: "'s timing_solver \<Rightarrow> constraint_manager \<Rightarrow> expr \<Rightarrow> 's \<Rightarrow> ('s, bool) answer" where
  "TS_mayBeFalse ts cm e s = call (TS_mustBeTrue ts cm e s) (\<lambda>res s. Some (Some (\<not> res), s))"

definition TS_getValue :: "'s timing_solver \<Rightarrow> constraint_manager \<Rightarrow> expr \<Rightarrow> 's \<Rightarrow> ('s, apint) answer" where
  "TS_getValue ts cm e s =
     (case as_const e of
        Some c \<Rightarrow> Some (Some c, s)
      | None \<Rightarrow> (case TS_simplified ts cm e of None \<Rightarrow> None
          | Some e \<Rightarrow> Solver_getValue (ts_solver ts) (TS_query cm e) s))"

definition TS_getInitialValues ::
  "'s timing_solver \<Rightarrow> constraint_manager \<Rightarrow> array list \<Rightarrow> 's \<Rightarrow> ('s, int list list) answer" where
  "TS_getInitialValues ts cm objs s =
     (if objs = [] then Some (Some [], s)
      else Solver_getInitialValues (ts_solver ts) (TS_query cm (ConstantExpr_alloc 0 1)) objs s)"

definition TS_getRange :: "'s timing_solver \<Rightarrow> constraint_manager \<Rightarrow> expr \<Rightarrow> 's \<Rightarrow> ((expr \<times> expr) \<times> 's) option" where
  "TS_getRange ts cm e s = getRange (ts_solver ts) (TS_query cm e) s"

text \<open>
  A simplification must return a well-formed expression of the same width that has
  the value of the original wherever the constraints hold.
\<close>

definition simplifies :: "constraint_manager \<Rightarrow> bool" where
  "simplifies cm \<longleftrightarrow> (\<forall>e. wf_expr e \<longrightarrow>
     (\<exists>e'. simplifyExpr cm e = Some e' \<and> wf_expr e' \<and> getWidth e' = getWidth e \<and>
        (\<forall>\<sigma> v. sat \<sigma> (getAllConstraints cm) \<longrightarrow> eval \<sigma> e = Some v \<longrightarrow> eval \<sigma> e' = Some v)))"

locale timing = sound_solver "ts_solver ts" I mf for ts :: "'s timing_solver" and I and mf +
  fixes cm :: constraint_manager
  assumes simp_ok: "simplifyExprs ts \<Longrightarrow> simplifies cm"
begin

lemma TS_query_simps [simp]: "q_constraints (TS_query cm e) = getAllConstraints cm" "q_expr (TS_query cm e) = e"
  "withExpr (TS_query cm e) e' = TS_query cm e'"
  by (simp_all add: TS_query_def withExpr_def)

lemma simplified_query:
  assumes "wf_query (TS_query cm e)"
  obtains e' where "TS_simplified ts cm e = Some e'" "wf_query (TS_query cm e')" "getWidth e' = getWidth e"
    "\<And>v. must_be v (TS_query cm e') = must_be v (TS_query cm e)" "\<And>v. may_be v (TS_query cm e') = may_be v (TS_query cm e)"
proof -
  have wf: "wf_expr e" using assms by (simp add: wf_query_def)
  have "\<exists>e'. TS_simplified ts cm e = Some e' \<and> wf_expr e' \<and> getWidth e' = getWidth e \<and>
      (\<forall>\<sigma> v. sat \<sigma> (getAllConstraints cm) \<longrightarrow> eval \<sigma> e = Some v \<longrightarrow> eval \<sigma> e' = Some v)"
    using simp_ok wf by (cases "simplifyExprs ts") (auto simp: TS_simplified_def simplifies_def)
  then obtain e' where e': "TS_simplified ts cm e = Some e'" "wf_expr e'" "getWidth e' = getWidth e"
    "\<And>\<sigma> v. sat \<sigma> (getAllConstraints cm) \<Longrightarrow> eval \<sigma> e = Some v \<Longrightarrow> eval \<sigma> e' = Some v" by blast
  have ev: "eval \<sigma> e' = eval \<sigma> e" if "sat \<sigma> (getAllConstraints cm)" for \<sigma>
    using assms that e'(4) [OF that] by (auto simp: wf_query_def)
  show ?thesis
  proof (rule that [OF e'(1) _ e'(3)])
    show "wf_query (TS_query cm e')" using assms e'(2) ev by (auto simp: wf_query_def)
    show "must_be v (TS_query cm e') = must_be v (TS_query cm e)" "may_be v (TS_query cm e') = may_be v (TS_query cm e)" for v
      using ev by (auto simp: must_be_def may_be_def)
  qed
qed

lemma TS_constant:
  assumes "bool_query (TS_query cm (ConstantExpr c))"
  shows "ConstantExpr_isTrue c = must_be 1 (TS_query cm (ConstantExpr c))"
    "(if ConstantExpr_isTrue c then VTrue else VFalse) = validity (TS_query cm (ConstantExpr c))"
  using bool_query_cases [OF assms] assms
  by (auto simp: ConstantExpr_isTrue_def must_be_def validity_def bool_query_def wf_query_def)

lemma TS_mustBeTrue_sound:
  assumes "I s" "bool_query (TS_query cm e)"
  shows "delivers mf I (TS_mustBeTrue ts cm e s) (\<lambda>b. b = must_be 1 (TS_query cm e))"
proof (cases "as_const e")
  case None
  from assms(2) have wq: "wf_query (TS_query cm e)" "getWidth e = 1" by (simp_all add: bool_query_def)
  obtain e' where e': "TS_simplified ts cm e = Some e'" "wf_query (TS_query cm e')" "getWidth e' = getWidth e"
    "\<And>v. must_be v (TS_query cm e') = must_be v (TS_query cm e)"
    using simplified_query [OF wq(1)] by metis
  have "bool_query (TS_query cm e')" using e'(2,3) wq by (simp add: bool_query_def)
  from mustBeTrue_sound [OF assms(1) this] show ?thesis using None e'(1,4) by (simp add: TS_mustBeTrue_def)
next
  case (Some c)
  then have "e = ConstantExpr c" by (cases e) auto
  with TS_constant(1) assms show ?thesis by (simp add: TS_mustBeTrue_def)
qed

lemma TS_evaluate_sound:
  assumes "I s" "bool_query (TS_query cm e)"
  shows "delivers mf I (TS_evaluate ts cm e s) (\<lambda>v. v = validity (TS_query cm e))"
proof (cases "as_const e")
  case None
  from assms(2) have wq: "wf_query (TS_query cm e)" "getWidth e = 1" by (simp_all add: bool_query_def)
  obtain e' where e': "TS_simplified ts cm e = Some e'" "wf_query (TS_query cm e')" "getWidth e' = getWidth e"
    "\<And>v. must_be v (TS_query cm e') = must_be v (TS_query cm e)"
    using simplified_query [OF wq(1)] by metis
  have "bool_query (TS_query cm e')" using e'(2,3) wq by (simp add: bool_query_def)
  moreover have "validity (TS_query cm e') = validity (TS_query cm e)" using e'(4) [of 1] e'(4) [of 0] by (simp add: validity_def)
  ultimately show ?thesis using evaluate_sound [OF assms(1), of "TS_query cm e'"] None e'(1) by (simp add: TS_evaluate_def)
next
  case (Some c)
  then have "e = ConstantExpr c" by (cases e) auto
  with TS_constant(2) assms show ?thesis by (simp add: TS_evaluate_def)
qed

lemma TS_mustBeFalse_sound:
  assumes "I s" "bool_query (TS_query cm e)"
  shows "delivers mf I (TS_mustBeFalse ts cm e s) (\<lambda>b. b = must_be 0 (TS_query cm e))"
proof -
  obtain nq where nq: "negateExpr (TS_query cm e) = Some nq" "bool_query nq" "must_be 1 nq = must_be 0 (TS_query cm e)"
    using negateExpr_sem [OF assms(2)] by metis
  then obtain ne where "createIsZero e = Some ne" "nq = TS_query cm ne" by (auto simp: negateExpr_def)
  with TS_mustBeTrue_sound [OF assms(1), of ne] nq(2,3) show ?thesis by (simp add: TS_mustBeFalse_def)
qed

lemma TS_mayBeTrue_sound:
  assumes "I s" "bool_query (TS_query cm e)"
  shows "delivers mf I (TS_mayBeTrue ts cm e s) (\<lambda>b. b = may_be 1 (TS_query cm e))"
  unfolding TS_mayBeTrue_def
  by (rule delivers_call [OF TS_mustBeFalse_sound [OF assms]]) (simp add: must_be_may_be [OF assms(2)])

lemma TS_getValue_sound:
  assumes "I s" "wf_query (TS_query cm e)"
  shows "delivers mf I (TS_getValue ts cm e s)
    (\<lambda>c. wf_apint c \<and> getBitWidth c = getWidth e \<and> may_be (apval c) (TS_query cm e))"
proof (cases "as_const e")
  case None
  obtain e' where e': "TS_simplified ts cm e = Some e'" "wf_query (TS_query cm e')" "getWidth e' = getWidth e"
    "\<And>v. may_be v (TS_query cm e') = may_be v (TS_query cm e)"
    using simplified_query [OF assms(2)] by metis
  from getValue_sound [OF assms(1) e'(2)] show ?thesis using None e'(1,3,4) by (simp add: TS_getValue_def)
next
  case (Some c)
  then have "e = ConstantExpr c" by (cases e) auto
  then show ?thesis using assms by (auto simp: TS_getValue_def may_be_def wf_query_def)
qed

end

interpretation plain_timing: timing "\<lparr>ts_solver = CachingSolver cmp exact_solver, simplifyExprs = False\<rparr>" "cache_inv (\<lambda>_. True)" False cm
  for cmp cm
  using exact.caching_sound [of cmp] by (simp add: timing_def timing_axioms_def)

end
