(* ===== verification/ER_Resolve.thy ===== *)
theory ER_Resolve
  imports ER_SolverQueries
begin

text \<open>
  The resolution of pointers, \<^verbatim>\<open>AddressSpace::resolveOne\<close> and \<^verbatim>\<open>AddressSpace::resolve\<close>,
  and the copies between object states and native memory around an external call
  (\<^verbatim>\<open>lib/Core/AddressSpace.cpp\<close>).
\<close>

section \<open>Resolution of a constant address\<close>

type_synonym ObjectPair = "MemoryObject \<times> oid"

text \<open>The object made up to search the map by address.\<close>

definition MemoryObject_at :: "64 word \<Rightarrow> MemoryObject" where
  "MemoryObject_at a =
     \<lparr>mo_id = 0, address = a, mo_size = 0, mo_name = ''unnamed'', isLocal = False, isGlobal = False, isFixed = True,
      isUserSpecified = False, isDeterm = False, allocSite = 0\<rparr>"

definition resolve_address :: "64 word \<Rightarrow> AddressSpace \<Rightarrow> ObjectPair option" where
  "resolve_address a as =
     (case MemoryMap_lookup_previous (MemoryObject_at a) (objects as) of
        Some (mo, os) \<Rightarrow> if a - address mo < of_nat (mo_size mo) then Some (mo, os) else None
      | None \<Rightarrow> None)"

definition resolveOne_const :: "apint \<Rightarrow> AddressSpace \<Rightarrow> ObjectPair option option" where
  "resolveOne_const addr as = do { a \<leftarrow> ConstantExpr_getZExtValue addr; Some (resolve_address a as) }"

section \<open>Resolution of a symbolic address\<close>

text \<open>
  The loops walk from \<^verbatim>\<open>upper_bound\<close> down to \<^verbatim>\<open>begin()\<close> and then up to \<^verbatim>\<open>end()\<close>; the
  entries they meet are \<open>rev (it_before oi)\<close> and \<open>it_rest oi\<close>. A loop that runs out
  falls through (\<open>None\<close>); a \<^verbatim>\<open>return\<close> inside it is \<open>Some\<close>.
\<close>

fun resolveOne_back ::
  "Context \<Rightarrow> 's timing_solver \<Rightarrow> constraint_manager \<Rightarrow> expr \<Rightarrow> ObjectPair list \<Rightarrow> 's \<Rightarrow>
   ('s, ObjectPair option) answer" where
  "resolveOne_back ctx ts cm p [] s = Some (Some None, s)"
| "resolveOne_back ctx ts cm p (op # ops) s =
     (case getBoundsCheckPointer ctx (fst op) p of None \<Rightarrow> None
      | Some inb \<Rightarrow> call (TS_mayBeTrue ts cm inb s) (\<lambda>mayBeTrue s.
          if mayBeTrue then Some (Some (Some op), s)
          else case (do { b \<leftarrow> getBaseExpr ctx (fst op); UgeExpr_create p b }) of None \<Rightarrow> None
            | Some ge \<Rightarrow> call (TS_mustBeTrue ts cm ge s) (\<lambda>mustBeTrue s.
                if mustBeTrue then Some (Some None, s) else resolveOne_back ctx ts cm p ops s)))"

fun resolveOne_forward ::
  "Context \<Rightarrow> 's timing_solver \<Rightarrow> constraint_manager \<Rightarrow> expr \<Rightarrow> ObjectPair list \<Rightarrow> 's \<Rightarrow>
   ('s, ObjectPair option) answer" where
  "resolveOne_forward ctx ts cm p [] s = Some (Some None, s)"
| "resolveOne_forward ctx ts cm p (op # ops) s =
     (case (do { b \<leftarrow> getBaseExpr ctx (fst op); UltExpr_create p b }) of None \<Rightarrow> None
      | Some lt \<Rightarrow> call (TS_mustBeTrue ts cm lt s) (\<lambda>mustBeTrue s.
          if mustBeTrue then Some (Some None, s)
          else case getBoundsCheckPointer ctx (fst op) p of None \<Rightarrow> None
            | Some inb \<Rightarrow> call (TS_mayBeTrue ts cm inb s) (\<lambda>mayBeTrue s.
                if mayBeTrue then Some (Some (Some op), s) else resolveOne_forward ctx ts cm p ops s)))"

text \<open>The answer is the pair found (\<^verbatim>\<open>success\<close>) or \<open>None\<close>; no answer when a query failed.\<close>

definition resolveOne ::
  "Context \<Rightarrow> 's timing_solver \<Rightarrow> constraint_manager \<Rightarrow> expr \<Rightarrow> AddressSpace \<Rightarrow> 's \<Rightarrow>
   ('s, ObjectPair option) answer" where
  "resolveOne ctx ts cm p as s =
     (case as_const p of
        Some c \<Rightarrow> do { r \<leftarrow> resolveOne_const c as; Some (Some r, s) }
      | None \<Rightarrow> call (TS_getValue ts cm p s) (\<lambda>cex s.
          do { example \<leftarrow> ConstantExpr_getZExtValue cex;
               case resolve_address example as of
                 Some op \<Rightarrow> Some (Some (Some op), s)
               | None \<Rightarrow> do {
                   oi \<leftarrow> MemoryMap_upper_bound (MemoryObject_at example) (objects as);
                   call (resolveOne_back ctx ts cm p (rev (it_before oi)) s) (\<lambda>r s.
                     if r \<noteq> None then Some (Some r, s)
                     else resolveOne_forward ctx ts cm p (it_rest oi) s) } }))"

definition checkPointerInObject ::
  "Context \<Rightarrow> 's timing_solver \<Rightarrow> constraint_manager \<Rightarrow> expr \<Rightarrow> ObjectPair \<Rightarrow> ObjectPair list \<Rightarrow> nat \<Rightarrow> 's \<Rightarrow>
   (nat \<times> ObjectPair list \<times> 's) option" where
  "checkPointerInObject ctx ts cm p op rl maxResolutions s =
     do { inBounds \<leftarrow> getBoundsCheckPointer ctx (fst op) p;
          (mayBeTrue, s) \<leftarrow> TS_mayBeTrue ts cm inBounds s;
          case mayBeTrue of
            None \<Rightarrow> Some (1, rl, s)
          | Some False \<Rightarrow> Some (2, rl, s)
          | Some True \<Rightarrow>
              (let rl = rl @ [op] in
               if length rl = 1 then do {
                 (mustBeTrue, s) \<leftarrow> TS_mustBeTrue ts cm inBounds s;
                 case mustBeTrue of
                   None \<Rightarrow> Some (1, rl, s)
                 | Some b \<Rightarrow> Some (if b then 0 else 2, rl, s) }
               else if length rl = maxResolutions then Some (1, rl, s)
               else Some (2, rl, s)) }"

text \<open>
  \<open>late n\<close>: at the \<open>n\<close>-th step of the loops the clock is past the timeout. The loops
  return the step reached, the list, the solver and the value returned, if they return.
\<close>

fun resolve_back ::
  "Context \<Rightarrow> 's timing_solver \<Rightarrow> constraint_manager \<Rightarrow> (nat \<Rightarrow> bool) \<Rightarrow> nat \<Rightarrow> expr \<Rightarrow> ObjectPair list \<Rightarrow>
   nat \<Rightarrow> ObjectPair list \<Rightarrow> 's \<Rightarrow> (bool option \<times> nat \<times> ObjectPair list \<times> 's) option" where
  "resolve_back ctx ts cm late maxR p [] n rl s = Some (None, n, rl, s)"
| "resolve_back ctx ts cm late maxR p (op # ops) n rl s =
     (if late n then Some (Some True, n, rl, s)
      else do {
        (incomplete, rl, s) \<leftarrow> checkPointerInObject ctx ts cm p op rl maxR s;
        if incomplete \<noteq> 2 then Some (Some (incomplete \<noteq> 0), n, rl, s)
        else do {
          b \<leftarrow> getBaseExpr ctx (fst op);
          ge \<leftarrow> UgeExpr_create p b;
          (mustBeTrue, s) \<leftarrow> TS_mustBeTrue ts cm ge s;
          case mustBeTrue of
            None \<Rightarrow> Some (Some True, n, rl, s)
          | Some True \<Rightarrow> Some (None, n + 1, rl, s)
          | Some False \<Rightarrow> resolve_back ctx ts cm late maxR p ops (n + 1) rl s } })"

fun resolve_forward ::
  "Context \<Rightarrow> 's timing_solver \<Rightarrow> constraint_manager \<Rightarrow> (nat \<Rightarrow> bool) \<Rightarrow> nat \<Rightarrow> expr \<Rightarrow> ObjectPair list \<Rightarrow>
   nat \<Rightarrow> ObjectPair list \<Rightarrow> 's \<Rightarrow> (bool option \<times> nat \<times> ObjectPair list \<times> 's) option" where
  "resolve_forward ctx ts cm late maxR p [] n rl s = Some (None, n, rl, s)"
| "resolve_forward ctx ts cm late maxR p (op # ops) n rl s =
     (if late n then Some (Some True, n, rl, s)
      else do {
        b \<leftarrow> getBaseExpr ctx (fst op);
        lt \<leftarrow> UltExpr_create p b;
        (mustBeTrue, s) \<leftarrow> TS_mustBeTrue ts cm lt s;
        case mustBeTrue of
          None \<Rightarrow> Some (Some True, n, rl, s)
        | Some True \<Rightarrow> Some (None, n, rl, s)
        | Some False \<Rightarrow> do {
            (incomplete, rl, s) \<leftarrow> checkPointerInObject ctx ts cm p op rl maxR s;
            if incomplete \<noteq> 2 then Some (Some (incomplete \<noteq> 0), n, rl, s)
            else resolve_forward ctx ts cm late maxR p ops (n + 1) rl s } })"

definition resolve ::
  "Context \<Rightarrow> 's timing_solver \<Rightarrow> constraint_manager \<Rightarrow> (nat \<Rightarrow> bool) \<Rightarrow> nat \<Rightarrow> expr \<Rightarrow> AddressSpace \<Rightarrow>
   ObjectPair list \<Rightarrow> 's \<Rightarrow> (bool \<times> ObjectPair list \<times> 's) option" where
  "resolve ctx ts cm late maxR p as rl s =
     (case as_const p of
        Some c \<Rightarrow> do { r \<leftarrow> resolveOne_const c as;
                       Some (False, (case r of Some op \<Rightarrow> rl @ [op] | None \<Rightarrow> rl), s) }
      | None \<Rightarrow> do {
          (cex, s) \<leftarrow> TS_getValue ts cm p s;
          case cex of
            None \<Rightarrow> Some (True, rl, s)
          | Some cex \<Rightarrow> do {
              example \<leftarrow> ConstantExpr_getZExtValue cex;
              oi \<leftarrow> MemoryMap_upper_bound (MemoryObject_at example) (objects as);
              (ret, n, rl, s) \<leftarrow> resolve_back ctx ts cm late maxR p (rev (it_before oi)) 0 rl s;
              case ret of
                Some b \<Rightarrow> Some (b, rl, s)
              | None \<Rightarrow> do {
                  (ret, n, rl, s) \<leftarrow> resolve_forward ctx ts cm late maxR p (it_rest oi) n rl s;
                  Some ((case ret of Some b \<Rightarrow> b | None \<Rightarrow> False), rl, s) } } })"

section \<open>What an address resolves to\<close>

text \<open>The objects of a space lie in the address space and do not overlap.\<close>

definition in_object :: "int \<Rightarrow> ObjectPair \<Rightarrow> bool" where
  "in_object a op \<longleftrightarrow> uint (address (fst op)) \<le> a \<and> a < uint (address (fst op)) + int (mo_size (fst op))"

definition disjoint_objects :: "Context \<Rightarrow> AddressSpace \<Rightarrow> bool" where
  "disjoint_objects ctx as \<longleftrightarrow> wf_map (objects as) \<and>
     (\<forall>x \<in> bound as. wf_mo ctx (fst x)) \<and>
     (\<forall>x \<in> bound as. \<forall>y \<in> bound as. address (fst x) < address (fst y) \<longrightarrow>
        uint (address (fst x)) + int (mo_size (fst x)) \<le> uint (address (fst y)))"

lemma in_object_unique:
  assumes "disjoint_objects ctx as" "x \<in> bound as" "y \<in> bound as" "in_object a x" "in_object a y"
  shows "x = y"
proof -
  consider "address (fst x) < address (fst y)" | "address (fst y) < address (fst x)" | "address (fst x) = address (fst y)"
    by (rule linorder_cases)
  then show ?thesis
  proof cases
    case 3
    then show ?thesis using assms wf_map_inj [of "objects as" x y] by (auto simp: disjoint_objects_def bound_def)
  qed (use assms in \<open>fastforce simp: disjoint_objects_def in_object_def\<close>)+
qed

lemma offset_word:
  fixes a b :: "64 word"
  assumes "int n < 2 ^ 64"
  shows "a - b < of_nat n \<longleftrightarrow> (uint a - uint b) mod 2 ^ 64 < int n"
proof -
  have "n < 2 ^ 64" using assms by (metis of_nat_less_numeral_power_cancel_iff)
  then have "uint (of_nat n :: 64 word) = int n" by (simp add: unat_of_nat uint_nat)
  then show ?thesis by (simp add: word_less_def uint_word_ariths)
qed

lemma offset_in_object:
  assumes "wf_mo ctx (fst op)"
  shows "a - address (fst op) < of_nat (mo_size (fst op)) \<longleftrightarrow> in_object (uint a) op"
proof -
  let ?n = "int (mo_size (fst op))" and ?b = "uint (address (fst op))"
  have "?b + ?n < 2 ^ getPointerWidth ctx" "getPointerWidth ctx \<le> 64" using assms by (auto simp: wf_mo_def)
  then have b: "?b + ?n < 2 ^ 64" by (rule pow2_mono_less)
  then have n: "?n < 2 ^ 64" using uint_ge_0 [of "address (fst op)"] by linarith
  have "uint a < 2 ^ 64" using uint_bounded [of a] by simp
  then show ?thesis unfolding offset_word [OF n] in_object_def
    using offset_in_range [of "uint a" 64 ?b ?n] b by simp
qed

lemma lookup_previous_last:
  assumes "wf_map t" "MemoryMap_lookup_previous k t = r"
  shows "case r of None \<Rightarrow> \<forall>y \<in> set (inorder t). address k < address (fst y)
    | Some x \<Rightarrow> x \<in> set (inorder t) \<and> address (fst x) \<le> address k \<and>
        (\<forall>y \<in> set (inorder t). address (fst y) \<le> address k \<longrightarrow> address (fst y) \<le> address (fst x))"
proof -
  let ?l = "filter (\<lambda>x. address (fst x) \<le> address k) (inorder t)"
  have r: "r = (case rev ?l of [] \<Rightarrow> None | x # _ \<Rightarrow> Some x)"
    using assms mo_order.lookup_previous_loop_inorder [of t k None]
    by (simp add: MemoryMap_lookup_previous_def lookup_previous_def wf_map_def)
  have srt: "sorted_wrt (\<lambda>x y. address (fst x) < address (fst y)) ?l"
    using assms(1) by (simp add: wf_map_def ordered_def sorted_wrt_map sorted_wrt_filter)
  show ?thesis
  proof (cases "rev ?l")
    case Nil
    then show ?thesis by (auto simp: r filter_empty_conv not_le)
  next
    case (Cons x xs)
    then have l: "?l = rev xs @ [x]" by (metis rev_rev_ident rev.simps(2))
    then have x: "x \<in> set ?l" by simp
    have "address (fst y) \<le> address (fst x)" if "y \<in> set (inorder t)" "address (fst y) \<le> address k" for y
    proof -
      have "y \<in> set ?l" using that by simp
      then show ?thesis using srt unfolding l by (auto simp: sorted_wrt_append)
    qed
    then have "\<forall>y \<in> set (inorder t). address (fst y) \<le> address k \<longrightarrow> address (fst y) \<le> address (fst x)" by blast
    with x Cons show ?thesis by (simp add: r)
  qed
qed

lemma resolve_address_iff:
  assumes "disjoint_objects ctx as"
  shows "resolve_address a as = Some op \<longleftrightarrow> op \<in> bound as \<and> in_object (uint a) op"
proof -
  have wf: "wf_map (objects as)" and mo: "\<And>x. x \<in> bound as \<Longrightarrow> wf_mo ctx (fst x)"
    using assms by (auto simp: disjoint_objects_def)
  define r where "r = MemoryMap_lookup_previous (MemoryObject_at a) (objects as)"
  note l = lookup_previous_last [OF wf, of "MemoryObject_at a"]
  show ?thesis
  proof (cases r)
    case None
    with l have "\<forall>y \<in> bound as. a < address (fst y)" by (simp add: r_def bound_def MemoryObject_at_def)
    then have "\<not> in_object (uint a) op" if "op \<in> bound as" using that by (auto simp: in_object_def word_less_def)
    then show ?thesis using None by (auto simp: resolve_address_def r_def)
  next
    case (Some x)
    with l have x: "x \<in> bound as" "address (fst x) \<le> a"
      "\<And>y. y \<in> bound as \<Longrightarrow> address (fst y) \<le> a \<Longrightarrow> address (fst y) \<le> address (fst x)"
      by (auto simp: r_def bound_def MemoryObject_at_def)
    have e: "resolve_address a as = (if in_object (uint a) x then Some x else None)"
      using Some offset_in_object [OF mo [OF x(1)], of a] by (auto simp: resolve_address_def r_def split: prod.split)
    have "op = x" if o: "op \<in> bound as" "in_object (uint a) op"
    proof -
      have "address (fst op) \<le> a" using o(2) by (simp add: in_object_def word_le_def)
      then have le: "address (fst op) \<le> address (fst x)" using x(3) o(1) by blast
      show ?thesis
      proof (cases "address (fst op) = address (fst x)")
        case True
        then show ?thesis using wf_map_inj [OF wf] o(1) x(1) by (simp add: bound_def)
      next
        case False
        with le have "address (fst op) < address (fst x)" by simp
        then have "uint (address (fst op)) + int (mo_size (fst op)) \<le> uint (address (fst x))"
          using assms o(1) x(1) unfolding disjoint_objects_def by blast
        then have False using o(2) x(2) by (simp add: in_object_def word_le_def)
        then show ?thesis ..
      qed
    qed
    then show ?thesis using e x(1) by auto
  qed
qed

section \<open>The resolution is sound and complete\<close>

definition points_to :: "constraint_manager \<Rightarrow> expr \<Rightarrow> ObjectPair \<Rightarrow> bool" where
  "points_to cm p op \<longleftrightarrow> (\<exists>v. may_be v (TS_query cm p) \<and> in_object v op)"

definition resolvable :: "Context \<Rightarrow> constraint_manager \<Rightarrow> expr \<Rightarrow> AddressSpace \<Rightarrow> bool" where
  "resolvable ctx cm p as \<longleftrightarrow>
     wf_query (TS_query cm p) \<and> getWidth p = getPointerWidth ctx \<and> getPointerWidth ctx \<le> 64 \<and> disjoint_objects ctx as"

lemma Uge_base_eval:
  assumes "wf_mo ctx mo" "wf_expr p" "getWidth p = getPointerWidth ctx"
  shows "\<exists>b ge. getBaseExpr ctx mo = Some b \<and> UgeExpr_create p b = Some ge \<and> wf_expr ge \<and> getWidth ge = 1 \<and>
    (\<forall>\<sigma> a. eval \<sigma> p = Some a \<longrightarrow> eval \<sigma> ge = Some (bool_val (uint (address mo) \<le> a)))"
    "\<exists>b lt. getBaseExpr ctx mo = Some b \<and> UltExpr_create p b = Some lt \<and> wf_expr lt \<and> getWidth lt = 1 \<and>
    (\<forall>\<sigma> a. eval \<sigma> p = Some a \<longrightarrow> eval \<sigma> lt = Some (bool_val (a < uint (address mo))))"
proof -
  let ?w = "getPointerWidth ctx" and ?b = "uint (address mo)"
  have w: "0 < ?w" "?w \<le> 64" "0 \<le> ?b" "?b < 2 ^ ?w" using assms(1) by (auto simp: wf_mo_def)
  note base = ConstantExpr_create_ok [OF w] and c = alloc_ok [OF w(1,3,4)]
  have "creates (BinaryExpr Uge p (ConstantExpr_alloc ?b ?w)) (UgeExpr_create p (ConstantExpr_alloc ?b ?w))"
    by (rule Uge_create.create_sound_nodiv) (use assms c in simp_all)
  then show "\<exists>b ge. getBaseExpr ctx mo = Some b \<and> UgeExpr_create p b = Some ge \<and> wf_expr ge \<and> getWidth ge = 1 \<and>
    (\<forall>\<sigma> a. eval \<sigma> p = Some a \<longrightarrow> eval \<sigma> ge = Some (bool_val (?b \<le> a)))"
    using base c by (auto elim!: createsE simp: getBaseExpr_def refines_def)
  show "\<exists>b lt. getBaseExpr ctx mo = Some b \<and> UltExpr_create p b = Some lt \<and> wf_expr lt \<and> getWidth lt = 1 \<and>
    (\<forall>\<sigma> a. eval \<sigma> p = Some a \<longrightarrow> eval \<sigma> lt = Some (bool_val (a < ?b)))"
    using Ult_eval [of p "ConstantExpr_alloc ?b ?w"] base c assms(2,3) by (auto simp: getBaseExpr_def)
qed

lemma filter_take_snoc: "P x \<Longrightarrow> filter P (take (Suc k) (x # xs)) = x # filter P (take k xs)"
  "\<not> P x \<Longrightarrow> filter P (take (Suc k) (x # xs)) = filter P (take k xs)"
  by simp_all

text \<open>What the check of one object does to the resolution list.\<close>

definition checked ::
  "constraint_manager \<Rightarrow> expr \<Rightarrow> ObjectPair \<Rightarrow> bool \<Rightarrow> ObjectPair list \<Rightarrow> nat \<Rightarrow> ObjectPair list \<Rightarrow> bool" where
  "checked cm p op may_stop rl r rl' \<longleftrightarrow>
     (rl' = rl @ (if points_to cm p op then [op] else []) \<or> rl' = rl \<and> r = 1) \<and>
     (r = 0 \<longrightarrow> rl = [] \<and> rl' = [op] \<and> (\<forall>v. may_be v (TS_query cm p) \<longrightarrow> in_object v op)) \<and>
     r \<le> 2 \<and> (r = 1 \<longrightarrow> may_stop)"

text \<open>In the order of addresses, what is below an object ends before it.\<close>

lemma points_below:
  assumes "disjoint_objects ctx as" "x \<in> bound as" "y \<in> bound as" "address (fst y) < address (fst x)"
    "\<forall>v. may_be v (TS_query cm p) \<longrightarrow> uint (address (fst x)) \<le> v"
  shows "\<not> points_to cm p y"
  using assms unfolding disjoint_objects_def points_to_def in_object_def by fastforce

lemma points_above:
  assumes "address (fst x) \<le> address (fst y)" "\<forall>v. may_be v (TS_query cm p) \<longrightarrow> v < uint (address (fst x))"
  shows "\<not> points_to cm p y"
  using assms unfolding points_to_def in_object_def word_le_def by fastforce

context timing
begin

lemma bounds_query:
  assumes "resolvable ctx cm p as" "op \<in> bound as"
  obtains inb where "getBoundsCheckPointer ctx (fst op) p = Some inb" "bool_query (TS_query cm inb)"
    "may_be 1 (TS_query cm inb) = points_to cm p op"
    "must_be 1 (TS_query cm inb) = (\<forall>v. may_be v (TS_query cm p) \<longrightarrow> in_object v op)"
proof -
  have q: "wf_query (TS_query cm p)" "getWidth p = getPointerWidth ctx" "wf_mo ctx (fst op)"
    using assms by (auto simp: resolvable_def disjoint_objects_def)
  then have "wf_expr p" by (simp add: wf_query_def)
  from getBoundsCheckPointer_ok [OF q(3) this q(2)] obtain inb where inb:
    "getBoundsCheckPointer ctx (fst op) p = Some inb" "wf_expr inb" "getWidth inb = 1"
    "\<And>\<sigma> a. eval \<sigma> p = Some a \<Longrightarrow> eval \<sigma> inb = Some (bool_val (in_object a op))"
    unfolding in_object_def by blast
  note d = derived_query [where R = "\<lambda>v. in_object v op", OF q(1) inb(2,3)]
  show ?thesis by (rule that [OF inb(1)]) (use d inb(4) in \<open>simp_all add: points_to_def\<close>)
qed

lemma base_query:
  assumes "resolvable ctx cm p as" "op \<in> bound as"
  obtains b ge lt where "getBaseExpr ctx (fst op) = Some b"
    "UgeExpr_create p b = Some ge" "bool_query (TS_query cm ge)"
    "must_be 1 (TS_query cm ge) = (\<forall>v. may_be v (TS_query cm p) \<longrightarrow> uint (address (fst op)) \<le> v)"
    "UltExpr_create p b = Some lt" "bool_query (TS_query cm lt)"
    "must_be 1 (TS_query cm lt) = (\<forall>v. may_be v (TS_query cm p) \<longrightarrow> v < uint (address (fst op)))"
proof -
  have q: "wf_query (TS_query cm p)" "getWidth p = getPointerWidth ctx" "wf_mo ctx (fst op)"
    using assms by (auto simp: resolvable_def disjoint_objects_def)
  then have wf: "wf_expr p" by (simp add: wf_query_def)
  obtain b ge where ge: "getBaseExpr ctx (fst op) = Some b" "UgeExpr_create p b = Some ge" "wf_expr ge" "getWidth ge = 1"
    "\<And>\<sigma> a. eval \<sigma> p = Some a \<Longrightarrow> eval \<sigma> ge = Some (bool_val (uint (address (fst op)) \<le> a))"
    using Uge_base_eval(1) [OF q(3) wf q(2)] by blast
  obtain lt where lt: "UltExpr_create p b = Some lt" "wf_expr lt" "getWidth lt = 1"
    "\<And>\<sigma> a. eval \<sigma> p = Some a \<Longrightarrow> eval \<sigma> lt = Some (bool_val (a < uint (address (fst op))))"
    using Uge_base_eval(2) [OF q(3) wf q(2)] ge(1) by auto
  note d = derived_query [where R = "\<lambda>v. uint (address (fst op)) \<le> v", OF q(1) ge(3,4)]
    derived_query [where R = "\<lambda>v. v < uint (address (fst op))", OF q(1) lt(2,3)]
  show ?thesis by (rule that [OF ge(1,2) _ _ lt(1)]) (use d ge(5) lt(4) in simp_all)
qed

lemma checkPointerInObject_ok:
  assumes "resolvable ctx cm p as" "op \<in> bound as" "I s"
  shows "\<exists>r rl' s'. checkPointerInObject ctx ts cm p op rl maxR s = Some (r, rl', s') \<and> I s' \<and>
    checked cm p op (mf \<or> 1 < maxR) rl r rl'"
proof -
  obtain inb where inb: "getBoundsCheckPointer ctx (fst op) p = Some inb" "bool_query (TS_query cm inb)"
    "may_be 1 (TS_query cm inb) = points_to cm p op"
    "must_be 1 (TS_query cm inb) = (\<forall>v. may_be v (TS_query cm p) \<longrightarrow> in_object v op)"
    using bounds_query [OF assms(1,2)] by metis
  obtain r s1 where r: "TS_mayBeTrue ts cm inb s = Some (r, s1)" "I s1" "r = None \<longrightarrow> mf"
    "\<forall>x. r = Some x \<longrightarrow> x = points_to cm p op"
    using TS_mayBeTrue_sound [OF assms(3) inb(2)] inb(3) unfolding delivers_def by metis
  obtain m s2 where m: "TS_mustBeTrue ts cm inb s1 = Some (m, s2)" "I s2" "m = None \<longrightarrow> mf"
    "\<forall>x. m = Some x \<longrightarrow> x = (\<forall>v. may_be v (TS_query cm p) \<longrightarrow> in_object v op)"
    using TS_mustBeTrue_sound [OF r(2) inb(2)] inb(4) unfolding delivers_def by metis
  show ?thesis
  proof (cases r)
    case None
    then show ?thesis using r inb(1) by (simp add: checkPointerInObject_def checked_def)
  next
    case (Some x)
    with r(4) have px: "x = points_to cm p op" by blast
    show ?thesis
    proof (cases x)
      case False
      then show ?thesis using r(1,2) px Some inb(1) by (simp add: checkPointerInObject_def checked_def)
    next
      case x: True
      show ?thesis
      proof (cases "rl = []")
        case True
        then show ?thesis using r(1,2) px m Some x inb(1)
          by (cases m) (simp_all add: checkPointerInObject_def Let_def checked_def)
      next
        case False
        then obtain y ys where "rl = y # ys" by (cases rl) auto
        then show ?thesis using r(1,2) px Some x inb(1) False
          by (cases "length rl + 1 = maxR") (simp_all add: checkPointerInObject_def Let_def checked_def)
      qed
    qed
  qed
qed

end

text \<open>
  What a loop over \<open>ops\<close> leaves behind: it has appended the entries of a prefix that
  the pointer may point to, of all of \<open>ops\<close> when it falls through.
\<close>

definition walked ::
  "constraint_manager \<Rightarrow> expr \<Rightarrow> bool \<Rightarrow> ObjectPair list \<Rightarrow> ObjectPair list \<Rightarrow> bool option \<Rightarrow> ObjectPair list \<Rightarrow> bool" where
  "walked cm p may_stop ops rl ret rl' \<longleftrightarrow>
     (\<exists>k. rl' = rl @ filter (points_to cm p) (take k ops)) \<and>
     (ret = None \<longrightarrow> rl' = rl @ filter (points_to cm p) ops) \<and>
     (ret = Some False \<longrightarrow> (\<exists>op \<in> set ops. rl' = [op] \<and> (\<forall>v. may_be v (TS_query cm p) \<longrightarrow> in_object v op))) \<and>
     (ret = Some True \<longrightarrow> may_stop)"

lemma walked_Nil: "walked cm p ms ops rl (Some True) rl" if ms
  using that by (auto simp: walked_def intro: exI [of _ 0])

lemma walked_stop:
  assumes "\<forall>y \<in> set ops. \<not> points_to cm p y"
  shows "walked cm p ms ops rl None rl"
  using assms by (auto simp: walked_def intro: exI [of _ 0])

lemma walked_step:
  assumes "walked cm p ms ops (rl @ (if points_to cm p op then [op] else [])) ret rl'"
  shows "walked cm p ms (op # ops) rl ret rl'"
proof -
  from assms obtain k where "rl' = rl @ (if points_to cm p op then [op] else []) @ filter (points_to cm p) (take k ops)"
    by (auto simp: walked_def)
  then have "\<exists>k. rl' = rl @ filter (points_to cm p) (take k (op # ops))" by (intro exI [of _ "Suc k"]) simp
  then show ?thesis using assms unfolding walked_def by auto
qed

lemma checked_prefix:
  assumes "checked cm p op ms rl r rl'"
  shows "\<exists>k. rl' = rl @ filter (points_to cm p) (take k (op # ops))"
proof -
  consider "rl' = rl @ (if points_to cm p op then [op] else [])" | "rl' = rl" using assms unfolding checked_def by blast
  then show ?thesis
  proof cases
    case 1
    then show ?thesis by (intro exI [of _ 1]) simp
  next
    case 2
    then show ?thesis by (intro exI [of _ 0]) simp
  qed
qed

lemma walked_check:
  assumes "checked cm p op ms rl r rl'" "r \<noteq> 2"
  shows "walked cm p (ms \<or> ms') (op # ops) rl (Some (r \<noteq> 0)) rl'"
  using checked_prefix [OF assms(1), of ops] assms by (auto simp: walked_def checked_def)

lemma walked_failed:
  assumes "checked cm p op ms rl r rl'" ms'
  shows "walked cm p ms' (op # ops) rl (Some True) rl'"
  using checked_prefix [OF assms(1), of ops] assms(2) by (simp add: walked_def)

lemma checked_on: "checked cm p op ms rl 2 rl' \<Longrightarrow> rl' = rl @ (if points_to cm p op then [op] else [])"
  by (simp add: checked_def)

context timing
begin

lemma resolve_back_ok:
  assumes "resolvable ctx cm p as" "I s" "set ops \<subseteq> bound as"
    "sorted_wrt (\<lambda>x y. address (fst y) < address (fst x)) ops"
    and ms: "ms \<longleftrightarrow> mf \<or> 1 < maxR \<or> (\<exists>n. late n)"
  shows "\<exists>ret n' rl' s'. resolve_back ctx ts cm late maxR p ops n rl s = Some (ret, n', rl', s') \<and> I s' \<and>
    walked cm p ms ops rl ret rl'"
  using assms(2-4)
proof (induction ops arbitrary: n rl s)
  case Nil
  then show ?case by (auto simp: walked_def)
next
  case (Cons op ops)
  from Cons.prems have op: "op \<in> bound as" and ops: "set ops \<subseteq> bound as"
    "sorted_wrt (\<lambda>x y. address (fst y) < address (fst x)) ops" by simp_all
  show ?case
  proof (cases "late n")
    case True
    then have "walked cm p ms (op # ops) rl (Some True) rl" using ms by (intro walked_Nil) blast
    then show ?thesis using Cons.prems(1) True by simp
  next
    case False
    obtain r rl1 s1 where r: "checkPointerInObject ctx ts cm p op rl maxR s = Some (r, rl1, s1)" "I s1" "checked cm p op (mf \<or> 1 < maxR) rl r rl1"
      using checkPointerInObject_ok [OF assms(1) op Cons.prems(1)] by blast
    obtain b ge where b: "getBaseExpr ctx (fst op) = Some b" "UgeExpr_create p b = Some ge" "bool_query (TS_query cm ge)"
      "must_be 1 (TS_query cm ge) = (\<forall>v. may_be v (TS_query cm p) \<longrightarrow> uint (address (fst op)) \<le> v)"
      using base_query [OF assms(1) op] by metis
    obtain m s2 where m: "TS_mustBeTrue ts cm ge s1 = Some (m, s2)" "I s2" "m = None \<longrightarrow> mf"
      "\<forall>x. m = Some x \<longrightarrow> x = (\<forall>v. may_be v (TS_query cm p) \<longrightarrow> uint (address (fst op)) \<le> v)"
      using TS_mustBeTrue_sound [OF r(2) b(3)] b(4) unfolding delivers_def by metis
    show ?thesis
    proof (cases "r = 2")
      case r2: False
      have "walked cm p ms (op # ops) rl (Some (r \<noteq> 0)) rl1"
        using walked_check [OF r(3) r2, of "\<exists>n. late n"] unfolding ms disj_assoc .
      then show ?thesis using r(1,2) False r2 by simp
    next
      case r2: True
      then have rl1: "rl1 = rl @ (if points_to cm p op then [op] else [])" using checked_on r(3) by blast
      show ?thesis
      proof (cases m)
        case None
        have "walked cm p ms (op # ops) rl (Some True) rl1" using m(3) None ms by (intro walked_failed [OF r(3)]) blast
        then show ?thesis using r(1) False r2 b(1,2) m None by simp
      next
        case (Some x)
        show ?thesis
        proof (cases x)
          case True
          have d: "disjoint_objects ctx as" using assms(1) by (simp add: resolvable_def)
          have "\<not> points_to cm p y" if "y \<in> set ops" for y
            by (rule points_below [OF d op]) (use that ops(1) Cons.prems(3) m(4) Some True in auto)
          then have "\<forall>y \<in> set ops. \<not> points_to cm p y" by blast
          then have "walked cm p ms (op # ops) rl None rl1" unfolding rl1 by (intro walked_step walked_stop)
          then show ?thesis using r(1) False r2 b(1,2) m(1,2) Some True by simp
        next
          case x: False
          from Cons.IH [OF m(2) ops, of "n + 1" rl1] obtain ret n' rl' s' where
            i: "resolve_back ctx ts cm late maxR p ops (n + 1) rl1 s2 = Some (ret, n', rl', s')" "I s'"
              "walked cm p ms ops rl1 ret rl'" by blast
          from i(3) have w: "walked cm p ms (op # ops) rl ret rl'" unfolding rl1 by (rule walked_step)
          have "resolve_back ctx ts cm late maxR p (op # ops) n rl s = Some (ret, n', rl', s')"
            using r(1) False r2 b(1,2) m(1) Some x i(1) by simp
          with w i(2) show ?thesis by blast
        qed
      qed
    qed
  qed
qed

lemma resolve_forward_ok:
  assumes "resolvable ctx cm p as" "I s" "set ops \<subseteq> bound as"
    "sorted_wrt (\<lambda>x y. address (fst x) < address (fst y)) ops"
    and ms: "ms \<longleftrightarrow> mf \<or> 1 < maxR \<or> (\<exists>n. late n)"
  shows "\<exists>ret n' rl' s'. resolve_forward ctx ts cm late maxR p ops n rl s = Some (ret, n', rl', s') \<and> I s' \<and>
    walked cm p ms ops rl ret rl'"
  using assms(2-4)
proof (induction ops arbitrary: n rl s)
  case Nil
  then show ?case by (auto simp: walked_def)
next
  case (Cons op ops)
  from Cons.prems have op: "op \<in> bound as" and ops: "set ops \<subseteq> bound as"
    "sorted_wrt (\<lambda>x y. address (fst x) < address (fst y)) ops" by simp_all
  show ?case
  proof (cases "late n")
    case True
    then have "walked cm p ms (op # ops) rl (Some True) rl" using ms by (intro walked_Nil) blast
    then show ?thesis using Cons.prems(1) True by simp
  next
    case False
    obtain b lt where b: "getBaseExpr ctx (fst op) = Some b" "UltExpr_create p b = Some lt" "bool_query (TS_query cm lt)"
      "must_be 1 (TS_query cm lt) = (\<forall>v. may_be v (TS_query cm p) \<longrightarrow> v < uint (address (fst op)))"
      using base_query [OF assms(1) op] by metis
    obtain m s1 where m: "TS_mustBeTrue ts cm lt s = Some (m, s1)" "I s1" "m = None \<longrightarrow> mf"
      "\<forall>x. m = Some x \<longrightarrow> x = (\<forall>v. may_be v (TS_query cm p) \<longrightarrow> v < uint (address (fst op)))"
      using TS_mustBeTrue_sound [OF Cons.prems(1) b(3)] b(4) unfolding delivers_def by metis
    obtain r rl1 s2 where r: "checkPointerInObject ctx ts cm p op rl maxR s1 = Some (r, rl1, s2)" "I s2" "checked cm p op (mf \<or> 1 < maxR) rl r rl1"
      using checkPointerInObject_ok [OF assms(1) op m(2)] by blast
    show ?thesis
    proof (cases m)
      case None
      then have "walked cm p ms (op # ops) rl (Some True) rl" using m(3) ms by (intro walked_Nil) blast
      then show ?thesis using False b(1,2) m None by simp
    next
      case (Some x)
      show ?thesis
      proof (cases x)
        case True
        then have lt: "\<forall>v. may_be v (TS_query cm p) \<longrightarrow> v < uint (address (fst op))" using m(4) Some by blast
        have "\<forall>y \<in> set (op # ops). \<not> points_to cm p y"
          using points_above [OF _ lt] Cons.prems(3) by fastforce
        then have "walked cm p ms (op # ops) rl None rl" by (rule walked_stop)
        then show ?thesis using False b(1,2) m(1,2) Some True by simp
      next
        case x: False
        show ?thesis
        proof (cases "r = 2")
          case r2: False
          have "walked cm p ms (op # ops) rl (Some (r \<noteq> 0)) rl1"
            using walked_check [OF r(3) r2, of "\<exists>n. late n"] unfolding ms disj_assoc .
          then show ?thesis using r(1,2) False r2 b(1,2) m(1) Some x by simp
        next
          case r2: True
          then have rl1: "rl1 = rl @ (if points_to cm p op then [op] else [])" using checked_on r(3) by blast
          from Cons.IH [OF r(2) ops, of "n + 1" rl1] obtain ret n' rl' s' where
            i: "resolve_forward ctx ts cm late maxR p ops (n + 1) rl1 s2 = Some (ret, n', rl', s')" "I s'"
              "walked cm p ms ops rl1 ret rl'" by blast
          from i(3) have w: "walked cm p ms (op # ops) rl ret rl'" unfolding rl1 by (rule walked_step)
          have "resolve_forward ctx ts cm late maxR p (op # ops) n rl s = Some (ret, n', rl', s')"
            using r(1) False r2 b(1,2) m(1) Some x i(1) by simp
          with w i(2) show ?thesis by blast
        qed
      qed
    qed
  qed
qed

end

text \<open>The iterator splits the entries of the map, in the order of their addresses.\<close>

lemma upper_bound_split:
  assumes "wf_map (objects as)"
  obtains oi where "MemoryMap_upper_bound k (objects as) = Some oi" "it_before oi @ it_rest oi = inorder (objects as)"
    "sorted_wrt (\<lambda>x y. address (fst y) < address (fst x)) (rev (it_before oi))"
    "sorted_wrt (\<lambda>x y. address (fst x) < address (fst y)) (it_rest oi)"
    "set (it_before oi) \<union> set (it_rest oi) = bound as" "distinct (it_before oi @ it_rest oi)"
proof -
  from mo_order.upper_bound_ok [of "objects as" k] assms obtain oi where
    oi: "MemoryMap_upper_bound k (objects as) = Some oi" "it_valid oi" "it_root oi = objects as"
    by (auto simp: MemoryMap_upper_bound_def wf_map_def)
  note io = it_before_rest [OF oi(2), unfolded oi(3)]
  have srt: "sorted_wrt (\<lambda>x y. address (fst x) < address (fst y)) (inorder (objects as))"
    using assms by (simp add: wf_map_def ordered_def sorted_wrt_map)
  have "distinct (map (\<lambda>v. address (fst v)) (inorder (objects as)))"
    using assms by (simp add: wf_map_def ordered_def strict_sorted_iff)
  then have "distinct (inorder (objects as))" by (simp add: distinct_map)
  with srt show ?thesis
    by (intro that [OF oi(1) io]) (auto simp: io [symmetric] sorted_wrt_append sorted_wrt_rev bound_def)
qed

lemma exact_object:
  assumes "disjoint_objects ctx as" "op \<in> bound as" "wf_query (TS_query cm p)"
    "\<forall>v. may_be v (TS_query cm p) \<longrightarrow> in_object v op"
  shows "{x \<in> bound as. points_to cm p x} = {op}"
  using assms may_be_exists [OF assms(3)] in_object_unique [OF assms(1)] by (fastforce simp: points_to_def)

lemma walked_exact:
  assumes "disjoint_objects ctx as" "wf_query (TS_query cm p)" "set ops \<subseteq> bound as" "walked cm p ms ops rl (Some False) rl'"
  shows "set rl' = {x \<in> bound as. points_to cm p x}"
proof -
  from assms(4) obtain op where "op \<in> set ops" "rl' = [op]" "\<forall>v. may_be v (TS_query cm p) \<longrightarrow> in_object v op"
    unfolding walked_def by blast
  with exact_object [OF assms(1) _ assms(2), of op] assms(3) show ?thesis by auto
qed

lemma resolveOne_const_ok:
  assumes "resolvable ctx cm (ConstantExpr c) as"
  shows "\<exists>r. resolveOne_const c as = Some r \<and> {x \<in> bound as. points_to cm (ConstantExpr c) x} = set_option r"
proof -
  let ?q = "TS_query cm (ConstantExpr c)"
  have q: "wf_query ?q" "getBitWidth c \<le> 64" "disjoint_objects ctx as" using assms by (auto simp: resolvable_def)
  then have c: "0 \<le> apval c" "apval c < 2 ^ getBitWidth c" by (auto simp: wf_query_def TS_query_def wf_apint_def)
  have "apval c < 2 ^ 64" using pow2_mono_less [OF c(2) q(2)] .
  with c(1) have u: "uint (word_of_int (apval c) :: 64 word) = apval c" by (simp add: uint_word_of_int)
  have mb: "may_be v ?q \<longleftrightarrow> v = apval c" for v using q(1) by (auto simp: may_be_def wf_query_def TS_query_def)
  have "{x \<in> bound as. points_to cm (ConstantExpr c) x} = set_option (resolve_address (word_of_int (apval c)) as)"
    using resolve_address_iff [OF q(3), of "word_of_int (apval c)"] unfolding u
    by (auto simp: points_to_def mb)
  then show ?thesis using q(2) by (simp add: resolveOne_const_def ConstantExpr_getZExtValue_def)
qed

context timing
begin

lemma resolve_ok:
  assumes r: "resolvable ctx cm p as" and s: "I s"
  shows "\<exists>inc rl s'. resolve ctx ts cm late maxR p as [] s = Some (inc, rl, s') \<and> I s' \<and> distinct rl \<and>
    set rl \<subseteq> {x \<in> bound as. points_to cm p x} \<and> (\<not> inc \<longrightarrow> set rl = {x \<in> bound as. points_to cm p x}) \<and>
    (inc \<longrightarrow> mf \<or> 1 < maxR \<or> (\<exists>n. late n))"
proof (cases "as_const p")
  case (Some c)
  then have p: "p = ConstantExpr c" by (cases p) auto
  obtain o1 where o1: "resolveOne_const c as = Some o1" "{x \<in> bound as. points_to cm p x} = set_option o1"
    using resolveOne_const_ok [OF r [unfolded p]] unfolding p by (elim exE conjE)
  have "resolve ctx ts cm late maxR p as [] s = Some (False, (case o1 of Some op \<Rightarrow> [op] | None \<Rightarrow> []), s)"
    using Some o1(1) by (simp add: resolve_def split: option.split)
  then show ?thesis using s unfolding o1(2) by (intro exI [of _ False]) (cases o1; simp)
next
  case None
  define ms where "ms \<longleftrightarrow> mf \<or> 1 < maxR \<or> (\<exists>n. late n)"
  have q: "wf_query (TS_query cm p)" and d: "disjoint_objects ctx as" and w: "getWidth p \<le> 64"
    using r by (auto simp: resolvable_def)
  obtain v s1 where v: "TS_getValue ts cm p s = Some (v, s1)" "I s1" "v = None \<longrightarrow> mf" "\<forall>c. v = Some c \<longrightarrow> getBitWidth c = getWidth p"
    using TS_getValue_sound [OF s q] unfolding delivers_def by blast
  show ?thesis
  proof (cases v)
    case None
    then show ?thesis using v(1-3) \<open>as_const p = None\<close> by (intro exI [of _ True]) (simp add: resolve_def)
  next
    case (Some c)
    obtain e where e: "ConstantExpr_getZExtValue c = Some e" using v(4) w Some by (simp add: ConstantExpr_getZExtValue_def)
    obtain oi where oi: "MemoryMap_upper_bound (MemoryObject_at e) (objects as) = Some oi"
      "sorted_wrt (\<lambda>x y. address (fst y) < address (fst x)) (rev (it_before oi))"
      "sorted_wrt (\<lambda>x y. address (fst x) < address (fst y)) (it_rest oi)"
      "set (it_before oi) \<union> set (it_rest oi) = bound as" "distinct (it_before oi @ it_rest oi)"
      using upper_bound_split [of as "MemoryObject_at e"] d unfolding disjoint_objects_def by metis
    let ?b = "rev (it_before oi)" and ?f = "it_rest oi"
    have sub: "set ?b \<subseteq> bound as" "set ?f \<subseteq> bound as" using oi(4) by auto
    obtain ret n rl s2 where b: "resolve_back ctx ts cm late maxR p ?b 0 [] s1 = Some (ret, n, rl, s2)" "I s2"
      "walked cm p ms ?b [] ret rl"
      using resolve_back_ok [OF r v(2) sub(1) oi(2) ms_def, of 0 "[]"] by blast
    from b(3) obtain k where k: "rl = filter (points_to cm p) (take k ?b)" by (auto simp: walked_def)
    have db: "distinct rl" using oi(5) by (simp add: k distinct_take)
    have sb: "set rl \<subseteq> {x \<in> bound as. points_to cm p x}" using oi(4) set_take_subset [of k ?b] by (auto simp: k)
    show ?thesis
    proof (cases ret)
      case ret: (Some x)
      have "\<not> x \<longrightarrow> set rl = {x \<in> bound as. points_to cm p x}"
        by (rule impI) (rule walked_exact [OF d q sub(1)], use b(3) ret in simp)
      moreover have "x \<longrightarrow> ms" using b(3) ret by (simp add: walked_def)
      moreover have "resolve ctx ts cm late maxR p as [] s = Some (x, rl, s2)"
        using None v(1) Some e oi(1) b(1) ret by (simp add: resolve_def)
      ultimately show ?thesis using b(2) db sb unfolding ms_def by blast
    next
      case ret: None
      with b(3) have rl: "rl = filter (points_to cm p) ?b" by (simp add: walked_def)
      obtain ret' n' rl' s3 where f: "resolve_forward ctx ts cm late maxR p ?f n rl s2 = Some (ret', n', rl', s3)" "I s3"
        "walked cm p ms ?f rl ret' rl'"
        using resolve_forward_ok [OF r b(2) sub(2) oi(3) ms_def, of n rl] by blast
      from f(3) obtain k' where k': "rl' = rl @ filter (points_to cm p) (take k' ?f)" by (auto simp: walked_def)
      have "distinct rl'" using oi(5) set_take_subset [of k' ?f] unfolding k' rl by (auto simp: distinct_take)
      moreover have "set rl' \<subseteq> {x \<in> bound as. points_to cm p x}"
        using sb oi(4) set_take_subset [of k' ?f] by (auto simp: k')
      moreover have "ret' \<noteq> Some True \<longrightarrow> set rl' = {x \<in> bound as. points_to cm p x}"
      proof (cases ret')
        case None
        then have "rl' = filter (points_to cm p) (?b @ ?f)" using f(3) rl by (simp add: walked_def)
        then show ?thesis using oi(4) by auto
      next
        case r': (Some x)
        then show ?thesis using walked_exact [OF d q sub(2)] f(3) by (cases x) simp_all
      qed
      moreover have "ret' = Some True \<longrightarrow> ms" using f(3) by (simp add: walked_def)
      moreover have "resolve ctx ts cm late maxR p as [] s = Some (ret' = Some True, rl', s3)"
        using None v(1) Some e oi(1) b(1) ret f(1) by (auto simp: resolve_def split: option.split)
      ultimately show ?thesis using f(2) unfolding ms_def by blast
    qed
  qed
qed

end

definition found :: "constraint_manager \<Rightarrow> expr \<Rightarrow> ObjectPair set \<Rightarrow> ObjectPair option \<Rightarrow> bool" where
  "found cm p ops r \<longleftrightarrow>
     (case r of Some op \<Rightarrow> op \<in> ops \<and> points_to cm p op | None \<Rightarrow> \<forall>op \<in> ops. \<not> points_to cm p op)"

context timing
begin

lemma resolveOne_back_ok:
  assumes "resolvable ctx cm p as" "I s" "set ops \<subseteq> bound as"
    "sorted_wrt (\<lambda>x y. address (fst y) < address (fst x)) ops"
  shows "delivers mf I (resolveOne_back ctx ts cm p ops s) (found cm p (set ops))"
  using assms(2-4)
proof (induction ops arbitrary: s)
  case Nil
  then show ?case by (simp add: found_def)
next
  case (Cons op ops)
  from Cons.prems have op: "op \<in> bound as" and ops: "set ops \<subseteq> bound as"
    "sorted_wrt (\<lambda>x y. address (fst y) < address (fst x)) ops" by simp_all
  obtain inb where inb: "getBoundsCheckPointer ctx (fst op) p = Some inb" "bool_query (TS_query cm inb)"
    "may_be 1 (TS_query cm inb) = points_to cm p op"
    using bounds_query [OF assms(1) op] by metis
  obtain b ge where b: "getBaseExpr ctx (fst op) = Some b" "UgeExpr_create p b = Some ge" "bool_query (TS_query cm ge)"
    "must_be 1 (TS_query cm ge) = (\<forall>v. may_be v (TS_query cm p) \<longrightarrow> uint (address (fst op)) \<le> v)"
    using base_query [OF assms(1) op] by metis
  have d: "disjoint_objects ctx as" using assms(1) by (simp add: resolvable_def)
  have below: "\<not> points_to cm p y" if "must_be 1 (TS_query cm ge)" "y \<in> set ops" for y
    by (rule points_below [OF d op]) (use that b(4) ops(1) Cons.prems(3) in auto)
  have ge: "(do { b \<leftarrow> getBaseExpr ctx (fst op); UgeExpr_create p b }) = Some ge" using b(1,2) by simp
  show ?case unfolding resolveOne_back.simps inb(1) ge option.case
  proof (rule delivers_call [OF TS_mayBeTrue_sound [OF Cons.prems(1) inb(2)]], unfold inb(3))
    fix x s assume x: "x = points_to cm p op" and s: "I s"
    show "delivers mf I (if x then Some (Some (Some op), s)
        else call (TS_mustBeTrue ts cm ge s) (\<lambda>mustBeTrue s.
          if mustBeTrue then Some (Some None, s) else resolveOne_back ctx ts cm p ops s)) (found cm p (set (op # ops)))"
    proof (cases x)
      case False
      with x have n: "\<not> points_to cm p op" by simp
      have "delivers mf I (call (TS_mustBeTrue ts cm ge s) (\<lambda>mustBeTrue s.
          if mustBeTrue then Some (Some None, s) else resolveOne_back ctx ts cm p ops s)) (found cm p (set (op # ops)))"
      proof (rule delivers_call [OF TS_mustBeTrue_sound [OF s b(3)]])
        fix m t assume m: "m = must_be 1 (TS_query cm ge)" and t: "I t"
        have "delivers mf I (resolveOne_back ctx ts cm p ops t) (found cm p (set (op # ops)))"
          by (rule delivers_mono [OF Cons.IH [OF t ops]]) (use n in \<open>auto simp: found_def split: option.splits\<close>)
        then show "delivers mf I (if m then Some (Some None, t) else resolveOne_back ctx ts cm p ops t) (found cm p (set (op # ops)))"
          using below m n t by (auto simp: found_def)
      qed
      with False show ?thesis by simp
    qed (use x s in \<open>simp add: found_def\<close>)
  qed
qed

lemma resolveOne_forward_ok:
  assumes "resolvable ctx cm p as" "I s" "set ops \<subseteq> bound as"
    "sorted_wrt (\<lambda>x y. address (fst x) < address (fst y)) ops"
  shows "delivers mf I (resolveOne_forward ctx ts cm p ops s) (found cm p (set ops))"
  using assms(2-4)
proof (induction ops arbitrary: s)
  case Nil
  then show ?case by (simp add: found_def)
next
  case (Cons op ops)
  from Cons.prems have op: "op \<in> bound as" and ops: "set ops \<subseteq> bound as"
    "sorted_wrt (\<lambda>x y. address (fst x) < address (fst y)) ops" by simp_all
  obtain inb where inb: "getBoundsCheckPointer ctx (fst op) p = Some inb" "bool_query (TS_query cm inb)"
    "may_be 1 (TS_query cm inb) = points_to cm p op"
    using bounds_query [OF assms(1) op] by metis
  obtain b lt where b: "getBaseExpr ctx (fst op) = Some b" "UltExpr_create p b = Some lt" "bool_query (TS_query cm lt)"
    "must_be 1 (TS_query cm lt) = (\<forall>v. may_be v (TS_query cm p) \<longrightarrow> v < uint (address (fst op)))"
    using base_query [OF assms(1) op] by metis
  have above: "\<not> points_to cm p y" if "must_be 1 (TS_query cm lt)" "y \<in> set (op # ops)" for y
    by (rule points_above [of op]) (use that b(4) Cons.prems(3) in auto)
  have lt: "(do { b \<leftarrow> getBaseExpr ctx (fst op); UltExpr_create p b }) = Some lt" using b(1,2) by simp
  show ?case unfolding resolveOne_forward.simps inb(1) lt option.case
  proof (rule delivers_call [OF TS_mustBeTrue_sound [OF Cons.prems(1) b(3)]])
    fix m s assume m: "m = must_be 1 (TS_query cm lt)" and s: "I s"
    have "delivers mf I (call (TS_mayBeTrue ts cm inb s) (\<lambda>mayBeTrue s.
        if mayBeTrue then Some (Some (Some op), s) else resolveOne_forward ctx ts cm p ops s)) (found cm p (set (op # ops)))"
    proof (rule delivers_call [OF TS_mayBeTrue_sound [OF s inb(2)]], unfold inb(3))
      fix x t assume x: "x = points_to cm p op" and t: "I t"
      have "delivers mf I (resolveOne_forward ctx ts cm p ops t) (found cm p (set (op # ops)))" if "\<not> x"
        by (rule delivers_mono [OF Cons.IH [OF t ops]]) (use x that in \<open>auto simp: found_def split: option.splits\<close>)
      then show "delivers mf I (if x then Some (Some (Some op), t) else resolveOne_forward ctx ts cm p ops t) (found cm p (set (op # ops)))"
        using x t by (auto simp: found_def)
    qed
    then show "delivers mf I (if m then Some (Some None, s) else call (TS_mayBeTrue ts cm inb s) (\<lambda>mayBeTrue s.
        if mayBeTrue then Some (Some (Some op), s) else resolveOne_forward ctx ts cm p ops s)) (found cm p (set (op # ops)))"
      using above m s by (auto simp: found_def)
  qed
qed

lemma resolveOne_ok:
  assumes r: "resolvable ctx cm p as" and s: "I s"
  shows "delivers mf I (resolveOne ctx ts cm p as s) (found cm p (bound as))"
proof (cases "as_const p")
  case (Some c)
  then have p: "p = ConstantExpr c" by (cases p) auto
  obtain o1 where o1: "resolveOne_const c as = Some o1" "{x \<in> bound as. points_to cm p x} = set_option o1"
    using resolveOne_const_ok [OF r [unfolded p]] unfolding p by (elim exE conjE)
  then show ?thesis using Some s by (cases o1) (auto simp: resolveOne_def found_def)
next
  case None
  have q: "wf_query (TS_query cm p)" and d: "disjoint_objects ctx as" and w: "getWidth p \<le> 64"
    using r by (auto simp: resolvable_def)
  show ?thesis unfolding resolveOne_def None option.case
  proof (rule delivers_call [OF TS_getValue_sound [OF s q]], elim conjE)
    fix c t assume c: "wf_apint c" "getBitWidth c = getWidth p" "may_be (apval c) (TS_query cm p)" and t: "I t"
    let ?e = "word_of_int (apval c) :: 64 word"
    have e: "ConstantExpr_getZExtValue c = Some ?e" using c(2) w by (simp add: ConstantExpr_getZExtValue_def)
    have "0 \<le> apval c" "apval c < 2 ^ getWidth p" using may_be_range [OF q c(3)] by simp_all
    moreover from this(2) w have "apval c < 2 ^ 64" by (rule pow2_mono_less)
    ultimately have u: "uint ?e = apval c" by (simp add: uint_word_of_int)
    obtain oi where oi: "MemoryMap_upper_bound (MemoryObject_at ?e) (objects as) = Some oi"
      "sorted_wrt (\<lambda>x y. address (fst y) < address (fst x)) (rev (it_before oi))"
      "sorted_wrt (\<lambda>x y. address (fst x) < address (fst y)) (it_rest oi)"
      "set (it_before oi) \<union> set (it_rest oi) = bound as"
      using upper_bound_split [of as "MemoryObject_at ?e"] d unfolding disjoint_objects_def by metis
    have sub: "set (rev (it_before oi)) \<subseteq> bound as" "set (it_rest oi) \<subseteq> bound as" using oi(4) by auto
    have "delivers mf I (call (resolveOne_back ctx ts cm p (rev (it_before oi)) t) (\<lambda>r s.
        if r \<noteq> None then Some (Some r, s) else resolveOne_forward ctx ts cm p (it_rest oi) s)) (found cm p (bound as))"
    proof (rule delivers_call [OF resolveOne_back_ok [OF r t sub(1) oi(2)]])
      fix x u assume x: "found cm p (set (rev (it_before oi))) x" and u: "I u"
      have "delivers mf I (resolveOne_forward ctx ts cm p (it_rest oi) u) (found cm p (bound as))" if "x = None"
        by (rule delivers_mono [OF resolveOne_forward_ok [OF r u sub(2) oi(3)]])
          (use x that oi(4) in \<open>auto simp: found_def split: option.splits\<close>)
      then show "delivers mf I (if x \<noteq> None then Some (Some x, u) else resolveOne_forward ctx ts cm p (it_rest oi) u)
          (found cm p (bound as))"
        using x u sub(1) by (cases x) (auto simp: found_def)
    qed
    moreover have "found cm p (bound as) (Some op)" if "resolve_address ?e as = Some op" for op
      using that c(3) unfolding resolve_address_iff [OF d] u found_def points_to_def by auto
    ultimately show "delivers mf I (do { example \<leftarrow> ConstantExpr_getZExtValue c;
               case resolve_address example as of
                 Some op \<Rightarrow> Some (Some (Some op), t)
               | None \<Rightarrow> do {
                   oi \<leftarrow> MemoryMap_upper_bound (MemoryObject_at example) (objects as);
                   call (resolveOne_back ctx ts cm p (rev (it_before oi)) t) (\<lambda>r s.
                     if r \<noteq> None then Some (Some r, s)
                     else resolveOne_forward ctx ts cm p (it_rest oi) s) } }) (found cm p (bound as))"
      using t by (cases "resolve_address ?e as") (simp_all add: e oi(1))
  qed
qed

end

text \<open>A limit of one resolution is no limit: the first pair is never compared with it.\<close>

lemma checkPointerInObject_limit_one:
  "checkPointerInObject ctx ts cm p op rl 1 s = checkPointerInObject ctx ts cm p op rl 0 s"
  by (cases rl) (auto simp: checkPointerInObject_def Let_def intro!: Option.bind_cong split: option.split bool.split)

lemma resolve_loops_limit_one:
  "resolve_back ctx ts cm late 1 p ops n rl s = resolve_back ctx ts cm late 0 p ops n rl s"
  "resolve_forward ctx ts cm late 1 p ops n rl s = resolve_forward ctx ts cm late 0 p ops n rl s"
  by (induction ops arbitrary: n rl s)
    (auto simp: checkPointerInObject_limit_one [unfolded One_nat_def] intro!: Option.bind_cong split: option.split bool.split)

lemma resolve_limit_one: "resolve ctx ts cm late 1 p as rl s = resolve ctx ts cm late 0 p as rl s"
  unfolding resolve_def resolve_loops_limit_one ..

section \<open>Copies to and from native memory\<close>

type_synonym native = "64 word \<Rightarrow> 8 word"

definition native_bytes :: "native \<Rightarrow> 64 word \<Rightarrow> nat \<Rightarrow> 8 word list" where
  "native_bytes mem a n = map (\<lambda>i. mem (a + of_nat i)) [0..<n]"

definition native_memcpy :: "64 word \<Rightarrow> 8 word list \<Rightarrow> native \<Rightarrow> native" where
  "native_memcpy a bs mem = (\<lambda>x. if unat (x - a) < length bs then bs ! unat (x - a) else mem x)"

text \<open>The copies read \<^verbatim>\<open>mo->size\<close> bytes of the store; a shorter store is read out of bounds.\<close>

definition copied_bytes :: "MemoryObject \<Rightarrow> ObjectState \<Rightarrow> 8 word list option" where
  "copied_bytes mo os =
     (if mo_size mo \<le> length (concreteStore os) then Some (take (mo_size mo) (concreteStore os)) else None)"

fun copyOut_loop :: "Heap \<Rightarrow> ObjectPair list \<Rightarrow> native \<Rightarrow> native option" where
  "copyOut_loop h [] mem = Some mem"
| "copyOut_loop h ((mo, o1) # ops) mem =
     (if \<not> isUserSpecified mo then do {
        os \<leftarrow> heap h o1;
        if \<not> readOnly os then do {
          bs \<leftarrow> copied_bytes mo os;
          copyOut_loop h ops (native_memcpy (address mo) bs mem) }
        else copyOut_loop h ops mem }
      else copyOut_loop h ops mem)"

definition copyOutConcretes :: "Heap \<Rightarrow> AddressSpace \<Rightarrow> native \<Rightarrow> native option" where
  "copyOutConcretes h as mem = copyOut_loop h (inorder (objects as)) mem"

definition copyInConcrete ::
  "MemoryObject \<Rightarrow> oid \<Rightarrow> 64 word \<Rightarrow> native \<Rightarrow> Heap \<Rightarrow> AddressSpace \<Rightarrow> (bool \<times> Heap \<times> AddressSpace) option" where
  "copyInConcrete mo o1 src_address mem h as =
     do {
       os \<leftarrow> heap h o1;
       bs \<leftarrow> copied_bytes mo os;
       let new = native_bytes mem src_address (mo_size mo) in
       if new \<noteq> bs then
         if readOnly os then Some (False, h, as)
         else do {
           (w, h, as) \<leftarrow> getWriteable mo o1 False h as;
           wos \<leftarrow> heap h w;
           Some (True, h\<lparr>heap := (heap h)(w \<mapsto>
             wos\<lparr>concreteStore := new @ drop (mo_size mo) (concreteStore wos)\<rparr>)\<rparr>, as) }
       else Some (True, h, as) }"

fun copyIn_loop :: "ObjectPair list \<Rightarrow> native \<Rightarrow> Heap \<Rightarrow> AddressSpace \<Rightarrow> (bool \<times> Heap \<times> AddressSpace) option" where
  "copyIn_loop [] mem h as = Some (True, h, as)"
| "copyIn_loop ((mo, o1) # ops) mem h as =
     (if \<not> isUserSpecified mo then do {
        (ok, h, as) \<leftarrow> copyInConcrete mo o1 (address mo) mem h as;
        if \<not> ok then Some (False, h, as) else copyIn_loop ops mem h as }
      else copyIn_loop ops mem h as)"

definition copyInConcretes :: "native \<Rightarrow> Heap \<Rightarrow> AddressSpace \<Rightarrow> (bool \<times> Heap \<times> AddressSpace) option" where
  "copyInConcretes mem h as = copyIn_loop (inorder (objects as)) mem h as"

text \<open>The native bytes of an object are those of its store.\<close>

definition mirrored :: "Heap \<Rightarrow> native \<Rightarrow> ObjectPair \<Rightarrow> bool" where
  "mirrored h mem op \<longleftrightarrow> (\<exists>os. heap h (snd op) = Some os \<and>
     copied_bytes (fst op) os = Some (native_bytes mem (address (fst op)) (mo_size (fst op))))"

lemma memcpy_inside:
  assumes "length bs < 2 ^ 64"
  shows "native_bytes (native_memcpy a bs mem) a (length bs) = bs"
proof (rule nth_equalityI)
  fix i assume "i < length (native_bytes (native_memcpy a bs mem) a (length bs))"
  then have i: "i < length bs" by (simp add: native_bytes_def)
  then have "unat (of_nat i :: 64 word) = i" using assms by (simp add: unat_of_nat)
  then show "native_bytes (native_memcpy a bs mem) a (length bs) ! i = bs ! i"
    using i by (simp add: native_bytes_def native_memcpy_def)
qed (simp add: native_bytes_def)

lemma memcpy_outside:
  assumes "uint a + int (length bs) \<le> 2 ^ 64" "uint b + int n \<le> 2 ^ 64"
    "uint a + int (length bs) \<le> uint b \<or> uint b + int n \<le> uint a"
  shows "native_bytes (native_memcpy a bs mem) b n = native_bytes mem b n"
proof -
  have "\<not> unat (b + of_nat i - a) < length bs" if i: "i < n" for i
  proof -
    have le: "uint b + int i < 2 ^ 64" using i assms(2) by linarith
    have n64: "int i < 2 ^ 64" using le uint_ge_0 [of b] by linarith
    then have "i < 2 ^ 64" by (metis of_nat_less_numeral_power_cancel_iff)
    then have "uint (of_nat i :: 64 word) = int i" by (simp add: unat_of_nat uint_nat)
    then have b: "uint (b + of_nat i) = uint b + int i" using le by (simp add: uint_word_ariths)
    have bs: "int (length bs) \<le> 2 ^ 64" using assms(1) uint_ge_0 [of a] by linarith
    have "uint (b + of_nat i - a) = (uint b + int i - uint a) mod 2 ^ 64" using b by (simp add: uint_word_ariths)
    moreover have "\<not> (uint a \<le> uint b + int i \<and> uint b + int i < uint a + int (length bs))" using assms(3) i by linarith
    then have "\<not> (uint b + int i - uint a) mod 2 ^ 64 < int (length bs)"
      using offset_in_range [of "uint b + int i" 64 "uint a" "int (length bs)"] le assms(1) by simp
    ultimately have "\<not> uint (b + of_nat i - a) < int (length bs)" by simp
    then show ?thesis unfolding unat_eq_nat_uint nat_less_iff [OF uint_ge_0] .
  qed
  then show ?thesis by (simp add: native_bytes_def native_memcpy_def)
qed

text \<open>Two objects whose bytes do not overlap.\<close>

definition apart :: "ObjectPair \<Rightarrow> ObjectPair \<Rightarrow> bool" where
  "apart x y \<longleftrightarrow> uint (address (fst x)) + int (mo_size (fst x)) \<le> uint (address (fst y)) \<or>
     uint (address (fst y)) + int (mo_size (fst y)) \<le> uint (address (fst x))"

definition stored_in :: "Heap \<Rightarrow> ObjectPair \<Rightarrow> bool" where
  "stored_in h op \<longleftrightarrow> (\<exists>os. heap h (snd op) = Some os \<and> mo_size (fst op) \<le> length (concreteStore os))"

definition read_only_in :: "Heap \<Rightarrow> ObjectPair \<Rightarrow> bool" where
  "read_only_in h op \<longleftrightarrow> (\<exists>os. heap h (snd op) = Some os \<and> readOnly os)"

definition fits :: "ObjectPair \<Rightarrow> bool" where
  "fits op \<longleftrightarrow> uint (address (fst op)) + int (mo_size (fst op)) < 2 ^ 64"

lemma fits_length: "fits op \<Longrightarrow> mo_size (fst op) < 2 ^ 64"
proof -
  assume "fits op"
  then have "int (mo_size (fst op)) < 2 ^ 64" using uint_ge_0 [of "address (fst op)"] unfolding fits_def by linarith
  then show ?thesis by (metis of_nat_less_numeral_power_cancel_iff)
qed

lemma copyOut_loop_ok:
  assumes "\<forall>op \<in> set ops. fits op \<and> stored_in h op" "sorted_wrt apart ops"
  shows "\<exists>mem'. copyOut_loop h ops mem = Some mem' \<and>
    (\<forall>op \<in> set ops. \<not> isUserSpecified (fst op) \<longrightarrow> (read_only_in h op \<longrightarrow> mirrored h mem op) \<longrightarrow> mirrored h mem' op) \<and>
    (\<forall>y. fits y \<longrightarrow> (\<forall>op \<in> set ops. apart op y) \<longrightarrow>
       native_bytes mem' (address (fst y)) (mo_size (fst y)) = native_bytes mem (address (fst y)) (mo_size (fst y)))"
  using assms
proof (induction ops arbitrary: mem)
  case (Cons op ops)
  obtain mo o1 where op: "op = (mo, o1)" by (cases op)
  obtain os where os: "heap h o1 = Some os" "mo_size mo \<le> length (concreteStore os)" "fits op"
    using Cons.prems(1) by (auto simp: stored_in_def op)
  define mem1 where "mem1 = (if \<not> isUserSpecified mo \<and> \<not> readOnly os
    then native_memcpy (address mo) (take (mo_size mo) (concreteStore os)) mem else mem)"
  have step: "copyOut_loop h (op # ops) mem = copyOut_loop h ops mem1"
    using os by (simp add: op mem1_def copied_bytes_def)
  obtain mem' where m: "copyOut_loop h ops mem1 = Some mem'"
    "\<forall>x \<in> set ops. \<not> isUserSpecified (fst x) \<longrightarrow> (read_only_in h x \<longrightarrow> mirrored h mem1 x) \<longrightarrow> mirrored h mem' x"
    "\<forall>y. fits y \<longrightarrow> (\<forall>x \<in> set ops. apart x y) \<longrightarrow>
       native_bytes mem' (address (fst y)) (mo_size (fst y)) = native_bytes mem1 (address (fst y)) (mo_size (fst y))"
    using Cons.IH [of mem1] Cons.prems by auto
  have len: "length (take (mo_size mo) (concreteStore os)) = mo_size mo" using os(2) by simp
  have out: "native_bytes mem1 (address (fst y)) (mo_size (fst y)) = native_bytes mem (address (fst y)) (mo_size (fst y))"
    if "fits y" "apart op y" for y
    unfolding mem1_def using memcpy_outside [of "address mo" "take (mo_size mo) (concreteStore os)" "address (fst y)" "mo_size (fst y)" mem]
      that os(3) len by (auto simp: fits_def apart_def op)
  have self: "mirrored h mem1 op" if "\<not> isUserSpecified mo" "read_only_in h op \<longrightarrow> mirrored h mem op"
  proof (cases "readOnly os")
    case True
    then show ?thesis using that os(1) by (simp add: mem1_def read_only_in_def op)
  next
    case False
    have "native_bytes mem1 (address mo) (mo_size mo) = take (mo_size mo) (concreteStore os)"
      using memcpy_inside [of "take (mo_size mo) (concreteStore os)" "address mo" mem] fits_length [OF os(3)] False that(1) len
      by (simp add: mem1_def op)
    then show ?thesis using os(1,2) by (simp add: mirrored_def op copied_bytes_def)
  qed
  have m1: "mirrored h mem' op" if "\<not> isUserSpecified mo" "read_only_in h op \<longrightarrow> mirrored h mem op"
  proof -
    have "\<forall>x \<in> set ops. apart x op" using Cons.prems(2) by (auto simp: apart_def)
    then have "native_bytes mem' (address (fst op)) (mo_size (fst op)) = native_bytes mem1 (address (fst op)) (mo_size (fst op))"
      using m(3) os(3) by blast
    with self [OF that] show ?thesis by (simp add: mirrored_def)
  qed
  have m2: "mirrored h mem' x" if x: "x \<in> set ops" "\<not> isUserSpecified (fst x)" "read_only_in h x \<longrightarrow> mirrored h mem x" for x
  proof -
    have "fits x" "apart op x" using Cons.prems x(1) by auto
    with out x(3) have "read_only_in h x \<longrightarrow> mirrored h mem1 x" by (simp add: mirrored_def)
    with m(2) x show ?thesis by blast
  qed
  have m3: "native_bytes mem' (address (fst y)) (mo_size (fst y)) = native_bytes mem (address (fst y)) (mo_size (fst y))"
    if y: "fits y" "\<forall>x \<in> set (op # ops). apart x y" for y
  proof -
    have "apart op y" "\<forall>x \<in> set ops. apart x y" using y(2) by simp_all
    with m(3) out [of y] y(1) show ?thesis by metis
  qed
  have m4: "\<forall>x \<in> set (op # ops). \<not> isUserSpecified (fst x) \<longrightarrow> (read_only_in h x \<longrightarrow> mirrored h mem x) \<longrightarrow> mirrored h mem' x"
    using m1 m2 by (auto simp: op)
  show ?case by (rule exI [of _ mem'], intro conjI m4 allI impI m3) (use step m(1) in simp)
qed simp

lemma copyIn_mirrored:
  assumes "\<forall>op \<in> set ops. \<not> isUserSpecified (fst op) \<longrightarrow> mirrored h mem op"
  shows "copyIn_loop ops mem h as = Some (True, h, as)"
  using assms
proof (induction ops)
  case (Cons op ops)
  then show ?case by (cases op) (auto simp: mirrored_def copyInConcrete_def)
qed simp

lemma disjoint_apart:
  assumes "disjoint_objects ctx as"
  shows "sorted_wrt apart (inorder (objects as))" "\<forall>op \<in> bound as. fits op"
proof -
  have srt: "sorted_wrt (\<lambda>x y. address (fst x) < address (fst y)) (inorder (objects as))"
    using assms by (simp add: disjoint_objects_def wf_map_def ordered_def sorted_wrt_map)
  have "apart x y" if "x \<in> bound as" "y \<in> bound as" "address (fst x) < address (fst y)" for x y
    using assms that unfolding disjoint_objects_def apart_def by blast
  then show "sorted_wrt apart (inorder (objects as))"
    by (intro sorted_wrt_mono_rel [OF _ srt]) (auto simp: bound_def)
  show "\<forall>op \<in> bound as. fits op"
  proof
    fix op assume "op \<in> bound as"
    then have "wf_mo ctx (fst op)" using assms by (simp add: disjoint_objects_def)
    then show "fits op" using pow2_mono_less [of _ "getPointerWidth ctx" 64] by (simp add: fits_def wf_mo_def)
  qed
qed

text \<open>An external call that changes no byte of the copied objects is invisible.\<close>

lemma copy_round_trip:
  assumes "disjoint_objects ctx as" "\<forall>op \<in> bound as. stored_in h op"
    "\<forall>op \<in> bound as. read_only_in h op \<longrightarrow> mirrored h mem op"
  shows "\<exists>mem'. copyOutConcretes h as mem = Some mem' \<and> copyInConcretes mem' h as = Some (True, h, as)"
proof -
  note d = disjoint_apart [OF assms(1)]
  obtain mem' where "copyOut_loop h (inorder (objects as)) mem = Some mem'"
    "\<forall>op \<in> bound as. \<not> isUserSpecified (fst op) \<longrightarrow> (read_only_in h op \<longrightarrow> mirrored h mem op) \<longrightarrow> mirrored h mem' op"
    using copyOut_loop_ok [of "inorder (objects as)" h mem] d assms(2) by (auto simp: bound_def)
  then show ?thesis using copyIn_mirrored [of "inorder (objects as)" h mem'] assms(3)
    by (auto simp: copyOutConcretes_def copyInConcretes_def bound_def)
qed

text \<open>
  The copy back changes the store and not the flush mask. A byte that is concrete
  and already flushed to the update list then has two values: the new one for a read
  at a constant offset, and the old one for a read at a symbolic offset.
\<close>

lemma copyIn_stale:
  assumes os: "heap h o1 = Some os" "wf_os os" "\<not> readOnly os" "copyOnWriteOwner os = cowKey as" "mo_size mo = os_size os"
    and byte: "i < os_size os" "isByteConcrete os i" "isByteFlushed os i" "concreteStore os ! i \<noteq> mem (src + of_nat i)"
  shows "\<exists>h' os'. copyInConcrete mo o1 src mem h as = Some (True, h', as) \<and> heap h' o1 = Some os' \<and>
    (\<forall>\<sigma>. content \<sigma> os' i = Some (uint (mem (src + of_nat i))) \<and> ul_value \<sigma> os' i = Some (uint (concreteStore os ! i))) \<and> \<not> wf_os os'"
proof -
  let ?new = "native_bytes mem src (os_size os)"
  let ?os = "os\<lparr>concreteStore := ?new\<rparr>"
  have len: "length (concreteStore os) = os_size os" using os(2) by (simp add: wf_os_def os_shape_def)
  have ni: "?new ! i = mem (src + of_nat i)" using byte(1) by (simp add: native_bytes_def)
  then have ne: "?new \<noteq> concreteStore os" using byte(4) by auto
  have eq: "copyInConcrete mo o1 src mem h as = Some (True, h\<lparr>heap := (heap h)(o1 \<mapsto> ?os)\<rparr>, as)"
    using os ne len by (simp add: copyInConcrete_def copied_bytes_def getWriteable_def)
  have c: "content \<sigma> ?os i = Some (uint (mem (src + of_nat i)))" for \<sigma>
    using byte(2) ni by (simp add: content_def isByteConcrete_def)
  have "byte_inv os i" using os(2) byte(1) by (simp add: wf_os_def)
  then have "ul_value \<sigma> os i = Some (uint (concreteStore os ! i))" for \<sigma>
    using byte(2,3) by (simp add: byte_inv_def content_def)
  then have u: "ul_value \<sigma> ?os i = Some (uint (concreteStore os ! i))" for \<sigma>
    by (simp add: ul_value_def ul_array_def cong: option.case_cong)
  have "\<not> wf_os ?os"
  proof
    assume "wf_os ?os"
    then have "byte_inv ?os i" using byte(1) by (simp add: wf_os_def)
    moreover have "isByteFlushed ?os i" using byte(3) by (simp add: isByteFlushed_def)
    ultimately have "ul_value (\<lambda>_ _. 0) ?os i = content (\<lambda>_ _. 0) ?os i" unfolding byte_inv_def by blast
    then have "uint (concreteStore os ! i) = uint (mem (src + of_nat i))" using c u by simp
    then show False using byte(4) by (simp add: word_uint_eq_iff)
  qed
  moreover have "heap (h\<lparr>heap := (heap h)(o1 \<mapsto> ?os)\<rparr>) o1 = Some ?os" by simp
  ultimately show ?thesis using eq c u
    by (intro exI [of _ "h\<lparr>heap := (heap h)(o1 \<mapsto> ?os)\<rparr>"] exI [of _ ?os] conjI allI) assumption+
qed

end
