(* ===== verification/ER_Independent.thy ===== *)
theory ER_Independent
  imports ER_Solver "HOL-Library.AList"
begin

text \<open>
  Independent element sets, \<^verbatim>\<open>lib/Expr/IndependentElementSet.cpp\<close>, by which the
  constraint manager splits the constraints into factors that share no array element,
  and the traversal \<^verbatim>\<open>findReads\<close> of \<^verbatim>\<open>ExprUtil.cpp\<close> they are built with.  A set keeps
  the elements of the arrays that are read at constant indices and the arrays that are
  read at symbolic ones.  \<open>covers\<close> is the set of elements it stands for; the lemmas show
  that an expression depends on nothing else, that \<^verbatim>\<open>add\<close> is the union, and which
  common elements \<^verbatim>\<open>intersects\<close> finds.
\<close>

section \<open>The reads of an expression\<close>

text \<open>The kids of a node, as \<^verbatim>\<open>getKid\<close> numbers them.\<close>

fun getKids :: "expr \<Rightarrow> expr list" where
  "getKids (ConstantExpr c) = []"
| "getKids (NotOptimizedExpr e) = [e]"
| "getKids (ReadExpr a us i) = [i]"
| "getKids (SelectExpr c t f) = [c, t, f]"
| "getKids (ConcatExpr l r) = [l, r]"
| "getKids (ExtractExpr e off w) = [e]"
| "getKids (ZExtExpr e w) = [e]"
| "getKids (SExtExpr e w) = [e]"
| "getKids (NotExpr e) = [e]"
| "getKids (BinaryExpr k l r) = [l, r]"

text \<open>
  The work list of \<^verbatim>\<open>findReads\<close>: an expression is pushed unless it is a constant or was
  visited before.  The head of the list is the back of the vector.  Update lists are
  remembered by their nodes, which the model compares by structure.
\<close>

type_synonym read = "array \<times> updates \<times> expr"

definition push_new :: "expr \<Rightarrow> expr list \<times> expr set \<Rightarrow> expr list \<times> expr set" where
  "push_new k st = (if as_const k = None \<and> k \<notin> snd st then (k # fst st, insert k (snd st)) else st)"

fun push_updates :: "updates \<Rightarrow> expr list \<times> expr set \<Rightarrow> expr list \<times> expr set" where
  "push_updates [] st = st"
| "push_updates ((j, v) # us) st = push_updates us (push_new v (push_new j st))"

lemma push_new_size: "sum_list (map size (fst (push_new k st))) \<le> size k + sum_list (map size (fst st))"
  by (simp add: push_new_def)

lemma push_updates_size:
  "sum_list (map size (fst (push_updates us st))) \<le> size_list (size_prod size size) us + sum_list (map size (fst st))"
proof (induction us st rule: push_updates.induct)
  case (2 j v us st)
  then show ?case using push_new_size [of v "push_new j st"] push_new_size [of j st] by simp
qed simp

lemma push_kids_size: "sum_list (map size (fst (fold push_new ks st))) \<le> sum_list (map size ks) + sum_list (map size (fst st))"
proof (induction ks arbitrary: st)
  case (Cons k ks)
  show ?case using Cons.IH [of "push_new k st"] push_new_size [of k st] by simp
qed simp

lemma kids_size: "as_const e = None \<Longrightarrow> sum_list (map size (getKids e)) < size e"
  by (cases e) auto

fun read_of :: "expr \<Rightarrow> read option" where
  "read_of (ReadExpr a us i) = Some (a, us, i)"
| "read_of _ = None"

lemma read_of_Some [simp]: "read_of e = Some (a, us, i) \<longleftrightarrow> e = ReadExpr a us i"
  by (cases e) auto

text \<open>One round of the loop: the work list, the visited expressions and the update lists after it.\<close>

definition findReads_step ::
  "bool \<Rightarrow> expr \<Rightarrow> expr list \<Rightarrow> expr set \<Rightarrow> updates set \<Rightarrow> (expr list \<times> expr set) \<times> updates set" where
  "findReads_step visitUpdates e stack visited upds =
     (case read_of e of
        Some (a, us, i) \<Rightarrow>
          (let st = push_new i (stack, visited) in
           if visitUpdates \<and> us \<notin> upds then (push_updates us st, insert us upds) else (st, upds))
      | None \<Rightarrow> (fold push_new (getKids e) (stack, visited), upds))"

lemma step_size:
  assumes "findReads_step vu e stack visited upds = ((stack', visited'), upds')"
  shows "sum_list (map size stack') + (if as_const e = None then 1 else 0) \<le> size e + sum_list (map size stack)"
proof (cases "read_of e")
  case None
  with assms push_kids_size [of "getKids e" "(stack, visited)"] kids_size [of e] show ?thesis
    by (cases "as_const e") (auto simp: findReads_step_def split: if_splits)
next
  case (Some r)
  obtain a us i where r: "r = (a, us, i)" by (cases r)
  let ?st = "push_new i (stack, visited)"
  have "sum_list (map size stack') \<le> size_list (size_prod size size) us + size i + sum_list (map size stack)"
    using assms Some r push_updates_size [of us ?st] push_new_size [of i "(stack, visited)"]
    by (auto simp: findReads_step_def Let_def split: if_splits)
  with Some r show ?thesis by simp
qed

function findReads_loop ::
  "bool \<Rightarrow> expr list \<Rightarrow> expr set \<Rightarrow> updates set \<Rightarrow> read list \<Rightarrow> read list" where
  "findReads_loop visitUpdates [] visited upds results = results"
| "findReads_loop visitUpdates (e # stack) visited upds results =
     (let ((stack', visited'), upds') = findReads_step visitUpdates e stack visited upds in
      findReads_loop visitUpdates stack' visited' upds'
        (case read_of e of Some r \<Rightarrow> results @ [r] | None \<Rightarrow> results))"
  by pat_completeness auto
termination
proof (relation "measures [\<lambda>(vu, stack, _). sum_list (map size stack), \<lambda>(vu, stack, _). length stack]", goal_cases)
  case (2 vu e stack visited upds results p q upds' stack' visited')
  then have st: "findReads_step vu e stack visited upds = ((stack', visited'), upds')" by simp
  show ?case
  proof (cases "as_const e")
    case None
    with step_size [OF st] show ?thesis by simp
  next
    case (Some c)
    with st have "stack' = stack" by (auto simp: findReads_step_def)
    with Some show ?thesis by auto
  qed
qed simp

definition findReads :: "expr \<Rightarrow> bool \<Rightarrow> read list" where
  "findReads e visitUpdates =
     (if as_const e = None then findReads_loop visitUpdates [e] {e} {} [] else [])"

text \<open>The traversal meets exactly the subexpressions, those of the update lists included.\<close>

definition operands :: "expr \<Rightarrow> expr list" where
  "operands e = (case read_of e of
     Some (a, us, i) \<Rightarrow> i # concat (map (\<lambda>(j, v). [j, v]) us) | None \<Rightarrow> getKids e)"

inductive subexpr :: "expr \<Rightarrow> expr \<Rightarrow> bool" for e where
  self: "subexpr e e"
| part: "subexpr e x \<Longrightarrow> k \<in> set (operands x) \<Longrightarrow> subexpr e k"

definition symbolic :: "expr list \<Rightarrow> expr set" where
  "symbolic ks = {k \<in> set ks. as_const k = None}"

lemma symbolic_simps [simp]: "symbolic [] = {}" "symbolic (k # ks) = (if as_const k = None then insert k (symbolic ks) else symbolic ks)"
  by (auto simp: symbolic_def)

lemma push_updates_fold: "push_updates us st = fold push_new (concat (map (\<lambda>(j, v). [j, v]) us)) st"
  by (induction us st rule: push_updates.induct) auto

lemma push_all:
  assumes "set (fst st) \<subseteq> snd st" "distinct (fst st)"
  shows "snd (fold push_new ks st) = snd st \<union> symbolic ks"
    "set (fst (fold push_new ks st)) = set (fst st) \<union> (symbolic ks - snd st)"
    "distinct (fst (fold push_new ks st))"
proof -
  have "snd (fold push_new ks st) = snd st \<union> symbolic ks \<and>
    set (fst (fold push_new ks st)) = set (fst st) \<union> (symbolic ks - snd st) \<and> distinct (fst (fold push_new ks st))"
    using assms
  proof (induction ks arbitrary: st)
    case (Cons k ks)
    have "set (fst (push_new k st)) \<subseteq> snd (push_new k st)" "distinct (fst (push_new k st))"
      using Cons.prems by (auto simp: push_new_def)
    from Cons.IH [OF this] show ?case using Cons.prems by (auto simp: push_new_def)
  qed simp
  then show "snd (fold push_new ks st) = snd st \<union> symbolic ks"
    "set (fst (fold push_new ks st)) = set (fst st) \<union> (symbolic ks - snd st)" "distinct (fst (fold push_new ks st))"
    by simp_all
qed

lemma push_visited: "symbolic ks \<subseteq> snd st \<Longrightarrow> fold push_new ks st = st"
  by (induction ks) (auto simp: push_new_def split: if_splits)

definition find_inv :: "expr \<Rightarrow> expr list \<Rightarrow> expr set \<Rightarrow> updates set \<Rightarrow> read list \<Rightarrow> bool" where
  "find_inv e stack visited upds results \<longleftrightarrow>
     distinct stack \<and> set stack \<subseteq> visited \<and> e \<in> visited \<and> (\<forall>x \<in> visited. subexpr e x \<and> as_const x = None) \<and>
     (\<forall>x \<in> visited - set stack. symbolic (operands x) \<subseteq> visited) \<and>
     (\<forall>us \<in> upds. symbolic (concat (map (\<lambda>(j, v). [j, v]) us)) \<subseteq> visited) \<and>
     set results = {r. \<exists>x \<in> visited - set stack. read_of x = Some r}"

lemma step_fold:
  assumes "\<forall>us \<in> upds. symbolic (concat (map (\<lambda>(j, v). [j, v]) us)) \<subseteq> visited"
  shows "fst (findReads_step True e stack visited upds) = fold push_new (operands e) (stack, visited)"
proof (cases "read_of e")
  case (Some r)
  obtain a us i where r: "r = (a, us, i)" by (cases r)
  show ?thesis
  proof (cases "us \<in> upds")
    case True
    have "visited \<subseteq> snd (push_new i (stack, visited))" by (auto simp: push_new_def)
    with True assms have "fold push_new (concat (map (\<lambda>(j, v). [j, v]) us)) (push_new i (stack, visited)) = push_new i (stack, visited)"
      by (intro push_visited) blast
    with True Some r show ?thesis by (simp add: findReads_step_def operands_def)
  qed (use Some r in \<open>simp add: findReads_step_def operands_def push_updates_fold\<close>)
qed (simp add: findReads_step_def operands_def)

lemma find_inv_step:
  assumes "find_inv e (x # stack) visited upds results"
    "findReads_step True x stack visited upds = ((stack', visited'), upds')"
  shows "find_inv e stack' visited' upds' (case read_of x of Some r \<Rightarrow> results @ [r] | None \<Rightarrow> results)"
proof -
  note inv = assms(1) [unfolded find_inv_def]
  have st: "(stack', visited') = fold push_new (operands x) (stack, visited)"
    using step_fold [of upds visited x stack] inv assms(2) by simp
  have p: "visited' = visited \<union> symbolic (operands x)" "set stack' = set stack \<union> (symbolic (operands x) - visited)" "distinct stack'"
    using push_all [of "(stack, visited)" "operands x"] inv unfolding st [symmetric] by auto
  have x: "x \<in> visited" "x \<notin> set stack" "subexpr e x" using inv by auto
  have sub: "\<forall>y \<in> visited'. subexpr e y \<and> as_const y = None"
    using inv x(3) unfolding p(1) by (auto simp: symbolic_def intro: subexpr.part)
  have d: "visited' - set stack' = insert x (visited - set (x # stack))" using p(1,2) x by auto
  have up: "\<forall>us \<in> upds'. symbolic (concat (map (\<lambda>(j, v). [j, v]) us)) \<subseteq> visited'"
  proof
    fix us assume "us \<in> upds'"
    then consider "us \<in> upds" | a i where "x = ReadExpr a us i"
      using assms(2) by (auto simp: findReads_step_def Let_def split: option.splits if_splits)
    then show "symbolic (concat (map (\<lambda>(j, v). [j, v]) us)) \<subseteq> visited'"
    proof cases
      case 1
      then show ?thesis using inv unfolding p(1) by blast
    next
      case 2
      then show ?thesis unfolding p(1) by (auto simp: operands_def symbolic_def)
    qed
  qed
  have res: "set (case read_of x of Some r \<Rightarrow> results @ [r] | None \<Rightarrow> results) = {r. \<exists>y \<in> visited' - set stack'. read_of y = Some r}"
    using inv unfolding d by (auto split: option.split)
  have cl: "\<forall>y \<in> visited' - set stack'. symbolic (operands y) \<subseteq> visited'"
    using inv unfolding d by (auto simp: p(1))
  show ?thesis unfolding find_inv_def using p sub cl up res inv by auto
qed

lemma findReads_loop_reads:
  "find_inv e stack visited upds results \<Longrightarrow>
   set (findReads_loop True stack visited upds results) = {r. \<exists>x. subexpr e x \<and> read_of x = Some r}"
proof (induction True stack visited upds results rule: findReads_loop.induct)
  case (1 visited upds results)
  then have cl: "\<forall>x \<in> visited. symbolic (operands x) \<subseteq> visited" and e: "e \<in> visited"
    and sub: "\<forall>x \<in> visited. subexpr e x" and res: "set results = {r. \<exists>x \<in> visited. read_of x = Some r}"
    by (simp_all add: find_inv_def)
  have "as_const x = None \<longrightarrow> x \<in> visited" if "subexpr e x" for x
    using that
  proof induction
    case (part y k)
    show ?case
    proof
      assume k: "as_const k = None"
      have "as_const y = None" using part.hyps(2) by (cases y) (auto simp: operands_def)
      with part.IH cl part.hyps(2) k show "k \<in> visited" by (auto simp: symbolic_def)
    qed
  qed (use e in simp)
  moreover have "as_const x = None" if "read_of x = Some r" for x r using that by (cases x) auto
  ultimately show ?case using sub res by auto
next
  case (2 x stack visited upds results)
  obtain stack' visited' upds' where st: "findReads_step True x stack visited upds = ((stack', visited'), upds')"
    by (metis prod.exhaust)
  from 2(1) [OF st [symmetric] refl refl find_inv_step [OF 2(2) st]] show ?case by (simp add: st)
qed

lemma findReads_set: "set (findReads e True) = {(a, us, i). subexpr e (ReadExpr a us i)}"
proof (cases "as_const e")
  case None
  then have "find_inv e [e] {e} {} []" by (auto simp: find_inv_def intro: subexpr.self)
  from findReads_loop_reads [OF this] None show ?thesis by (auto simp: findReads_def)
next
  case (Some c)
  have "x = e" if "subexpr e x" for x
    using that by induction (use Some in \<open>auto simp: operands_def\<close>)
  with Some show ?thesis by (auto simp: findReads_def)
qed

section \<open>Independent element sets\<close>

text \<open>
  The ordered sets and maps of the class are lists without repetition, whose order
  no operation depends on.  An index that does not fit 32 bits fails an assertion.
\<close>

type_synonym DenseSet = "nat list"

record IndependentElementSet =
  elements :: "(array \<times> DenseSet) list"
  wholeObjects :: "array list"
  exprs :: "expr set"

fun DenseSet_add :: "DenseSet \<Rightarrow> DenseSet \<Rightarrow> bool \<Rightarrow> bool \<times> DenseSet" where
  "DenseSet_add s [] modified = (modified, s)"
| "DenseSet_add s (x # b) modified =
     (if modified \<or> x \<notin> set s then DenseSet_add (List.insert x s) b True else DenseSet_add s b modified)"

definition DenseSet_intersects :: "DenseSet \<Rightarrow> DenseSet \<Rightarrow> bool" where
  "DenseSet_intersects s b =
     (if length s > length b then \<exists>x \<in> set b. x \<in> set s else \<exists>x \<in> set s. x \<in> set b)"

definition add_read :: "read \<Rightarrow> IndependentElementSet \<Rightarrow> IndependentElementSet option" where
  "add_read r s = (case r of (a, us, i) \<Rightarrow>
     if isConstantArray a \<and> us = [] then Some s
     else if a \<in> set (wholeObjects s) then Some s
     else case as_const i of
       Some c \<Rightarrow>
         if getBitWidth c \<le> 32
         then Some (s\<lparr>elements := AList.map_default a [nat (apval c)] (List.insert (nat (apval c))) (elements s)\<rparr>)
         else None
     | None \<Rightarrow> Some (s\<lparr>elements := AList.delete a (elements s), wholeObjects := List.insert a (wholeObjects s)\<rparr>))"

fun add_reads :: "read list \<Rightarrow> IndependentElementSet \<Rightarrow> IndependentElementSet option" where
  "add_reads [] s = Some s"
| "add_reads (r # rs) s = do { s \<leftarrow> add_read r s; add_reads rs s }"

definition IndependentElementSet_new :: "expr \<Rightarrow> IndependentElementSet option" where
  "IndependentElementSet_new e =
     add_reads (findReads e True) \<lparr>elements = [], wholeObjects = [], exprs = {e}\<rparr>"

definition meets_whole :: "array list \<Rightarrow> array list \<Rightarrow> (array \<times> DenseSet) list \<Rightarrow> bool" where
  "meets_whole smallerWholeObjects largerWholeObjects elementsWithlargerWholeObjects \<longleftrightarrow>
     (\<exists>array \<in> set smallerWholeObjects.
        array \<in> set largerWholeObjects \<or> map_of elementsWithlargerWholeObjects array \<noteq> None)"

definition meets_elements :: "(array \<times> DenseSet) list \<Rightarrow> (array \<times> DenseSet) list \<Rightarrow> array list \<Rightarrow> bool" where
  "meets_elements smallerElements largerElements wholeObjectsWithlargerElements \<longleftrightarrow>
     (\<exists>(array, dis) \<in> set smallerElements.
        array \<in> set wholeObjectsWithlargerElements \<or>
        (case map_of largerElements array of Some dis2 \<Rightarrow> DenseSet_intersects dis dis2 | None \<Rightarrow> False))"

definition intersects :: "IndependentElementSet \<Rightarrow> IndependentElementSet \<Rightarrow> bool" where
  "intersects s b =
     (if (if length (wholeObjects s) < length (wholeObjects b)
          then meets_whole (wholeObjects s) (wholeObjects b) (elements b)
          else meets_whole (wholeObjects b) (wholeObjects s) (elements s))
      then True
      else if length (elements s) < length (elements b)
      then meets_elements (elements s) (elements b) (wholeObjects b)
      else meets_elements (elements b) (elements s) (wholeObjects s))"

definition add_whole :: "array \<Rightarrow> bool \<times> IndependentElementSet \<Rightarrow> bool \<times> IndependentElementSet" where
  "add_whole array ms = (case ms of (modified, s) \<Rightarrow>
     if map_of (elements s) array \<noteq> None
     then (True, s\<lparr>elements := AList.delete array (elements s), wholeObjects := List.insert array (wholeObjects s)\<rparr>)
     else if array \<notin> set (wholeObjects s)
     then (True, s\<lparr>wholeObjects := List.insert array (wholeObjects s)\<rparr>)
     else (modified, s))"

definition add_elements :: "array \<times> DenseSet \<Rightarrow> bool \<times> IndependentElementSet \<Rightarrow> bool \<times> IndependentElementSet" where
  "add_elements x ms = (case (x, ms) of ((array, dis), (modified, s)) \<Rightarrow>
     if array \<in> set (wholeObjects s) then (modified, s)
     else case map_of (elements s) array of
       None \<Rightarrow> (True, s\<lparr>elements := AList.update array dis (elements s)\<rparr>)
     | Some dis2 \<Rightarrow>
         (case DenseSet_add dis2 dis False of (changed, dis3) \<Rightarrow>
            (modified \<or> changed, s\<lparr>elements := AList.update array dis3 (elements s)\<rparr>)))"

definition IndependentElementSet_add ::
  "IndependentElementSet \<Rightarrow> IndependentElementSet \<Rightarrow> bool \<times> IndependentElementSet" where
  "IndependentElementSet_add s b =
     fold add_elements (elements b)
       (fold add_whole (wholeObjects b) (False, s\<lparr>exprs := exprs s \<union> exprs b\<rparr>))"

text \<open>The array elements a set stands for, and its invariant.\<close>

definition footprint :: "IndependentElementSet \<Rightarrow> (array \<times> nat) set" where
  "footprint s = {(a, n). a \<in> set (wholeObjects s) \<or> (\<exists>I. map_of (elements s) a = Some I \<and> n \<in> set I)}"

definition wf_ies :: "IndependentElementSet \<Rightarrow> bool" where
  "wf_ies s \<longleftrightarrow> distinct (map fst (elements s)) \<and> distinct (wholeObjects s) \<and>
     (\<forall>a. map_of (elements s) a \<noteq> Some []) \<and> (\<forall>a \<in> set (wholeObjects s). map_of (elements s) a = None)"

lemma DenseSet_add_ok: "\<exists>t. DenseSet_add s b m = (m \<or> \<not> set b \<subseteq> set s, t) \<and> set t = set s \<union> set b"
proof (induction s b m rule: DenseSet_add.induct)
  case (2 s x b m)
  then show ?case by (cases "m \<or> x \<notin> set s") auto
qed simp

lemma DenseSet_intersects_iff [simp]: "DenseSet_intersects s b \<longleftrightarrow> set s \<inter> set b \<noteq> {}"
  by (auto simp: DenseSet_intersects_def)

lemmas alist_simps = AList.map_of_map_default AList.distinct_map_default AList.update_conv' AList.delete_conv'
  AList.distinct_update AList.distinct_delete

section \<open>What a set stands for\<close>

lemma footprint_iff [simp]:
  "(a, n) \<in> footprint s \<longleftrightarrow> a \<in> set (wholeObjects s) \<or> (\<exists>I. map_of (elements s) a = Some I \<and> n \<in> set I)"
  by (simp add: footprint_def)

definition read_elements :: "read \<Rightarrow> (array \<times> nat) set" where
  "read_elements r = (case r of (a, us, i) \<Rightarrow>
     if isConstantArray a \<and> us = [] then {}
     else case as_const i of Some c \<Rightarrow> {(a, nat (apval c))} | None \<Rightarrow> {a} \<times> UNIV)"

lemma List_insert_nonempty [simp]: "List.insert x xs \<noteq> []"
  by (auto simp: List.insert_def)

declare map_of_eq_Some_iff [simp del]

lemma add_read_spec:
  assumes "wf_ies s" "add_read r s = Some s'"
  shows "wf_ies s'" "exprs s' = exprs s" "footprint s' = footprint s \<union> read_elements r"
proof -
  obtain a us i where r: "r = (a, us, i)" by (cases r)
  have fp: "footprint s' = footprint s \<union> read_elements r"
  proof (rule set_eqI)
    fix x :: "array \<times> nat"
    show "x \<in> footprint s' \<longleftrightarrow> x \<in> footprint s \<union> read_elements r"
      using assms(2) unfolding r
      by (cases x) (auto simp: add_read_def read_elements_def alist_simps split: if_splits option.splits)
  qed
  then show "footprint s' = footprint s \<union> read_elements r" .
  show "exprs s' = exprs s"
    using assms(2) unfolding r by (auto simp: add_read_def split: if_splits option.splits)
  show "wf_ies s'"
    using assms unfolding r by (auto simp: add_read_def wf_ies_def alist_simps split: if_splits option.splits)
qed

lemma add_reads_spec:
  assumes "wf_ies s" "add_reads rs s = Some s'"
  shows "wf_ies s' \<and> exprs s' = exprs s \<and> footprint s' = footprint s \<union> (\<Union>r \<in> set rs. read_elements r)"
  using assms
proof (induction rs arbitrary: s)
  case (Cons r rs)
  then obtain t where t: "add_read r s = Some t" "add_reads rs t = Some s'" by auto
  from Cons.IH [OF add_read_spec(1) [OF Cons.prems(1) t(1)] t(2)] add_read_spec [OF Cons.prems(1) t(1)]
  show ?case by auto
qed simp

lemma new_spec:
  assumes "IndependentElementSet_new e = Some s"
  shows "wf_ies s" "exprs s = {e}"
    "footprint s = (\<Union>(a, us, i) \<in> {(a, us, i). subexpr e (ReadExpr a us i)}. read_elements (a, us, i))"
proof -
  have "wf_ies \<lparr>elements = [], wholeObjects = [], exprs = {e}\<rparr>" "footprint \<lparr>elements = [], wholeObjects = [], exprs = {e}\<rparr> = {}"
    by (simp_all add: wf_ies_def footprint_def)
  from add_reads_spec [OF this(1)] assms this(2)
  show "wf_ies s" "exprs s = {e}"
    "footprint s = (\<Union>(a, us, i) \<in> {(a, us, i). subexpr e (ReadExpr a us i)}. read_elements (a, us, i))"
    unfolding IndependentElementSet_new_def findReads_set [symmetric] by auto
qed

lemma add_reads_returns:
  assumes "\<And>a us i c. (a, us, i) \<in> set rs \<Longrightarrow> as_const i = Some c \<Longrightarrow> getBitWidth c \<le> 32"
  shows "\<exists>s'. add_reads rs s = Some s'"
  using assms
proof (induction rs arbitrary: s)
  case (Cons r rs)
  obtain a us i where r: "r = (a, us, i)" by (cases r)
  have "\<exists>t. add_read r s = Some t" using Cons.prems [of a us i] unfolding r by (auto simp: add_read_def split: option.split)
  moreover have "\<exists>s'. add_reads rs t = Some s'" for t using Cons.IH Cons.prems by fastforce
  ultimately show ?case by auto
qed simp

section \<open>Union\<close>

definition grows :: "bool \<times> IndependentElementSet \<Rightarrow> (array \<times> nat) set \<Rightarrow> bool \<times> IndependentElementSet \<Rightarrow> bool" where
  "grows ms X ms' \<longleftrightarrow> wf_ies (snd ms') \<and> exprs (snd ms') = exprs (snd ms) \<and> footprint (snd ms') = footprint (snd ms) \<union> X \<and>
     (fst ms' \<longleftrightarrow> fst ms \<or> \<not> X \<subseteq> footprint (snd ms))"

lemma add_whole_grows:
  assumes "wf_ies (snd ms)"
  shows "grows ms ({a} \<times> UNIV) (add_whole a ms)"
proof -
  obtain m s where ms: "ms = (m, s)" by (cases ms)
  have fin: "\<exists>n. n \<notin> set I" for I :: "nat list" using infinite_UNIV_nat by (metis UNIV_eq_I finite_set)
  have wf: "wf_ies (snd (add_whole a ms))"
    using assms unfolding ms by (auto simp: add_whole_def wf_ies_def alist_simps split: if_splits)
  have fp: "footprint (snd (add_whole a ms)) = footprint s \<union> {a} \<times> UNIV"
    unfolding ms by (rule set_eqI) (auto simp: add_whole_def alist_simps split: if_splits)
  have sub: "{a} \<times> UNIV \<subseteq> footprint s \<longleftrightarrow> a \<in> set (wholeObjects s)"
    using fin by (auto simp: subset_iff) (metis option.inject)
  have mod: "fst (add_whole a ms) \<longleftrightarrow> m \<or> a \<notin> set (wholeObjects s)"
    using assms unfolding ms by (auto simp: add_whole_def wf_ies_def)
  show ?thesis unfolding grows_def using wf fp sub mod
    by (simp add: ms) (simp add: add_whole_def)
qed

lemma add_elements_grows:
  assumes "wf_ies (snd ms)" "I \<noteq> []"
  shows "grows ms ({a} \<times> set I) (add_elements (a, I) ms)"
proof -
  obtain m s where ms: "ms = (m, s)" by (cases ms)
  show ?thesis
  proof (cases "a \<in> set (wholeObjects s)")
    case True
    then show ?thesis using assms unfolding ms by (auto simp: grows_def add_elements_def)
  next
    case whole: False
    show ?thesis
    proof (cases "map_of (elements s) a")
      case None
      have "footprint (s\<lparr>elements := AList.update a I (elements s)\<rparr>) = footprint s \<union> {a} \<times> set I"
        using None by (intro set_eqI) (auto simp: alist_simps split: if_splits)
      then show ?thesis using assms whole None unfolding ms
        by (auto simp: grows_def add_elements_def wf_ies_def alist_simps neq_Nil_conv split: if_splits)
    next
      case (Some J)
      obtain t where t: "DenseSet_add J I False = (\<not> set I \<subseteq> set J, t)" "set t = set J \<union> set I"
        using DenseSet_add_ok [of J I False] by auto
      then have tn: "t \<noteq> []" using assms(2) by auto
      have "footprint (s\<lparr>elements := AList.update a t (elements s)\<rparr>) = footprint s \<union> {a} \<times> set I"
        using Some t(2) by (intro set_eqI) (auto simp: alist_simps split: if_splits)
      then show ?thesis using assms whole Some t tn unfolding ms
        by (auto simp: grows_def add_elements_def wf_ies_def alist_simps split: if_splits)
    qed
  qed
qed

lemma grows_trans: "grows ms X ns \<Longrightarrow> grows ns Y os \<Longrightarrow> grows ms (X \<union> Y) os"
  by (auto simp: grows_def)

lemma add_wholes_grow: "wf_ies (snd ms) \<Longrightarrow> grows ms (set as \<times> UNIV) (fold add_whole as ms)"
proof (induction as arbitrary: ms)
  case (Cons a as)
  have g: "grows ms ({a} \<times> UNIV) (add_whole a ms)" by (rule add_whole_grows [OF Cons.prems])
  then have "grows (add_whole a ms) (set as \<times> UNIV) (fold add_whole as (add_whole a ms))"
    by (intro Cons.IH) (simp add: grows_def)
  from grows_trans [OF g this] show ?case by (simp add: Sigma_Un_distrib1 [symmetric] insert_is_Un [symmetric] del: insert_is_Un)
qed (simp add: grows_def)

lemma add_all_elements_grow:
  assumes "wf_ies (snd ms)" "\<And>a I. (a, I) \<in> set es \<Longrightarrow> I \<noteq> []"
  shows "grows ms {(a, n). \<exists>I. (a, I) \<in> set es \<and> n \<in> set I} (fold add_elements es ms)"
  using assms
proof (induction es arbitrary: ms)
  case (Cons x es)
  obtain a I where x: "x = (a, I)" by (cases x)
  have g: "grows ms ({a} \<times> set I) (add_elements x ms)" unfolding x using Cons.prems by (intro add_elements_grows) (auto simp: x)
  then have "grows (add_elements x ms) {(a, n). \<exists>I. (a, I) \<in> set es \<and> n \<in> set I} (fold add_elements es (add_elements x ms))"
    using Cons.prems(2) by (intro Cons.IH) (auto simp: grows_def)
  moreover have "{a} \<times> set I \<union> {(a, n). \<exists>I. (a, I) \<in> set es \<and> n \<in> set I} = {(a, n). \<exists>I. (a, I) \<in> set (x # es) \<and> n \<in> set I}"
    by (auto simp: x)
  ultimately show ?case using grows_trans [OF g] by fastforce
qed (simp add: grows_def)

lemma add_spec:
  assumes "wf_ies s" "wf_ies b" "IndependentElementSet_add s b = (modified, s')"
  shows "wf_ies s'" "exprs s' = exprs s \<union> exprs b" "footprint s' = footprint s \<union> footprint b"
    "modified \<longleftrightarrow> footprint s' \<noteq> footprint s"
proof -
  let ?s = "s\<lparr>exprs := exprs s \<union> exprs b\<rparr>"
  have w: "wf_ies ?s" "footprint ?s = footprint s" using assms(1) by (auto simp: wf_ies_def footprint_def)
  have g: "grows (False, ?s) (set (wholeObjects b) \<times> UNIV) (fold add_whole (wholeObjects b) (False, ?s))"
    using w(1) by (intro add_wholes_grow) simp
  have mo: "map_of (elements b) a = Some I \<longleftrightarrow> (a, I) \<in> set (elements b)" for a I
    using assms(2) by (simp add: wf_ies_def map_of_eq_Some_iff)
  have "grows (fold add_whole (wholeObjects b) (False, ?s)) {(a, n). \<exists>I. (a, I) \<in> set (elements b) \<and> n \<in> set I} (modified, s')"
    unfolding assms(3) [symmetric] IndependentElementSet_add_def
    using g assms(2) mo by (intro add_all_elements_grow) (auto simp: grows_def wf_ies_def)
  from grows_trans [OF g this]
  have "grows (False, ?s) (set (wholeObjects b) \<times> UNIV \<union> {(a, n). \<exists>I. (a, I) \<in> set (elements b) \<and> n \<in> set I}) (modified, s')" .
  moreover have "set (wholeObjects b) \<times> UNIV \<union> {(a, n). \<exists>I. (a, I) \<in> set (elements b) \<and> n \<in> set I} = footprint b"
    by (auto simp: footprint_def mo)
  ultimately have "grows (False, ?s) (footprint b) (modified, s')" by simp
  then show "wf_ies s'" "exprs s' = exprs s \<union> exprs b" "footprint s' = footprint s \<union> footprint b"
    "modified \<longleftrightarrow> footprint s' \<noteq> footprint s"
    using w(2) by (auto simp: grows_def)
qed

section \<open>Independence\<close>

text \<open>
  Two assignments that agree on the elements an expression reads give it one value.
  Constant arrays are no part of an assignment: the two agree on them, past their ends.
\<close>

lemma subexpr_trans: "subexpr y z \<Longrightarrow> subexpr x y \<Longrightarrow> subexpr x z"
  by (induction rule: subexpr.induct) (auto intro: subexpr.part)

definition same_read :: "env \<Rightarrow> env \<Rightarrow> read \<Rightarrow> bool" where
  "same_read \<sigma> \<tau> r \<longleftrightarrow> (case r of (a, us, i) \<Rightarrow>
     case as_const i of Some c \<Rightarrow> \<sigma> a (apval c) = \<tau> a (apval c) | None \<Rightarrow> \<forall>n \<ge> 0. \<sigma> a n = \<tau> a n)"

definition same_reads :: "env \<Rightarrow> env \<Rightarrow> expr \<Rightarrow> bool" where
  "same_reads \<sigma> \<tau> e \<longleftrightarrow> (\<forall>a us i. subexpr e (ReadExpr a us i) \<longrightarrow> same_read \<sigma> \<tau> (a, us, i))"

lemma same_reads_operand: "same_reads \<sigma> \<tau> e \<Longrightarrow> k \<in> set (operands e) \<Longrightarrow> same_reads \<sigma> \<tau> k"
  unfolding same_reads_def by (meson subexpr.part subexpr.self subexpr_trans)

lemma same_reads_parts:
  "same_reads \<sigma> \<tau> (NotOptimizedExpr e) \<Longrightarrow> same_reads \<sigma> \<tau> e"
  "same_reads \<sigma> \<tau> (SelectExpr c t f) \<Longrightarrow> same_reads \<sigma> \<tau> c \<and> same_reads \<sigma> \<tau> t \<and> same_reads \<sigma> \<tau> f"
  "same_reads \<sigma> \<tau> (ConcatExpr l r) \<Longrightarrow> same_reads \<sigma> \<tau> l \<and> same_reads \<sigma> \<tau> r"
  "same_reads \<sigma> \<tau> (ExtractExpr e off w) \<Longrightarrow> same_reads \<sigma> \<tau> e"
  "same_reads \<sigma> \<tau> (ZExtExpr e w) \<Longrightarrow> same_reads \<sigma> \<tau> e"
  "same_reads \<sigma> \<tau> (SExtExpr e w) \<Longrightarrow> same_reads \<sigma> \<tau> e"
  "same_reads \<sigma> \<tau> (NotExpr e) \<Longrightarrow> same_reads \<sigma> \<tau> e"
  "same_reads \<sigma> \<tau> (BinaryExpr k l r) \<Longrightarrow> same_reads \<sigma> \<tau> l \<and> same_reads \<sigma> \<tau> r"
  by (auto intro: same_reads_operand simp: operands_def)

lemma same_reads_ReadExpr:
  assumes "same_reads \<sigma> \<tau> (ReadExpr a us i)"
  shows "same_reads \<sigma> \<tau> i" "\<forall>(j, v) \<in> set us. same_reads \<sigma> \<tau> j \<and> same_reads \<sigma> \<tau> v"
proof -
  have "i \<in> set (operands (ReadExpr a us i))" "\<forall>(j, v) \<in> set us. {j, v} \<subseteq> set (operands (ReadExpr a us i))"
    by (force simp: operands_def)+
  with same_reads_operand [OF assms] show "same_reads \<sigma> \<tau> i" "\<forall>(j, v) \<in> set us. same_reads \<sigma> \<tau> j \<and> same_reads \<sigma> \<tau> v"
    by auto
qed

lemma eval_same_reads_aux:
  "wf_expr e \<Longrightarrow> same_reads \<sigma> \<tau> e \<Longrightarrow> eval \<sigma> e = eval \<tau> e"
  "wf_updates a us \<Longrightarrow> \<sigma> a n = \<tau> a n \<Longrightarrow> \<forall>(j, v) \<in> set us. same_reads \<sigma> \<tau> j \<and> same_reads \<sigma> \<tau> v \<Longrightarrow>
     eval_read \<sigma> a us n = eval_read \<tau> a us n"
proof (induction \<sigma> e and \<sigma> a us n rule: eval_eval_read.induct)
  case (3 \<sigma> a us i)
  have i: "wf_expr i" "same_reads \<sigma> \<tau> i" "\<forall>(j, v) \<in> set us. same_reads \<sigma> \<tau> j \<and> same_reads \<sigma> \<tau> v"
    using 3(3) same_reads_ReadExpr [OF 3(4)] by simp_all
  have r: "same_read \<sigma> \<tau> (a, us, i)" using 3(4) unfolding same_reads_def by (meson subexpr.self)
  have "eval_read \<sigma> a us n = eval_read \<tau> a us n" if n: "eval \<sigma> i = Some n" for n
  proof (rule 3(2) [OF n])
    show "\<sigma> a n = \<tau> a n"
      using r n eval_range(1) [OF i(1) n] by (cases "as_const i") (auto simp: same_read_def)
  qed (use 3(3) i(3) in simp_all)
  then show ?case using 3(1) [OF i(1,2)] by (auto split: option.split)
next
  case (4 \<sigma> c t f)
  with same_reads_parts(2) [OF 4(5)] show ?case by simp
next
  case (5 \<sigma> l r)
  with same_reads_parts(3) [OF 5(4)] show ?case by simp
next
  case (10 \<sigma> k l r)
  with same_reads_parts(8) [OF 10(4)] show ?case by simp
next
  case (11 \<sigma> a n)
  then show ?case by (simp add: initial_value_def)
next
  case (12 \<sigma> a j v us n)
  then show ?case by (auto split: option.splits)
next
  case (2 \<sigma> e)
  with same_reads_parts(1) [OF 2(3)] show ?case by simp
next
  case (6 \<sigma> e off w)
  with same_reads_parts(4) [OF 6(3)] show ?case by simp
next
  case (7 \<sigma> e w)
  with same_reads_parts(5) [OF 7(3)] show ?case by simp
next
  case (8 \<sigma> e w)
  with same_reads_parts(6) [OF 8(3)] show ?case by simp
next
  case (9 \<sigma> e)
  with same_reads_parts(7) [OF 9(3)] show ?case by simp
qed simp

definition same_constants :: "env \<Rightarrow> env \<Rightarrow> bool" where
  "same_constants \<sigma> \<tau> \<longleftrightarrow> (\<forall>a. isConstantArray a \<longrightarrow> \<sigma> a = \<tau> a)"

definition same_on :: "(array \<times> nat) set \<Rightarrow> env \<Rightarrow> env \<Rightarrow> bool" where
  "same_on X \<sigma> \<tau> \<longleftrightarrow> same_constants \<sigma> \<tau> \<and> (\<forall>(a, n) \<in> X. \<sigma> a (int n) = \<tau> a (int n))"

lemma wf_subexpr: "subexpr e x \<Longrightarrow> wf_expr e \<Longrightarrow> wf_expr x"
proof (induction rule: subexpr.induct)
  case (part x k)
  then show ?case by (cases x) (auto simp: operands_def wf_updates_def)
qed

lemma eval_footprint:
  assumes "wf_expr e" "IndependentElementSet_new e = Some s" "same_on (footprint s) \<sigma> \<tau>"
  shows "eval \<sigma> e = eval \<tau> e"
proof (rule eval_same_reads_aux(1) [OF assms(1)])
  have "same_read \<sigma> \<tau> (a, us, i)" if sub: "subexpr e (ReadExpr a us i)" for a us i
  proof (cases "isConstantArray a")
    case True
    then have "\<sigma> a = \<tau> a" using assms(3) by (simp add: same_on_def same_constants_def)
    then show ?thesis by (simp add: same_read_def split: option.split)
  next
    case False
    have "read_elements (a, us, i) \<subseteq> footprint s" unfolding new_spec(3) [OF assms(2)] using sub by blast
    then have eq: "\<sigma> b (int n) = \<tau> b (int n)" if "(b, n) \<in> read_elements (a, us, i)" for b n
      using assms(3) that by (auto simp: same_on_def)
    have wf: "wf_expr i" using wf_subexpr [OF sub assms(1)] by simp
    show ?thesis
    proof (cases "as_const i")
      case None
      have "\<sigma> a n = \<tau> a n" if "0 \<le> n" for n
        using eq [of a "nat n"] that None False by (simp add: read_elements_def)
      with None show ?thesis by (simp add: same_read_def)
    next
      case (Some c)
      then have "0 \<le> apval c" using wf by (simp add: wf_apint_def)
      with eq [of a "nat (apval c)"] Some False show ?thesis by (simp add: same_read_def read_elements_def)
    qed
  qed
  then show "same_reads \<sigma> \<tau> e" by (simp add: same_reads_def)
qed

text \<open>A factor: the set of one constraint, or the union of two factors.\<close>

inductive factor :: "IndependentElementSet \<Rightarrow> bool" where
  single: "wf_expr e \<Longrightarrow> IndependentElementSet_new e = Some s \<Longrightarrow> factor s"
| union: "factor s \<Longrightarrow> factor b \<Longrightarrow> IndependentElementSet_add s b = (modified, s') \<Longrightarrow> factor s'"

lemma same_on_Un [simp]: "same_on (X \<union> Y) \<sigma> \<tau> \<longleftrightarrow> same_on X \<sigma> \<tau> \<and> same_on Y \<sigma> \<tau>"
  by (auto simp: same_on_def)

lemma factor_inv:
  assumes "factor s"
  shows "wf_ies s" "e \<in> exprs s \<Longrightarrow> same_on (footprint s) \<sigma> \<tau> \<Longrightarrow> eval \<sigma> e = eval \<tau> e"
proof -
  have inv: "wf_ies s \<and> (\<forall>e \<in> exprs s. \<forall>\<sigma> \<tau>. same_on (footprint s) \<sigma> \<tau> \<longrightarrow> eval \<sigma> e = eval \<tau> e)"
    using assms
  proof induction
    case (single e s)
    show ?case unfolding new_spec(2) [OF single(2)] using new_spec(1) [OF single(2)] eval_footprint [OF single] by blast
  next
    case (union s b modified s')
    then have "wf_ies s" "wf_ies b" by simp_all
    note s' = add_spec(1-3) [OF this union.hyps(3)]
    show ?case unfolding s'(2,3) same_on_Un using s'(1) union.IH by blast
  qed
  from inv show "wf_ies s" ..
  show "eval \<sigma> e = eval \<tau> e" if "e \<in> exprs s" "same_on (footprint s) \<sigma> \<tau>"
    by (rule conjunct2 [OF inv, rule_format, OF that])
qed

lemma independent_sat:
  assumes "factor s" "factor t" "footprint s \<inter> footprint t = {}" "same_constants \<sigma> \<tau>"
    "sat \<sigma> (exprs s)" "sat \<tau> (exprs t)"
  shows "\<exists>\<rho>. sat \<rho> (exprs s \<union> exprs t)"
proof -
  let ?\<rho> = "\<lambda>a n. if (a, nat n) \<in> footprint s then \<sigma> a n else \<tau> a n"
  have c: "same_constants \<sigma> ?\<rho>" "same_constants \<tau> ?\<rho>"
    using assms(4) by (simp_all add: same_constants_def fun_eq_iff del: footprint_iff)
  have s: "same_on (footprint s) \<sigma> ?\<rho>"
    unfolding same_on_def by (intro conjI c(1) ballI) (auto simp del: footprint_iff)
  have t: "same_on (footprint t) \<tau> ?\<rho>"
    unfolding same_on_def by (intro conjI c(2) ballI) (use assms(3) in \<open>auto simp del: footprint_iff\<close>)
  have "sat ?\<rho> (exprs s \<union> exprs t)"
    unfolding sat_def
  proof
    fix c assume "c \<in> exprs s \<union> exprs t"
    then show "eval ?\<rho> c = Some 1"
    proof
      assume c: "c \<in> exprs s"
      show ?thesis unfolding factor_inv(2) [OF assms(1) c s, symmetric] using assms(5) c by (simp add: sat_def)
    next
      assume c: "c \<in> exprs t"
      show ?thesis unfolding factor_inv(2) [OF assms(2) c t, symmetric] using assms(6) c by (simp add: sat_def)
    qed
  qed
  then show ?thesis by (rule exI [of _ ?\<rho>])
qed

section \<open>Intersection\<close>

text \<open>The ways two sets can have an element in common.\<close>

definition whole_elements :: "IndependentElementSet \<Rightarrow> IndependentElementSet \<Rightarrow> bool" where
  "whole_elements s b \<longleftrightarrow> (\<exists>a \<in> set (wholeObjects s). map_of (elements b) a \<noteq> None)"

definition whole_whole :: "IndependentElementSet \<Rightarrow> IndependentElementSet \<Rightarrow> bool" where
  "whole_whole s b \<longleftrightarrow> set (wholeObjects s) \<inter> set (wholeObjects b) \<noteq> {}"

definition elements_elements :: "IndependentElementSet \<Rightarrow> IndependentElementSet \<Rightarrow> bool" where
  "elements_elements s b \<longleftrightarrow> (\<exists>(a, I) \<in> set (elements s). \<exists>(a', J) \<in> set (elements b). a = a' \<and> set I \<inter> set J \<noteq> {})"

lemmas overlap_defs = whole_elements_def whole_whole_def elements_elements_def

lemma elements_elements_sym: "elements_elements s b = elements_elements b s"
  unfolding elements_elements_def by fast

lemma Un_meets_Un: "(A \<union> B) \<inter> (C \<union> D) \<noteq> {} \<longleftrightarrow> A \<inter> C \<noteq> {} \<or> A \<inter> D \<noteq> {} \<or> C \<inter> B \<noteq> {} \<or> B \<inter> D \<noteq> {}"
  by blast

lemma overlap_iff:
  assumes "wf_ies s" "wf_ies b"
  shows "footprint s \<inter> footprint b \<noteq> {} \<longleftrightarrow>
    whole_whole s b \<or> whole_elements s b \<or> whole_elements b s \<or> elements_elements s b"
proof -
  have mem: "map_of (elements x) a = Some I \<longleftrightarrow> (a, I) \<in> set (elements x)" if "wf_ies x" for x a I
    using that by (simp add: wf_ies_def map_of_eq_Some_iff)
  have we: "(\<exists>a n. a \<in> set (wholeObjects x) \<and> (\<exists>I. map_of (elements y) a = Some I \<and> n \<in> set I)) \<longleftrightarrow> whole_elements x y"
    if "wf_ies y" for x y
  proof
    assume "whole_elements x y"
    then obtain a I where a: "a \<in> set (wholeObjects x)" "map_of (elements y) a = Some I" by (auto simp: whole_elements_def)
    with that obtain n where "n \<in> set I" by (cases I) (auto simp: wf_ies_def)
    with a show "\<exists>a n. a \<in> set (wholeObjects x) \<and> (\<exists>I. map_of (elements y) a = Some I \<and> n \<in> set I)" by blast
  qed (auto simp: whole_elements_def)
  have ee: "(\<exists>a n I J. map_of (elements s) a = Some I \<and> n \<in> set I \<and> map_of (elements b) a = Some J \<and> n \<in> set J) \<longleftrightarrow> elements_elements s b"
    unfolding mem [OF assms(1)] mem [OF assms(2)] elements_elements_def by fast
  let ?W = "\<lambda>x. set (wholeObjects x) \<times> (UNIV :: nat set)" and ?E = "\<lambda>x. {(a, n). \<exists>I. map_of (elements x) a = Some I \<and> n \<in> set I}"
  have f: "footprint x = ?W x \<union> ?E x" for x by (auto simp: footprint_def)
  have fp: "footprint s \<inter> footprint b \<noteq> {} \<longleftrightarrow> ?W s \<inter> ?W b \<noteq> {} \<or> ?W s \<inter> ?E b \<noteq> {} \<or> ?W b \<inter> ?E s \<noteq> {} \<or> ?E s \<inter> ?E b \<noteq> {}"
    unfolding f by (rule Un_meets_Un)
  have ww: "?W s \<inter> ?W b \<noteq> {} \<longleftrightarrow> whole_whole s b" by (auto simp: whole_whole_def)
  have wes: "?W x \<inter> ?E y \<noteq> {} \<longleftrightarrow> whole_elements x y" if "wf_ies y" for x y
    unfolding we [OF that, symmetric] by auto
  have ees: "?E s \<inter> ?E b \<noteq> {} \<longleftrightarrow>
      (\<exists>a n I J. map_of (elements s) a = Some I \<and> n \<in> set I \<and> map_of (elements b) a = Some J \<and> n \<in> set J)"
    by auto
  show ?thesis unfolding fp ww wes [OF assms(2)] wes [OF assms(1)] ees ee ..
qed

text \<open>The two loops, on the sets in the order in which the comparisons of the sizes put them.\<close>

lemma first_loop: "meets_whole (wholeObjects x) (wholeObjects y) (elements y) \<longleftrightarrow> whole_whole x y \<or> whole_elements x y"
  by (auto simp: meets_whole_def whole_whole_def whole_elements_def)

lemma bex_case_disj: "(\<exists>(x, y) \<in> S. P x y \<or> Q x y) \<longleftrightarrow> (\<exists>(x, y) \<in> S. P x y) \<or> (\<exists>(x, y) \<in> S. Q x y)"
  by auto

lemma second_loop:
  assumes "wf_ies x" "wf_ies y"
  shows "meets_elements (elements x) (elements y) (wholeObjects y) \<longleftrightarrow> whole_elements y x \<or> elements_elements x y"
proof -
  have mem: "map_of (elements z) a = Some I \<longleftrightarrow> (a, I) \<in> set (elements z)" if "wf_ies z" for z a I
    using that by (simp add: wf_ies_def map_of_eq_Some_iff)
  have c: "(case map_of (elements y) a of Some dis2 \<Rightarrow> DenseSet_intersects I dis2 | None \<Rightarrow> False) \<longleftrightarrow>
    (\<exists>(a', J) \<in> set (elements y). a = a' \<and> set I \<inter> set J \<noteq> {})" for a I
  proof -
    have "(\<exists>(a', J) \<in> set (elements y). a = a' \<and> set I \<inter> set J \<noteq> {}) \<longleftrightarrow> (\<exists>J. map_of (elements y) a = Some J \<and> set I \<inter> set J \<noteq> {})"
      unfolding mem [OF assms(2)] by (simp add: Bex_def)
    then show ?thesis by (simp split: option.split)
  qed
  have w: "(\<exists>(a, I) \<in> set (elements x). a \<in> set (wholeObjects y)) \<longleftrightarrow> whole_elements y x"
    unfolding whole_elements_def not_None_eq mem [OF assms(1)] by (auto simp: Bex_def)
  show ?thesis unfolding meets_elements_def c bex_case_disj w elements_elements_def ..
qed

lemma intersects_cases:
  assumes "wf_ies s" "wf_ies b"
  shows "intersects s b \<longleftrightarrow> whole_whole s b \<or> elements_elements s b \<or>
    (whole_elements s b \<and> (length (wholeObjects s) < length (wholeObjects b) \<or> \<not> length (elements s) < length (elements b))) \<or>
    (whole_elements b s \<and> (\<not> length (wholeObjects s) < length (wholeObjects b) \<or> length (elements s) < length (elements b)))"
proof -
  have ww: "whole_whole b s = whole_whole s b" by (auto simp: whole_whole_def)
  show ?thesis
    unfolding intersects_def first_loop second_loop [OF assms] second_loop [OF assms(2,1)] ww elements_elements_sym [of b s]
    by auto
qed

end
