(* ===== verification/Spec2Isabelle.thy ===== *)
theory Spec2Isabelle
  imports ER_Resolve ER_Independent
begin

text \<open>
  \<^bold>\<open>ER, a KLEE-based symbolic executor for execution reconstruction\<close>

  \<^bold>\<open>The program.\<close>  The executor (\<^verbatim>\<open>lib/Core\<close>) runs a program on symbolic input: each
  path is a state with an address space that maps memory objects to object
  states, whose bytes are constants or expressions over arrays of symbolic bytes
  (\<^verbatim>\<open>lib/Expr\<close>).  Every load, store and branch builds expressions by constructors
  that simplify as they build, and asks the solver chain (\<^verbatim>\<open>lib/Solver\<close>) about them.
  States fork, share their object states copy on write, and keep their objects in
  persistent balanced trees (\<^verbatim>\<open>include/klee/Internal/ADT\<close>).

  \<^bold>\<open>The theories\<close>, in the order in which they build on each other.

    \<^item> \<open>ER_Prelude\<close>: collections of facts and lemmas on options and lists.
    \<^item> \<open>ER_Constant\<close>: constants, \<open>apint\<close> (a width and an unsigned reading, for
      \<^verbatim>\<open>ConstantExpr::value\<close>), the methods \<^verbatim>\<open>ConstantExpr::Add\<close> to \<^verbatim>\<open>Sge\<close>
      (\<open>ConstantExpr_op\<close>), and the arithmetic meaning \<open>bv_sem\<close> of the operators,
      which they are shown to compute.
    \<^item> \<open>ER_Expr\<close>: the classes of \<^verbatim>\<open>Expr.h\<close> as the datatype \<open>expr\<close>, well-formedness (what
      the constructors assert), the value \<open>eval\<close> of an expression under an assignment
      of the arrays (\<open>None\<close>: a division by zero), and \<open>creates e r\<close>: the call
      \<open>r\<close> passes its assertions and returns an expression that may stand for \<open>e\<close>.
    \<^item> \<open>ER_ExprCreate\<close>, \<open>ER_ExprArith\<close>, \<open>ER_ExprBits\<close>: the static \<^verbatim>\<open>create\<close> functions of
      \<^verbatim>\<open>Expr.cpp\<close>, with their mutual recursion and its termination; the locale
      \<open>binary_create\<close> is the contract of a binary constructor, interpreted for all 23.
    \<^item> \<open>ER_ExprBuilder\<close>: the builders of \<^verbatim>\<open>ExprBuilder.cpp\<close>.  The locales \<open>expr_builder\<close>
      and \<open>sized_builder\<close> are their contract; the default builder satisfies it, and
      constant folding and simplification preserve it.  The recursion of a builder
      through itself is a number of rounds computed from the sizes of the operands
      (\<open>fold_rounds\<close>, \<open>simplify_rounds\<close>); the soundness theorems show that it is enough.
    \<^item> \<open>ER_Bits\<close>: the bit tricks of \<^verbatim>\<open>Bits.h\<close> and the 64-bit arithmetic of \<^verbatim>\<open>IntEvaluation.h\<close>
      on words, with the undefined cases of C++ as \<open>None\<close>.
    \<^item> \<open>ER_ArrayCache\<close>: \<^verbatim>\<open>BitArray.h\<close>, the constructor of \<^verbatim>\<open>Array\<close> and the array cache.
    \<^item> \<open>ER_Memory\<close>, \<open>ER_MemoryValues\<close>: \<^verbatim>\<open>lib/Core/Memory.cpp\<close>.  An object state keeps a
      byte as a constant, as a cached expression or in an update list, with masks
      that say where; \<open>content\<close> is the value of a byte and \<open>wf_os\<close> the invariant (with
      the invariants that a comment of \<^verbatim>\<open>Memory.cpp\<close> states).  Reads and writes of any
      width at constant and symbolic offsets are shown to be those of an array of bytes.
    \<^item> \<open>ER_ImmutableTree\<close>: the persistent AVL tree (imbalance up to two) and its iterators
      as stacks of nodes.  The locale \<open>key_order\<close> is what the tree needs of its
      comparison; it is interpreted for the order of memory objects.
    \<^item> \<open>ER_AddressSpace\<close>: \<^verbatim>\<open>lib/Core/AddressSpace.cpp\<close>.  Object states live in an explicit
      heap, as the maps share them.  \<open>sys_step\<close> interleaves the operations of
      all address spaces of a run, \<open>mem_step\<close> is the same with private memories.
    \<^item> \<open>ER_Solver\<close>: queries, the virtual methods of a solver (\<open>solver_impl\<close>), the front end
      (\<^verbatim>\<open>Solver.cpp\<close>) and the dummy, staged and caching solvers.  A method fails an
      assertion, reports failure or answers; \<open>delivers\<close> says that it answers right and keeps
      an invariant of its state, or fails where it may.  The locale \<open>sound_solver\<close> is the
      contract of a solver, \<open>complete_solver\<close> that of one which always answers; stacking is
      shown to preserve them, and they are interpreted for the stacks over the dummy
      solver and over \<open>exact_solver\<close>, the solver that answers by the meaning of the query.
    \<^item> \<open>ER_SolverQueries\<close>: the range search of the front end, the validating solver
      and the timing solver of \<^verbatim>\<open>lib/Core\<close>, whose contract is the locale \<open>timing\<close>.
    \<^item> \<open>ER_Resolve\<close>: the rest of \<^verbatim>\<open>AddressSpace.cpp\<close>: resolution of constant and symbolic
      pointers, and the copies between object states and native memory around an
      external call.
    \<^item> \<open>ER_Independent\<close>: the traversal \<^verbatim>\<open>findReads\<close> and the independent element sets
      (\<^verbatim>\<open>IndependentElementSet.cpp\<close>) by which constraints are split into factors;
      \<open>footprint\<close> is the set of array elements such a set stands for.

  \<^bold>\<open>Conventions.\<close>  A failed assertion, an abort and an index out of range are \<open>None\<close>.
  References are compared by structure, as \<^verbatim>\<open>ref<Expr>\<close> does.  The tags that ER adds to
  expressions and updates (flags, the instruction of a write) are kept in the object
  state, which the code consults, and left out of the expressions.

  \<^bold>\<open>The properties.\<close>  C1 and C7 to C12: the constructors and builders of expressions
  preserve values and end.  C2, C3 and C20: object states behave as arrays of bytes.
  C4 to C6 and C21: copy on write is invisible between address spaces.  C13 to C15: the
  persistent map.  C16 to C19: array cache, words and memory images.  C22 to C25 and C32:
  the solver stack.  C26 to C29: resolution of pointers.  C30 and C31: external calls.
  C33 to C37: independent constraints.  C29, C31, C32 and C37 state behaviour that the documentation or the intent of the
  code does not have.

  \<^bold>\<open>Parameters.\<close>  The base solver of a stack with its state; the order of \<^verbatim>\<open>Expr::compare\<close>
  that picks the canonical query, of which nothing is assumed; the iteration order of an
  unordered set of constraints; the simplification of the constraint manager, of which
  the timing solver's contract assumes that it keeps the value wherever the
  constraints hold; the clock of a resolution timeout.

  \<^bold>\<open>Not modelled.\<close>  The interpreter loop, the special functions, searchers and statistics of
  \<^verbatim>\<open>lib/Core\<close>, the passes of \<^verbatim>\<open>lib/Module\<close> and the tools are clients of LLVM or do input and
  output; the POSIX runtime talks to the host's kernel; the solver backends
  are bindings of STP, Z3 and metaSMT; the constraint manager rewrites its constraints with
  recursive visitors until nothing changes, and is a parameter of the timing solver; the allocator \<^verbatim>\<open>dlmalloc.cpp\<close> and \<^verbatim>\<open>json.hpp\<close> are
  imported libraries.  Reference counts are left out: object states and tree nodes are
  values, and only their sharing between address spaces is kept.
\<close>

section \<open>Sample inputs\<close>

text \<open>A symbolic array of four bytes, reads of it, and a context, an object and its arrays.\<close>

definition sample_array :: array where
  "sample_array = \<lparr>arr_id = 1, arr_name = ''a'', arr_size = 4, arr_domain = 32, arr_range = 8,
     constantValues = []\<rparr>"

definition sample_byte :: "int \<Rightarrow> expr" where
  "sample_byte i = ReadExpr sample_array [] (ConstantExpr_alloc i 32)"

definition sample_index :: expr where
  "sample_index = ZExtExpr (sample_byte 0) 32"

definition sample_ctx :: Context where
  "sample_ctx = \<lparr>isLittleEndian = True, getPointerWidth = 64\<rparr>"

definition sample_mo :: MemoryObject where
  "sample_mo = \<lparr>mo_id = 0, address = 4096, mo_size = 4, mo_name = ''m'', isLocal = False, isGlobal = False,
     isFixed = False, isUserSpecified = False, isDeterm = False, allocSite = 0\<rparr>"


definition sample_env :: env where
  "sample_env = (\<lambda>_ _. 2)"



section \<open>The expression constructors\<close>

text \<open>
  C1: every binary constructor of the expression language, called on well-formed
  operands of equal width (and not asked to fold a constant division by the
  constant zero), passes its assertions and returns a well-formed expression of
  the node's width that has the node's value wherever the node has one.
\<close>

theorem binary_constructors_sound:
  assumes "wf_expr (BinaryExpr k l r)"
    and "is_div k \<Longrightarrow> as_const l \<noteq> None \<Longrightarrow> \<not> Expr_isZero r"
  shows "creates (BinaryExpr k l r) (BinaryExpr_create k l r)"
  using assms by (rule BinaryExpr_create_sound)

theorem binary_constructors_sound_witness:
  "creates (BinaryExpr Add (ConstantExpr_alloc 3 8)
      (BinaryExpr Add (ConstantExpr_alloc 254 8) (sample_byte 0)))
    (BinaryExpr_create Add (ConstantExpr_alloc 3 8)
      (BinaryExpr Add (ConstantExpr_alloc 254 8) (sample_byte 0)))
   \<and> BinaryExpr_create Add (ConstantExpr_alloc 3 8)
      (BinaryExpr Add (ConstantExpr_alloc 254 8) (sample_byte 0)) =
     Some (BinaryExpr Add (ConstantExpr_alloc 1 8) (sample_byte 0))"
proof
  show "creates (BinaryExpr Add (ConstantExpr_alloc 3 8)
      (BinaryExpr Add (ConstantExpr_alloc 254 8) (sample_byte 0)))
    (BinaryExpr_create Add (ConstantExpr_alloc 3 8)
      (BinaryExpr Add (ConstantExpr_alloc 254 8) (sample_byte 0)))"
    by (rule binary_constructors_sound) code_simp+
qed code_simp

section \<open>The memory of an object\<close>





section \<open>Address spaces\<close>

text \<open>A run of one address space: an object is bound, the state forks, the parent writes the object.\<close>

definition sample_os :: ObjectState where
  "sample_os = ObjectState_base sample_mo \<lparr>ul_root = None, ul_head = []\<rparr>"

definition sample_sys0 :: System where
  "sample_sys0 = \<lparr>sys_heap = \<lparr>heap = [0 \<mapsto> sample_os\<lparr>copyOnWriteOwner := 1\<rparr>], heap_next = 1\<rparr>,
     spaces = [\<lparr>cowKey = 1, objects = MemoryMap_replace (sample_mo, 0) Terminator\<rparr>]\<rparr>"

definition sample_sys1 :: System where
  "sample_sys1 = sample_sys0\<lparr>spaces := [\<lparr>cowKey = 2, objects = MemoryMap_replace (sample_mo, 0) Terminator\<rparr>,
     \<lparr>cowKey = 2, objects = MemoryMap_replace (sample_mo, 0) Terminator\<rparr>]\<rparr>"

lemma sample_steps: "reachable sample_sys0" "sys_step 0 sample_sys0 sample_sys1"
proof -
  have "sys_step 0 sys_init sample_sys0"
    using sys_step.bind [of 0 sys_init sample_os "heap_next (sys_heap sys_init)" _ sample_mo]
    by (simp add: sys_init_def AddressSpace_new_def sample_sys0_def bindObject_def sample_os_def ObjectState_base_def)
  then show "reachable sample_sys0" using reachable.init reachable.step by blast
  have "cowKey (spaces sample_sys0 ! 0) \<noteq> - 1" by (simp add: sample_sys0_def)
  from sys_step.fork [of 0 sample_sys0, OF _ this] show "sys_step 0 sample_sys0 sample_sys1"
    by (simp add: sample_sys1_def sample_sys0_def AddressSpace_copy_def Let_def)
qed



text \<open>
  C5: no address space sees a write of another one: a step of the space \<open>i\<close>
  leaves the objects of every other space and their contents as they were.
\<close>

theorem address_spaces_isolated:
  assumes "reachable s" "sys_step i s s'" "j < length (spaces s)" "j \<noteq> i"
  shows "spaces s' ! j = spaces s ! j \<and> view (sys_heap s') (spaces s' ! j) = view (sys_heap s) (spaces s ! j)"
  using sys_step_inv(2) [OF assms(2) reachable_inv [OF assms(1)]] assms(3,4)
    others_view [OF reachable_inv [OF assms(1)] _ assms(3,4)]
  unfolding others_kept_def by blast

theorem address_spaces_isolated_witness:
  "sys_step 0 sample_sys1 (sample_sys1\<lparr>spaces := (spaces sample_sys1)[0 := unbindObject sample_mo (spaces sample_sys1 ! 0)]\<rparr>) \<and>
   view (sys_heap sample_sys1) (spaces sample_sys1 ! 1) sample_mo \<noteq> None \<and>
   view (sys_heap sample_sys1) ((spaces sample_sys1)[0 := unbindObject sample_mo (spaces sample_sys1 ! 0)] ! 1) =
   view (sys_heap sample_sys1) (spaces sample_sys1 ! 1)"
proof -
  have l: "length (spaces sample_sys1) = 2" by (simp add: sample_sys1_def)
  have st: "sys_step 0 sample_sys1 (sample_sys1\<lparr>spaces := (spaces sample_sys1)[0 := unbindObject sample_mo (spaces sample_sys1 ! 0)]\<rparr>)"
    by (rule sys_step.unbind) (simp add: l)
  have "reachable sample_sys1" using sample_steps reachable.step by blast
  from address_spaces_isolated [OF this st, of 1] l st show ?thesis
    by (simp add: view_def sample_sys1_def sample_sys0_def map_lookup_replace)
qed

text \<open>
  C6: the invariant that the copy-on-write scheme rests on holds in every
  reachable state: every map is an ordered balanced tree, every bound object is
  allocated and owned by an epoch not later than the space's, and an object that
  two spaces share belongs to an epoch before both.
\<close>

theorem copy_on_write_invariant:
  assumes "reachable s"
  shows "\<forall>i < length (spaces s). wf_map (objects (spaces s ! i)) \<and>
      (\<forall>mo o1. (mo, o1) \<in> bound (spaces s ! i) \<longrightarrow>
        (\<exists>os. heap (sys_heap s) o1 = Some os \<and> 0 < copyOnWriteOwner os \<and> copyOnWriteOwner os \<le> cowKey (spaces s ! i) \<and>
          (\<forall>j < length (spaces s). j \<noteq> i \<longrightarrow> o1 \<in> snd ` bound (spaces s ! j) \<longrightarrow>
             copyOnWriteOwner os < cowKey (spaces s ! i) \<and> copyOnWriteOwner os < cowKey (spaces s ! j))))"
proof (intro allI impI conjI)
  fix i assume i: "i < length (spaces s)"
  have inv: "sys_inv s" by (rule reachable_inv [OF assms])
  have ok: "space_ok (sys_heap s) (spaces s ! i)" using inv i by (simp add: sys_inv_def)
  then show "wf_map (objects (spaces s ! i))" by (simp add: space_ok_def)
  fix mo o1 assume o1: "(mo, o1) \<in> bound (spaces s ! i)"
  obtain os where os: "heap (sys_heap s) o1 = Some os" "0 < copyOnWriteOwner os" "copyOnWriteOwner os \<le> cowKey (spaces s ! i)"
    by (rule space_okD [OF ok o1])
  have "copyOnWriteOwner os < cowKey (spaces s ! i) \<and> copyOnWriteOwner os < cowKey (spaces s ! j)"
    if j: "j < length (spaces s)" "j \<noteq> i" "o1 \<in> snd ` bound (spaces s ! j)" for j
  proof -
    have "shared_ok (sys_heap s) (spaces s ! i) (spaces s ! j)" using inv i j by (simp add: sys_inv_def)
    moreover obtain mo' where "(mo', o1) \<in> bound (spaces s ! j)" using j(3) by auto
    ultimately show ?thesis using shared_okD [OF _ o1 _ os(1)] by blast
  qed
  with os show "\<exists>os. heap (sys_heap s) o1 = Some os \<and> 0 < copyOnWriteOwner os \<and> copyOnWriteOwner os \<le> cowKey (spaces s ! i) \<and>
      (\<forall>j < length (spaces s). j \<noteq> i \<longrightarrow> o1 \<in> snd ` bound (spaces s ! j) \<longrightarrow>
         copyOnWriteOwner os < cowKey (spaces s ! i) \<and> copyOnWriteOwner os < cowKey (spaces s ! j))" by blast
qed

theorem copy_on_write_invariant_witness:
  "length (spaces sample_sys0) = 1 \<and> wf_map (objects (spaces sample_sys0 ! 0))"
  using copy_on_write_invariant [OF sample_steps(1)] by (simp add: sample_sys0_def)

section \<open>The expression builders\<close>

text \<open>
  C7: the simplifying builder over the constant-folding builder over the default
  one, the stack that the tools construct, builds for every kind of binary node a
  well-formed expression of the node's width with the node's value wherever the
  node has one; its recursion through itself ends.
\<close>

theorem simplifying_builder_sound:
  assumes "wf_expr (BinaryExpr k l r)"
    and "is_div k \<Longrightarrow> as_const l \<noteq> None \<Longrightarrow> \<not> Expr_isZero r"
  shows "creates (BinaryExpr k l r)
    (b_Binary (SimplifyingExprBuilder (ConstantFoldingExprBuilder DefaultExprBuilder)) k l r)"
  using assms by (rule simplifying_builder.Binary_sound)

theorem simplifying_builder_sound_witness:
  "creates (BinaryExpr Ne (sample_byte 0) (sample_byte 1))
    (b_Binary (SimplifyingExprBuilder (ConstantFoldingExprBuilder DefaultExprBuilder)) Ne (sample_byte 0) (sample_byte 1))"
  by (rule simplifying_builder_sound) code_simp+



section \<open>The other constructors\<close>

text \<open>
  C9: \<open>ExtractExpr_create\<close>, which pushes an extraction through concatenations,
  casts and other extractions and calls \<open>ConcatExpr_create\<close> back, ends on every
  well-formed extraction and returns an expression with its width and value.
\<close>

theorem extract_sound:
  assumes "wf_expr (ExtractExpr e off w)"
  shows "\<exists>e'. ExtractExpr_create e off w = Some e' \<and> wf_expr e' \<and> getWidth e' = w \<and>
    (\<forall>\<sigma> v. eval \<sigma> e = Some v \<longrightarrow> eval \<sigma> e' = Some (v div 2 ^ off mod 2 ^ w))"
  using ExtractExpr_create_sound [OF assms] by (auto simp: creates_def refines_def)

theorem extract_sound_witness:
  "ExtractExpr_create (ConcatExpr (sample_byte 1) (sample_byte 0)) 4 8 =
     Some (ConcatExpr (ExtractExpr (sample_byte 1) 0 4) (ExtractExpr (sample_byte 0) 4 4)) \<and>
   eval sample_env (ConcatExpr (ExtractExpr (sample_byte 1) 0 4) (ExtractExpr (sample_byte 0) 4 4)) = Some 32"
proof -
  have "wf_expr (ExtractExpr (ConcatExpr (sample_byte 1) (sample_byte 0)) 4 8)"
    "eval sample_env (ConcatExpr (sample_byte 1) (sample_byte 0)) = Some 514"
    "ExtractExpr_create (ConcatExpr (sample_byte 1) (sample_byte 0)) 4 8 =
     Some (ConcatExpr (ExtractExpr (sample_byte 1) 0 4) (ExtractExpr (sample_byte 0) 4 4))" by code_simp+
  with extract_sound [OF this(1)] show ?thesis by (auto simp del: eval.simps)
qed

text \<open>
  C10: \<open>ReadExpr_create\<close> looks for the newest update at the index, drops the
  updates at other constant indices and reads constant arrays at constant indices;
  the expression it returns has the value of the read under every assignment.
\<close>

theorem read_sound:
  assumes "wf_expr (ReadExpr a us idx)"
  shows "creates (ReadExpr a us idx) (ReadExpr_create a us idx)"
  by (rule ReadExpr_create_sound [OF assms])

theorem read_sound_witness:
  "creates (ReadExpr sample_array [(ConstantExpr_alloc 1 32, sample_byte 3), (ConstantExpr_alloc 2 32, ConstantExpr_alloc 9 8)] (ConstantExpr_alloc 2 32))
     (ReadExpr_create sample_array [(ConstantExpr_alloc 1 32, sample_byte 3), (ConstantExpr_alloc 2 32, ConstantExpr_alloc 9 8)] (ConstantExpr_alloc 2 32)) \<and>
   ReadExpr_create sample_array [(ConstantExpr_alloc 1 32, sample_byte 3), (ConstantExpr_alloc 2 32, ConstantExpr_alloc 9 8)] (ConstantExpr_alloc 2 32) =
     Some (ConstantExpr_alloc 9 8)"
proof
  show "creates (ReadExpr sample_array [(ConstantExpr_alloc 1 32, sample_byte 3), (ConstantExpr_alloc 2 32, ConstantExpr_alloc 9 8)] (ConstantExpr_alloc 2 32))
     (ReadExpr_create sample_array [(ConstantExpr_alloc 1 32, sample_byte 3), (ConstantExpr_alloc 2 32, ConstantExpr_alloc 9 8)] (ConstantExpr_alloc 2 32))"
    by (rule read_sound) code_simp
qed code_simp

text \<open>
  C11: \<open>SelectExpr_create\<close> preserves the value of a selection: a constant
  condition, equal arms and boolean arms that are constants are simplified.
\<close>

theorem select_sound:
  assumes "wf_expr (SelectExpr c t f)"
  shows "creates (SelectExpr c t f) (SelectExpr_create c t f)"
  by (rule SelectExpr_create_sound [OF assms])

theorem select_sound_witness:
  "creates (SelectExpr (BinaryExpr Eq (sample_byte 0) (sample_byte 1)) (ConstantExpr_alloc 1 1) (BinaryExpr Ult (sample_byte 0) (sample_byte 2)))
     (SelectExpr_create (BinaryExpr Eq (sample_byte 0) (sample_byte 1)) (ConstantExpr_alloc 1 1) (BinaryExpr Ult (sample_byte 0) (sample_byte 2)))"
  by (rule select_sound) code_simp

text \<open>
  C12: \<open>createTempRead\<close>, by which a symbolic object is read as one value, builds
  for the widths 1, 8, 16, 32 and 64 the little-endian value of the first bytes of
  the array.
\<close>

theorem temp_read_little_endian:
  assumes "wf_array a" "arr_domain a = 32" "arr_range a = 8" "w \<in> {1, 8, 16, 32, 64}"
  shows "\<exists>e. createTempRead a w = Some e \<and> wf_expr e \<and> getWidth e = w \<and>
    (\<forall>\<sigma>. eval \<sigma> e = Some (le_bytes (initial_value \<sigma> a) (max 1 (w div 8)) mod 2 ^ w))"
  by (rule createTempRead_sound [OF assms])

theorem temp_read_little_endian_witness:
  "\<exists>e. createTempRead sample_array 32 = Some e \<and> eval sample_env e = Some 0x2020202"
proof -
  have "wf_array sample_array" "arr_domain sample_array = 32" "arr_range sample_array = 8" by code_simp+
  from temp_read_little_endian [OF this, of 32] obtain e where
    "createTempRead sample_array 32 = Some e" "eval sample_env e = Some (le_bytes (initial_value sample_env sample_array) 4 mod 2 ^ 32)"
    by auto
  moreover have "le_bytes (initial_value sample_env sample_array) 4 mod 2 ^ 32 = 0x2020202" by code_simp
  ultimately show ?thesis by simp
qed

section \<open>The map of memory objects\<close>

text \<open>
  C13: the map of an address space behaves as a map keyed by addresses: after a
  replacement or a removal a lookup finds what it should, and the tree stays
  ordered and balanced.
\<close>

theorem memory_map_correct:
  assumes "wf_map t"
  shows "wf_map (MemoryMap_replace v t) \<and> wf_map (MemoryMap_remove mo t) \<and>
    MemoryMap_lookup k (MemoryMap_replace v t) = (if address k = address (fst v) then Some v else MemoryMap_lookup k t) \<and>
    MemoryMap_lookup k (MemoryMap_remove mo t) = (if address k = address mo then None else MemoryMap_lookup k t)"
  using assms by (simp add: wf_map_replace wf_map_remove map_lookup_replace map_lookup_remove)

theorem memory_map_correct_witness:
  "MemoryMap_lookup sample_mo (MemoryMap_replace (sample_mo\<lparr>address := 8192\<rparr>, 1::nat) (MemoryMap_replace (sample_mo, 0) Terminator)) =
     Some (sample_mo, 0)"
proof -
  have "wf_map (MemoryMap_replace (sample_mo, 0::nat) Terminator)" by (simp add: wf_map_replace)
  from memory_map_correct [OF this, of "(sample_mo\<lparr>address := 8192\<rparr>, 1)" _ sample_mo]
    memory_map_correct [of Terminator "(sample_mo, 0::nat)" _ sample_mo]
  show ?thesis by (simp add: sample_mo_def)
qed



text \<open>
  C15: the iterator over a map visits, from \<^verbatim>\<open>begin\<close> by \<^verbatim>\<open>++\<close>, exactly the entries of
  the map in the order of their addresses, and ends.
\<close>

theorem iteration_complete:
  assumes "wf_map t"
  shows "\<exists>it. it_begin t = Some it \<and> it_collect (itree_size t) it = Some (inorder t) \<and>
    sorted (map (\<lambda>v. address (fst v)) (inorder t)) \<and> distinct (inorder t)"
proof -
  have t: "balanced t" "ordered (\<lambda>v. address (fst v)) t" using assms by (simp_all add: wf_map_def)
  have s: "sorted_wrt (<) (map (\<lambda>v. address (fst v)) (inorder t))" using t(2) by (simp add: ordered_def)
  obtain it where it: "it_begin t = Some it" "it_valid it" "it_root it = t" "it_rest it = inorder t" using it_begin_ok [OF t(1)] by blast
  have "it_collect (itree_size t) it = Some (it_rest it)"
    by (rule it_collect_rest) (use it t ordered_no_twins [OF t(2)] in \<open>simp_all add: itree_size_inorder\<close>)
  with it s show ?thesis by (auto simp: strict_sorted_iff distinct_map)
qed

theorem iteration_complete_witness:
  "\<exists>it. it_begin (MemoryMap_replace (sample_mo\<lparr>address := 8\<rparr>, 1::nat) (MemoryMap_replace (sample_mo, 0) Terminator)) = Some it \<and>
     it_collect 2 it = Some [(sample_mo\<lparr>address := 8\<rparr>, 1), (sample_mo, 0)]"
proof -
  let ?t = "MemoryMap_replace (sample_mo\<lparr>address := 8\<rparr>, 1::nat) (MemoryMap_replace (sample_mo, 0) Terminator)"
  have "wf_map ?t" by (simp add: wf_map_replace)
  moreover have "inorder ?t = [(sample_mo\<lparr>address := 8\<rparr>, 1), (sample_mo, 0)]" "itree_size ?t = 2" by code_simp+
  ultimately show ?thesis using iteration_complete [of ?t] by auto
qed

section \<open>Arrays, machine integers and memory images\<close>

text \<open>
  C16: the array cache hands out one array per name and size: creating a symbolic
  array keeps the cache well formed (distinct arrays, no two equivalent ones),
  returns a cached array when there is one, and creating it again, with whatever
  domain and range, returns the very same array.
\<close>

theorem array_cache_interns:
  assumes "wf_ArrayCache ac" "CreateArray ac n sz [] d r = Some (a, ac')"
  shows "wf_ArrayCache ac' \<and> arr_name a = n \<and> arr_size a = sz mod 2 ^ 32 \<and>
    (\<forall>b \<in> set (cachedSymbolicArrays ac). arr_name b = n \<and> arr_size b = sz mod 2 ^ 32 \<longrightarrow> a = b) \<and>
    map_option fst (CreateArray ac' n sz [] d' r') = Some a"
proof -
  note wf = CreateArray_wf [OF assms]
  have "a \<in> set (cachedSymbolicArrays ac')"
    using assms(2) unfolding CreateArray_symbolic by (auto simp: Let_def find_Some_iff split: option.splits if_splits)
  from CreateArray_cached [OF wf(1) this wf(3,4), of d' r'] have again: "map_option fst (CreateArray ac' n sz [] d' r') = Some a" by simp
  have "a = b" if "b \<in> set (cachedSymbolicArrays ac)" "arr_name b = n" "arr_size b = sz mod 2 ^ 32" for b
    using CreateArray_cached [OF assms(1) that, of d r] assms(2) by simp
  with wf again show ?thesis by blast
qed

theorem array_cache_interns_witness:
  "\<exists>a ac'. CreateArray ArrayCache_new ''x'' 4 [] 32 8 = Some (a, ac') \<and> arr_domain a = 32 \<and>
    map_option fst (CreateArray ac' ''x'' 4 [] 64 16) = Some a"
proof -
  obtain a ac' where a: "CreateArray ArrayCache_new ''x'' 4 [] 32 8 = Some (a, ac')" "arr_domain a = 32"
    by (simp add: CreateArray_symbolic ArrayCache_new_def Let_def)
  from array_cache_interns [OF wf_ArrayCache_new a(1), of 64 16] a show ?thesis by blast
qed

text \<open>
  C17: the arithmetic on 64-bit words of \<^verbatim>\<open>IntEvaluation.h\<close> agrees at every width up to
  64 with the arithmetic of the constant expressions, for every operation whose
  C++ evaluation is defined (no shift by 64 or more, no overflowing signed division).
\<close>

theorem word_arithmetic_agrees:
  assumes "0 < w" "w \<le> 64" "uint l < 2 ^ w" "uint r < 2 ^ w"
    and "k \<in> {Shl, LShr, AShr} \<Longrightarrow> r < 64"
    and "k \<in> {SDiv, SRem} \<Longrightarrow> \<not> (w = 64 \<and> uint l = 2 ^ 63 \<and> uint r = 2 ^ 64 - 1)"
  shows "map_option uint (ints_op k l r w) =
    map_option apval (ConstantExpr_op k (apint_of w (uint l)) (apint_of w (uint r)))"
proof -
  have "wf_apint (apint_of w (uint l))" "wf_apint (apint_of w (uint r))" using assms(1) by simp_all
  from ConstantExpr_op_bv_sem [OF this, of k] ints_op_sound [OF assms] assms(3,4) show ?thesis
    by (simp add: mod_pow2_small)
qed

theorem word_arithmetic_agrees_witness:
  "map_option uint (ints_op SDiv 0xF8 3 8) = Some 0xFE"
proof -
  have "map_option uint (ints_op SDiv 0xF8 3 8) =
      map_option apval (ConstantExpr_op SDiv (apint_of 8 (uint (0xF8::64 word))) (apint_of 8 (uint (3::64 word))))"
    by (rule word_arithmetic_agrees) simp_all
  also have "\<dots> = map_option apval (ConstantExpr_op SDiv (apint_of 8 0xF8) (apint_of 8 3))" by simp
  also have "\<dots> = Some 0xFE" by code_simp
  finally show ?thesis .
qed

text \<open>
  C18: \<open>bits64_indexOfRightmostBit\<close> passes its assertions on every word but zero
  and returns the index, below 64, of the lowest bit that is set.
\<close>

theorem rightmost_bit_index:
  assumes "x \<noteq> 0"
  shows "\<exists>n < 64. bits64_indexOfRightmostBit x = Some n \<and> bit x n \<and> (\<forall>k < n. \<not> bit x k)"
  by (rule bits64_indexOfRightmostBit_ok [OF assms])

theorem rightmost_bit_index_witness:
  "\<exists>n < 64. bits64_indexOfRightmostBit 0x5000000000 = Some n \<and> bit (0x5000000000 :: 64 word) n"
  using rightmost_bit_index [of "0x5000000000"] by auto

text \<open>
  C19: a constant stored to memory by \<open>toMemory\<close> and loaded by \<open>fromMemory\<close> with
  its width is the same constant, whatever bytes follow it.
\<close>

theorem memory_image_roundtrip:
  assumes "wf_apint c" "getBitWidth c \<in> {1, 8, 16, 32, 64}" "toMemory c = Some bs"
  shows "fromMemory (bs @ rest) (getBitWidth c) = Some (ConstantExpr c)"
  by (rule toMemory_fromMemory [OF assms])

theorem memory_image_roundtrip_witness:
  "toMemory (apint_of 16 0x1234) = Some [0x34, 0x12] \<and> fromMemory ([0x34, 0x12] @ [0xFF]) 16 = Some (ConstantExpr (apint_of 16 0x1234))"
proof -
  have m: "toMemory (apint_of 16 0x1234) = Some [0x34, 0x12]"
    by (simp add: toMemory_def store_bytes_def Let_def upt_rec)
  from memory_image_roundtrip [OF _ _ m, of "[0xFF]"] m show ?thesis by simp
qed

text \<open>
  C20: the bounds check that the executor asserts before an access of \<open>n\<close> bytes
  holds exactly for the pointers whose access lies inside the object: the
  wrap-around of the subtracted base lets no other pointer through.
\<close>

theorem bounds_check_exact:
  assumes "wf_mo ctx mo" "wf_expr p" "getWidth p = getPointerWidth ctx" "0 < n"
  shows "\<exists>e. getBoundsCheckPointer_bytes ctx mo p n = Some e \<and> wf_expr e \<and> getWidth e = 1 \<and>
    (\<forall>\<sigma> a. eval \<sigma> p = Some a \<longrightarrow> eval \<sigma> e = Some (bool_val
       (uint (address mo) \<le> a \<and> a + int n \<le> uint (address mo) + int (mo_size mo))))"
  by (rule getBoundsCheckPointer_bytes_ok [OF assms])

theorem bounds_check_exact_witness:
  "\<exists>e. getBoundsCheckPointer_bytes sample_ctx sample_mo (ZExtExpr (sample_byte 0) 64) 2 = Some e \<and> eval sample_env e = Some 0"
proof -
  have "wf_mo sample_ctx sample_mo" "wf_expr (ZExtExpr (sample_byte 0) 64)"
    "getWidth (ZExtExpr (sample_byte 0) 64) = getPointerWidth sample_ctx" "eval sample_env (ZExtExpr (sample_byte 0) 64) = Some 2"
    by code_simp+
  with bounds_check_exact [OF this(1-3), of 2] show ?thesis by (auto simp: sample_mo_def simp del: eval.simps)
qed



section \<open>Solvers\<close>

text \<open>
  C22: caching is transparent. Over any sound solver the caching solver is sound:
  what it answers from an entry of the cache, also from an entry for the negated
  query, and what it adds to the cache are right, and it fails only where the
  solver below fails.
\<close>

theorem caching_solver_sound:
  assumes "sound_solver S I mf"
  shows "sound_solver (CachingSolver cmp S) (cache_inv I) mf"
  using assms by (rule sound_solver.caching_sound)

theorem caching_solver_sound_witness:
  "\<exists>st'. computeTruth (CachingSolver (\<lambda>_ _. 0) exact_solver) \<lparr>q_constraints = {}, q_expr = BinaryExpr Eq (sample_byte 0) (sample_byte 0)\<rparr>
     \<lparr>base = (), cache = Map.empty, queryCacheHits = 0, queryCacheMisses = 0\<rparr> = Some (Some True, st')"
proof -
  let ?q = "\<lparr>q_constraints = {}, q_expr = BinaryExpr Eq (sample_byte 0) (sample_byte 0)\<rparr>"
  have v: "eval \<sigma> (q_expr ?q) = Some 1" for \<sigma> by (auto simp: sample_byte_def ConstantExpr_alloc_def bool_val_def)
  have wf: "wf_expr (q_expr ?q)" "getWidth (q_expr ?q) = 1" by code_simp+
  have q: "bool_query ?q" "must_be 1 ?q" using v wf by (simp_all add: bool_query_def wf_query_def sat_def must_be_def del: eval.simps)
  have "cache_inv (\<lambda>_. True) \<lparr>base = (), cache = Map.empty, queryCacheHits = 0, queryCacheMisses = 0\<rparr>"
    by (simp add: cache_inv_def)
  from sound_solver.truth_sound [OF caching_solver_sound [OF exact.sound_solver_axioms, of "\<lambda>_ _. 0"] this q(1)] q(2)
  show ?thesis by (auto elim!: delivers_answer)
qed

text \<open>
  C23: staging a sound incomplete solver before a sound solver is sound, for a
  truth, a validity, a value and an assignment; in particular a partial validity of
  the first is completed by the one query that is missing.
\<close>

theorem staged_solver_sound:
  assumes "sound_solver S I mf" "sound_incomplete P J"
  shows "sound_solver (StagedSolver P S) (\<lambda>(p, s). J p \<and> I s) mf"
  using assms by (rule sound_solver.staged_sound)

text \<open>An incomplete solver that knows the constant queries.\<close>

definition constant_solver :: "unit incomplete_solver" where
  "constant_solver =
     \<lparr>inc_computeTruth = \<lambda>q p. Some (case as_const (q_expr q) of None \<Rightarrow> PVNone
        | Some c \<Rightarrow> if apval c = 1 then MustBeTrue else MustBeFalse, p),
      inc_computeValidity = \<lambda>q p. Some (case as_const (q_expr q) of None \<Rightarrow> PVNone
        | Some c \<Rightarrow> if apval c = 1 then MustBeTrue else MustBeFalse, p),
      inc_computeValue = \<lambda>q p. Some (if as_const (q_expr q) = None then None else Some (q_expr q), p),
      inc_computeInitialValues = \<lambda>q objs p. Some (None, p)\<rparr>"

lemma constant_solver_sound: "sound_incomplete constant_solver (\<lambda>_. True)"
proof -
  have c: "pv_holds (if apval c = 1 then MustBeTrue else MustBeFalse) q" if "bool_query q" "as_const (q_expr q) = Some c" for q c
  proof -
    have "q_expr q = ConstantExpr c" using that(2) by (cases "q_expr q") auto
    then show ?thesis using bool_query_cases [OF that(1)] by (auto simp: must_be_def)
  qed
  have v: "value_of_query q (q_expr q)" if "wf_query q" "as_const (q_expr q) = Some c" for q c
  proof -
    have "q_expr q = ConstantExpr c" using that(2) by (cases "q_expr q") auto
    then show ?thesis using that(1) by (auto simp: value_of_query_def wf_query_def may_be_def)
  qed
  show ?thesis using c v
    by (auto simp: sound_incomplete_def constant_solver_def split: option.split)
qed

theorem staged_solver_sound_witness:
  "sound_solver (StagedSolver constant_solver exact_solver) (\<lambda>(p, s). (\<lambda>_. True) p \<and> (\<lambda>_. True) s) False \<and>
   computeTruth (StagedSolver constant_solver exact_solver) \<lparr>q_constraints = {}, q_expr = ConstantExpr_alloc 0 1\<rparr> ((), ()) =
     Some (Some False, ((), ()))"
proof
  show "sound_solver (StagedSolver constant_solver exact_solver) (\<lambda>(p, s). (\<lambda>_. True) p \<and> (\<lambda>_. True) s) False"
    by (rule staged_solver_sound [OF exact.sound_solver_axioms constant_solver_sound])
qed (simp add: StagedSolver_def Staged_computeTruth_def constant_solver_def ConstantExpr_alloc_def)

text \<open>
  C24: \<open>getRange\<close> returns, for a solver that answers every query, the least and the
  greatest value of an expression of at most 64 bits under the constraints: the three
  binary searches end, no intermediate 64-bit sum wraps around, and both bounds are
  attained.
\<close>

theorem range_exact:
  assumes "complete_solver S I" "I s" "wf_query q" "getWidth (q_expr q) \<le> 64"
  shows "\<exists>lo hi s'. getRange S q s =
      Some ((ConstantExpr_alloc lo (getWidth (q_expr q)), ConstantExpr_alloc hi (getWidth (q_expr q))), s') \<and> I s' \<and>
    may_be lo q \<and> may_be hi q \<and> (\<forall>v. may_be v q \<longrightarrow> lo \<le> v \<and> v \<le> hi)"
  using assms by (rule complete_solver.getRange_exact)

lemma sample_range_query:
  "wf_query \<lparr>q_constraints = {}, q_expr = sample_byte 0\<rparr>"
  "may_be v \<lparr>q_constraints = {}, q_expr = sample_byte 0\<rparr> \<longleftrightarrow> 0 \<le> v \<and> v < 256"
proof -
  have e: "eval \<sigma> (sample_byte 0) = Some (\<sigma> sample_array 0 mod 256)" for \<sigma>
    by (simp add: sample_byte_def ConstantExpr_alloc_def initial_value_def sample_array_def isConstantArray_def isSymbolicArray_def)
  have "wf_expr (sample_byte 0)" by code_simp
  then show "wf_query \<lparr>q_constraints = {}, q_expr = sample_byte 0\<rparr>" by (simp add: wf_query_def sat_def e)
  show "may_be v \<lparr>q_constraints = {}, q_expr = sample_byte 0\<rparr> \<longleftrightarrow> 0 \<le> v \<and> v < 256"
  proof
    assume "0 \<le> v \<and> v < 256"
    then have "eval (\<lambda>_ _. v) (sample_byte 0) = Some v" by (simp add: e)
    then show "may_be v \<lparr>q_constraints = {}, q_expr = sample_byte 0\<rparr>" unfolding may_be_def by (intro exI [of _ "\<lambda>_ _. v"]) (simp add: sat_def)
  qed (auto simp: may_be_def e)
qed

theorem range_exact_witness:
  "getRange exact_solver \<lparr>q_constraints = {}, q_expr = sample_byte 0\<rparr> () =
     Some ((ConstantExpr_alloc 0 8, ConstantExpr_alloc 255 8), ())"
proof -
  have w: "getWidth (sample_byte 0) = 8" by code_simp
  obtain lo hi where r: "getRange exact_solver \<lparr>q_constraints = {}, q_expr = sample_byte 0\<rparr> () =
      Some ((ConstantExpr_alloc lo 8, ConstantExpr_alloc hi 8), ())"
    "0 \<le> lo \<and> lo < 256" "0 \<le> hi \<and> hi < 256" "\<forall>v. 0 \<le> v \<and> v < 256 \<longrightarrow> lo \<le> v \<and> v \<le> hi"
    using range_exact [OF exact.complete_solver_axioms _ sample_range_query(1)] w by (auto simp: sample_range_query(2))
  from r(4) have "lo \<le> 0" "255 \<le> hi" by simp_all
  with r(2,3) have "lo = 0" "hi = 255" by simp_all
  with r(1) show ?thesis by simp
qed

text \<open>
  C25: with a sound oracle, the validating solver lets no wrong answer of the solver
  under test through, whatever that solver does: a truth or validity that it returns is
  right, and a constant that it returns for a value is one the expression can have.
\<close>

theorem validating_solver_filters:
  assumes "sound_solver ora I mf" "I (snd st)"
  shows "(bool_query q \<longrightarrow> computeTruth (ValidatingSolver order T ora) q st = Some (Some b, st') \<longrightarrow> b = must_be 1 q) \<and>
    (bool_query q \<longrightarrow> computeValidity (ValidatingSolver order T ora) q st = Some (Some v, st') \<longrightarrow> v = validity q) \<and>
    (wf_query q \<longrightarrow> wf_apint c \<longrightarrow> getBitWidth c = getWidth (q_expr q) \<longrightarrow>
       computeValue (ValidatingSolver order T ora) q st = Some (Some (ConstantExpr c), st') \<longrightarrow> may_be (apval c) q)"
  using sound_solver.validated_truth [OF assms(1,2)] sound_solver.validated_validity [OF assms(1,2)]
    sound_solver.validated_value [OF assms(1,2)]
  by (auto simp: ValidatingSolver_def)

text \<open>A solver that takes every query for valid.\<close>

definition yes_solver :: "unit solver_impl" where
  "yes_solver = DummySolver\<lparr>computeTruth := \<lambda>q s. Some (Some True, s)\<rparr>"

theorem validating_solver_filters_witness:
  "computeTruth (ValidatingSolver (\<lambda>_. []) yes_solver exact_solver) \<lparr>q_constraints = {}, q_expr = ConstantExpr_alloc 1 1\<rparr> ((), ()) =
     Some (Some True, ((), ())) \<and>
   must_be 1 \<lparr>q_constraints = {}, q_expr = ConstantExpr_alloc 1 1\<rparr> \<and>
   computeTruth (ValidatingSolver (\<lambda>_. []) yes_solver exact_solver) \<lparr>q_constraints = {}, q_expr = ConstantExpr_alloc 0 1\<rparr> ((), ()) = None"
proof -
  let ?q = "\<lparr>q_constraints = {}, q_expr = ConstantExpr_alloc 1 1\<rparr>"
  have m: "must_be 1 ?q" "\<not> must_be 1 \<lparr>q_constraints = {}, q_expr = ConstantExpr_alloc 0 1\<rparr>"
    by (auto simp: must_be_def sat_def ConstantExpr_alloc_def)
  have run: "computeTruth (ValidatingSolver (\<lambda>_. []) yes_solver exact_solver) ?q ((), ()) = Some (Some True, ((), ()))"
    "computeTruth (ValidatingSolver (\<lambda>_. []) yes_solver exact_solver) \<lparr>q_constraints = {}, q_expr = ConstantExpr_alloc 0 1\<rparr> ((), ()) = None"
    using m by (simp_all add: ValidatingSolver_def Validating_computeTruth_def yes_solver_def exact_solver_def
      call_def first_def second_def beside_def)
  have "bool_query ?q" by (simp add: bool_query_def wf_query_def sat_def ConstantExpr_alloc_def wf_apint_def)
  with validating_solver_filters [where ora = exact_solver and st = "((), ())" and q = ?q and order = "\<lambda>_. []" and T = yes_solver and b = True,
      OF exact.sound_solver_axioms] run(1) m(1) run(2)
  show ?thesis by simp
qed

section \<open>Resolution of pointers\<close>

text \<open>
  C26: \<open>resolve\<close> returns only objects that the pointer can point to under the
  constraints, without repetition, and all of them when it reports a complete
  resolution; it reports an incomplete one only when a query failed, a limit above one
  was set or the timeout expired. The early exits of the two walks lose nothing
  because the objects do not overlap.
\<close>

theorem resolve_exact:
  assumes "timing ts I mf cm" "resolvable ctx cm p as" "I s"
  shows "\<exists>inc rl s'. resolve ctx ts cm late maxR p as [] s = Some (inc, rl, s') \<and> I s' \<and> distinct rl \<and>
    set rl \<subseteq> {x \<in> bound as. points_to cm p x} \<and> (\<not> inc \<longrightarrow> set rl = {x \<in> bound as. points_to cm p x}) \<and>
    (inc \<longrightarrow> mf \<or> 1 < maxR \<or> (\<exists>n. late n))"
  using assms by (rule timing.resolve_ok)

text \<open>Two objects and a pointer to one or the other.\<close>

definition sample_space :: AddressSpace where
  "sample_space = \<lparr>cowKey = 1, objects = MemoryMap_replace (sample_mo\<lparr>address := 8192\<rparr>, 1) (MemoryMap_replace (sample_mo, 0) Terminator)\<rparr>"

definition sample_pointer :: expr where
  "sample_pointer = SelectExpr (BinaryExpr Eq (ConstantExpr_alloc 0 8) (sample_byte 0)) (ConstantExpr_alloc 4096 64) (ConstantExpr_alloc 8192 64)"

definition sample_cm :: constraint_manager where
  "sample_cm = \<lparr>getAllConstraints = {}, simplifyExpr = Some\<rparr>"

definition sample_ts :: "unit caching timing_solver" where
  "sample_ts = \<lparr>ts_solver = CachingSolver (\<lambda>_ _. 0) exact_solver, simplifyExprs = False\<rparr>"

definition sample_cache :: "unit caching" where
  "sample_cache = \<lparr>base = (), cache = Map.empty, queryCacheHits = 0, queryCacheMisses = 0\<rparr>"

lemma sample_timing: "timing sample_ts (cache_inv (\<lambda>_. True)) False sample_cm" "cache_inv (\<lambda>_. True) sample_cache"
  unfolding sample_ts_def using plain_timing.timing_axioms by (auto simp: cache_inv_def sample_cache_def)

lemma sample_bound: "bound sample_space = {(sample_mo, 0), (sample_mo\<lparr>address := 8192\<rparr>, 1)}"
proof -
  have "set (inorder (MemoryMap_replace (sample_mo, 0 :: nat) Terminator)) = {(sample_mo, 0)}"
    by (simp add: set_map_replace)
  moreover have "address sample_mo = 4096" by (simp add: sample_mo_def)
  ultimately show ?thesis
    by (auto simp: bound_def sample_space_def set_map_replace wf_map_replace)
qed

lemma sample_pointer_eval: "eval \<sigma> sample_pointer = Some (if \<sigma> sample_array 0 mod 256 = 0 then 4096 else 8192)"
  by (simp add: sample_pointer_def sample_byte_def ConstantExpr_alloc_def initial_value_def sample_array_def
    isConstantArray_def isSymbolicArray_def bool_val_def)

lemma sample_disjoint: "disjoint_objects sample_ctx sample_space"
  unfolding disjoint_objects_def sample_bound
  by (simp add: sample_space_def wf_map_replace wf_mo_def sample_mo_def sample_ctx_def)

lemma sample_resolvable: "resolvable sample_ctx sample_cm sample_pointer sample_space"
proof -
  have "wf_expr (sample_byte 0)" "getWidth (sample_byte 0) = 8" by code_simp+
  then have "wf_expr sample_pointer" "getWidth sample_pointer = 64"
    by (simp_all add: sample_pointer_def ConstantExpr_alloc_def wf_apint_def)
  then show ?thesis using sample_disjoint
    by (simp add: resolvable_def wf_query_def TS_query_def sample_cm_def sat_def sample_pointer_eval sample_ctx_def)
qed

lemma sample_points:
  assumes "op \<in> bound sample_space"
  shows "points_to sample_cm sample_pointer op"
proof -
  have "may_be 4096 (TS_query sample_cm sample_pointer)"
    unfolding may_be_def by (rule exI [of _ "\<lambda>_ _. 0"]) (simp add: sat_def sample_pointer_eval TS_query_def sample_cm_def)
  moreover have "may_be 8192 (TS_query sample_cm sample_pointer)"
    unfolding may_be_def by (rule exI [of _ "\<lambda>_ _. 1"]) (simp add: sat_def sample_pointer_eval TS_query_def sample_cm_def)
  moreover have "in_object 4096 (sample_mo, 0)" "in_object 8192 (sample_mo\<lparr>address := 8192\<rparr>, 1)"
    by (simp_all add: in_object_def sample_mo_def)
  ultimately show ?thesis using assms unfolding points_to_def sample_bound by blast
qed

theorem resolve_exact_witness:
  "\<exists>rl s'. resolve sample_ctx sample_ts sample_cm (\<lambda>_. False) 0 sample_pointer sample_space [] sample_cache = Some (False, rl, s') \<and>
     set rl = {(sample_mo, 0), (sample_mo\<lparr>address := 8192\<rparr>, 1)}"
proof -
  obtain inc rl s' where r: "resolve sample_ctx sample_ts sample_cm (\<lambda>_. False) 0 sample_pointer sample_space [] sample_cache = Some (inc, rl, s')"
    "\<not> inc \<longrightarrow> set rl = {x \<in> bound sample_space. points_to sample_cm sample_pointer x}"
    "inc \<longrightarrow> False \<or> 1 < (0 :: nat) \<or> (\<exists>n :: nat. False)"
    using resolve_exact [OF sample_timing(1) sample_resolvable sample_timing(2), of "\<lambda>_. False" 0] by blast
  have "{x \<in> bound sample_space. points_to sample_cm sample_pointer x} = bound sample_space" using sample_points by blast
  with r show ?thesis unfolding sample_bound by auto
qed

text \<open>
  C27: \<open>resolveOne\<close> on a symbolic address finds an object that the address can lie in
  whenever there is one, through the cheap lookup or the search, and reports none
  exactly when there is none; it gives no answer only when a query fails.
\<close>

theorem resolveOne_finds:
  assumes "timing ts I mf cm" "resolvable ctx cm p as" "I s"
  shows "delivers mf I (resolveOne ctx ts cm p as s)
    (\<lambda>r. case r of Some op \<Rightarrow> op \<in> bound as \<and> points_to cm p op | None \<Rightarrow> \<forall>op \<in> bound as. \<not> points_to cm p op)"
  using timing.resolveOne_ok [OF assms] unfolding found_def .

theorem resolveOne_finds_witness:
  "\<exists>op s'. resolveOne sample_ctx sample_ts sample_cm sample_pointer sample_space sample_cache = Some (Some (Some op), s') \<and>
     op \<in> {(sample_mo, 0), (sample_mo\<lparr>address := 8192\<rparr>, 1)}"
proof -
  obtain r s' where r: "resolveOne sample_ctx sample_ts sample_cm sample_pointer sample_space sample_cache = Some (Some r, s')"
    "case r of Some op \<Rightarrow> op \<in> bound sample_space \<and> points_to sample_cm sample_pointer op
     | None \<Rightarrow> \<forall>op \<in> bound sample_space. \<not> points_to sample_cm sample_pointer op"
    using resolveOne_finds [OF sample_timing(1) sample_resolvable sample_timing(2)] by (rule delivers_answer)
  have "\<not> (\<forall>op \<in> bound sample_space. \<not> points_to sample_cm sample_pointer op)" using sample_points sample_bound by blast
  with r(2) obtain op where "r = Some op" "op \<in> bound sample_space" by (cases r) auto
  with r(1) show ?thesis unfolding sample_bound by blast
qed

text \<open>
  C28: a constant address resolves to the object whose bytes include it, if any: no
  object of size zero, no address before the first or after the end of an object, and
  no wrap-around of the 64-bit difference.
\<close>

theorem resolve_constant_address:
  assumes "disjoint_objects ctx as"
  shows "resolve_address a as = Some op \<longleftrightarrow>
    op \<in> bound as \<and> uint (address (fst op)) \<le> uint a \<and> uint a < uint (address (fst op)) + int (mo_size (fst op))"
  using resolve_address_iff [OF assms] unfolding in_object_def .

theorem resolve_constant_address_witness:
  "resolve_address 8195 sample_space = Some (sample_mo\<lparr>address := 8192\<rparr>, 1) \<and> resolve_address 4100 sample_space = None"
proof -
  note d = sample_disjoint
  have "resolve_address 4100 sample_space \<noteq> Some op" for op
    using resolve_constant_address [OF d, of 4100 op] by (auto simp: sample_bound sample_mo_def)
  then have "resolve_address 4100 sample_space = None" by (cases "resolve_address 4100 sample_space") auto
  then show ?thesis
    using resolve_constant_address [OF d, of 8195 "(sample_mo\<lparr>address := 8192\<rparr>, 1)"] by (auto simp: sample_bound sample_mo_def)
qed

text \<open>
  C29: a limit of one resolution is no limit. The documentation of \<open>resolve\<close> promises
  that no more than \<^verbatim>\<open>maxResolutions\<close> pairs are returned when it is not zero, but the
  first pair is never compared with the limit: the result is that of an unlimited
  resolution for every pointer, space and solver.
\<close>

theorem resolve_limit_of_one:
  "resolve ctx ts cm late 1 p as rl s = resolve ctx ts cm late 0 p as rl s"
  by (rule resolve_limit_one)

section \<open>External calls\<close>

text \<open>
  C30: copying all objects to native memory before an external call and back after it
  changes nothing when the call writes none of their bytes: no object state is copied,
  changed or reported, provided the read-only objects, which are not copied out, are
  in native memory already.
\<close>

theorem external_copy_round_trip:
  assumes "disjoint_objects ctx as" "\<forall>op \<in> bound as. stored_in h op"
    "\<forall>op \<in> bound as. read_only_in h op \<longrightarrow> mirrored h mem op"
  shows "\<exists>mem'. copyOutConcretes h as mem = Some mem' \<and> copyInConcretes mem' h as = Some (True, h, as)"
  using assms by (rule copy_round_trip)

definition sample_heap :: Heap where
  "sample_heap = \<lparr>heap = [0 \<mapsto> sample_os, 1 \<mapsto> sample_os\<lparr>concreteStore := [1, 2, 3, 4]\<rparr>], heap_next = 2\<rparr>"

theorem external_copy_round_trip_witness:
  "\<exists>mem'. copyOutConcretes sample_heap sample_space (\<lambda>_. 0) = Some mem' \<and>
     copyInConcretes mem' sample_heap sample_space = Some (True, sample_heap, sample_space)"
proof (rule external_copy_round_trip [OF sample_disjoint])
  show "\<forall>op \<in> bound sample_space. stored_in sample_heap op"
    by (simp add: sample_bound stored_in_def sample_heap_def sample_os_def ObjectState_base_def sample_mo_def)
  show "\<forall>op \<in> bound sample_space. read_only_in sample_heap op \<longrightarrow> mirrored sample_heap (\<lambda>_. 0) op"
    by (simp add: sample_bound read_only_in_def sample_heap_def sample_os_def ObjectState_base_def)
qed

text \<open>
  C31: a byte that an external call changes can keep its old value. The copy back
  writes the concrete store and leaves the flush mask alone, so a byte that is concrete
  and was flushed to the update list by an earlier read at a symbolic offset has the
  new value when it is read at a constant offset and the old one, from the update
  list, at a symbolic offset; the invariant of object states is lost.
\<close>

theorem copyIn_leaves_stale_byte:
  assumes "heap h o1 = Some os" "wf_os os" "\<not> readOnly os" "copyOnWriteOwner os = cowKey as" "mo_size mo = os_size os"
    "i < os_size os" "isByteConcrete os i" "isByteFlushed os i" "concreteStore os ! i \<noteq> mem (src + of_nat i)"
  shows "\<exists>h' os'. copyInConcrete mo o1 src mem h as = Some (True, h', as) \<and> heap h' o1 = Some os' \<and>
    (\<forall>\<sigma>. content \<sigma> os' i = Some (uint (mem (src + of_nat i))) \<and> ul_value \<sigma> os' i = Some (uint (concreteStore os ! i))) \<and> \<not> wf_os os'"
  using assms by (rule copyIn_stale)

text \<open>An object of four zero bytes, all of them flushed.\<close>

definition flushed_os :: ObjectState where
  "flushed_os = sample_os\<lparr>copyOnWriteOwner := 1, flushMask := Some (BitArray_new 4 False)\<rparr>"

lemma flushed_os_fields [simp]:
  "os_size flushed_os = 4" "concreteStore flushed_os = replicate 4 0" "copyOnWriteOwner flushed_os = 1" "\<not> readOnly flushed_os"
  by (simp_all add: flushed_os_def sample_os_def ObjectState_base_def sample_mo_def)

lemma flushed_os_bytes: "isByteConcrete flushed_os i" "i < 4 \<Longrightarrow> isByteFlushed flushed_os i" "knownSymbolic flushed_os i = None"
  by (simp_all add: isByteConcrete_def isByteFlushed_def knownSymbolic_def flushed_os_def sample_os_def ObjectState_base_def sample_mo_def)

lemma flushed_os_wf: "wf_os flushed_os"
proof -
  have "os_shape sample_os" unfolding sample_os_def
    by (rule ObjectState_base_shape) (simp_all add: sample_mo_def root_array_def wf_byte_zero_array)
  then have "os_shape flushed_os"
    by (simp add: os_shape_def flushed_os_def ul_array_def wf_BitArray_ops sample_os_def ObjectState_base_def sample_mo_def)
  moreover have "ul_value \<sigma> flushed_os i = content \<sigma> flushed_os i" if "i < 4" for \<sigma> i
    using that flushed_os_bytes(1)
    by (simp add: ul_value_def ul_array_def content_def flushed_os_def sample_os_def ObjectState_base_def sample_mo_def
      root_array_def zero_array_def initial_value_def isConstantArray_def isSymbolicArray_def)
  ultimately show ?thesis using flushed_os_bytes
    by (simp add: wf_os_def byte_inv_def isByteKnownSymbolic_def)
qed

theorem copyIn_leaves_stale_byte_witness:
  "\<exists>h' os'. copyInConcrete sample_mo 0 4096 (\<lambda>_. 7) \<lparr>heap = [0 \<mapsto> flushed_os], heap_next = 1\<rparr> sample_space =
       Some (True, h', sample_space) \<and> heap h' 0 = Some os' \<and>
     content sample_env os' 0 = Some 7 \<and> ul_value sample_env os' 0 = Some 0"
proof -
  have k: "cowKey sample_space = 1" "mo_size sample_mo = 4" by (simp_all add: sample_space_def sample_mo_def)
  obtain h' os' where "copyInConcrete sample_mo 0 4096 (\<lambda>_. 7) \<lparr>heap = [0 \<mapsto> flushed_os], heap_next = 1\<rparr> sample_space =
      Some (True, h', sample_space)" "heap h' 0 = Some os'"
    "\<forall>\<sigma>. content \<sigma> os' 0 = Some (uint (7 :: 8 word)) \<and> ul_value \<sigma> os' 0 = Some (uint (concreteStore flushed_os ! 0))"
    using copyIn_leaves_stale_byte [of "\<lparr>heap = [0 \<mapsto> flushed_os], heap_next = 1\<rparr>" 0 flushed_os sample_space sample_mo 0
        "\<lambda>_. 7" 4096] flushed_os_wf flushed_os_bytes(1) [of 0] flushed_os_bytes(2) [of 0] k by auto
  then show ?thesis by auto
qed

section \<open>Partial answers in the cache\<close>

text \<open>A byte compared with zero: true and false are both possible.\<close>

definition sample_zero :: expr where
  "sample_zero = BinaryExpr Eq (ConstantExpr_alloc 0 8) (sample_byte 0)"

lemma sample_zero_query:
  "bool_query \<lparr>q_constraints = {}, q_expr = sample_zero\<rparr>" "may_be 1 \<lparr>q_constraints = {}, q_expr = sample_zero\<rparr>"
  "\<not> must_be 1 \<lparr>q_constraints = {}, q_expr = sample_zero\<rparr>"
proof -
  have e: "eval \<sigma> sample_zero = Some (bool_val (\<sigma> sample_array 0 mod 256 = 0))" for \<sigma>
    by (simp add: sample_zero_def sample_byte_def ConstantExpr_alloc_def initial_value_def sample_array_def
      isConstantArray_def isSymbolicArray_def bool_val_def)
  have "wf_expr sample_zero" "getWidth sample_zero = 1" by code_simp+
  then show "bool_query \<lparr>q_constraints = {}, q_expr = sample_zero\<rparr>" by (simp add: bool_query_def wf_query_def sat_def e)
  show "may_be 1 \<lparr>q_constraints = {}, q_expr = sample_zero\<rparr>"
    unfolding may_be_def by (rule exI [of _ "\<lambda>_ _. 0"]) (simp add: sat_def e bool_val_def)
  have "eval (\<lambda>_ _. 1) sample_zero = Some 0" by (simp add: e bool_val_def)
  then show "\<not> must_be 1 \<lparr>q_constraints = {}, q_expr = sample_zero\<rparr>" unfolding must_be_def
    by (auto simp: sat_def intro!: exI [of _ "\<lambda>_ _. 1"])
qed

text \<open>
  C32: a partial answer in the cache is never refined. \<^verbatim>\<open>cacheInsert\<close> calls
  \<^verbatim>\<open>unordered_map::insert\<close>, which keeps an entry that is there, so the exact
  answer that a query with a partial entry obtains from the solver is not recorded:
  the cache is the same after every query whose canonical form has an entry, and the
  solver is asked again each time.
\<close>

theorem cache_entry_never_refined:
  assumes "canonicalizeQuery cmp (q_expr q) = Some (k, neg)" "cache st (q_constraints q, k) \<noteq> None"
  shows "(computeTruth (CachingSolver cmp S) q st = Some (r, st') \<longrightarrow> cache st' = cache st) \<and>
    (computeValidity (CachingSolver cmp S) q st = Some (v, st') \<longrightarrow> cache st' = cache st)"
  using caching_keeps_cache [OF assms] by (simp add: CachingSolver_def)

theorem cache_entry_never_refined_witness:
  "\<exists>st'. computeTruth (CachingSolver (\<lambda>_ _. - 1) exact_solver) \<lparr>q_constraints = {}, q_expr = sample_zero\<rparr>
      (sample_cache\<lparr>cache := [({}, sample_zero) \<mapsto> MayBeTrue]\<rparr>) = Some (Some False, st') \<and>
    cache st' = [({}, sample_zero) \<mapsto> MayBeTrue]"
proof -
  let ?q = "\<lparr>q_constraints = {}, q_expr = sample_zero\<rparr>" and ?st = "sample_cache\<lparr>cache := [({}, sample_zero) \<mapsto> MayBeTrue]\<rparr>"
  note q = sample_zero_query
  obtain ne where ne: "createIsZero sample_zero = Some ne" using negateExpr_sem [OF q(1)] by (auto simp: negateExpr_def)
  then have k: "canonicalizeQuery (\<lambda>_ _. - 1) (q_expr ?q) = Some (sample_zero, False)" by (simp add: canonicalizeQuery_def)
  have i: "cache_inv (\<lambda>_. True) ?st" using q(2) by (auto simp: cache_inv_def)
  have "delivers False (cache_inv (\<lambda>_. True)) (computeTruth (CachingSolver (\<lambda>_ _. - 1) exact_solver) ?q ?st) (\<lambda>b. b = must_be 1 ?q)"
    by (rule cached_exact.truth_sound [OF i q(1)])
  then obtain st' where r: "computeTruth (CachingSolver (\<lambda>_ _. - 1) exact_solver) ?q ?st = Some (Some False, st')"
    using q(3) by (auto elim!: delivers_answer)
  with cache_entry_never_refined [OF k, of ?st exact_solver "Some False" st'] show ?thesis by auto
qed

section \<open>Independent constraints\<close>

text \<open>
  C33: the set built for a constraint covers all it depends on.  For an expression over
  arrays with indices of at most 32 bits the constructor passes its assertions, and two
  assignments that agree on the elements of the set, and on constant arrays, give the
  expression one value; the reads inside update lists and indices are found too.
\<close>

theorem element_set_covers_reads:
  assumes "wf_expr e" "\<forall>a us i. subexpr e (ReadExpr a us i) \<longrightarrow> arr_domain a \<le> 32"
  shows "\<exists>s. IndependentElementSet_new e = Some s \<and> wf_ies s \<and> exprs s = {e} \<and>
    (\<forall>\<sigma> \<tau>. same_on (footprint s) \<sigma> \<tau> \<longrightarrow> eval \<sigma> e = eval \<tau> e)"
proof -
  have "getBitWidth c \<le> 32" if "(a, us, i) \<in> set (findReads e True)" "as_const i = Some c" for a us i c
  proof -
    have "subexpr e (ReadExpr a us i)" using that(1) by (simp add: findReads_set)
    with wf_subexpr [OF this assms(1)] assms(2) that(2) show ?thesis by auto
  qed
  then obtain s where s: "IndependentElementSet_new e = Some s"
    unfolding IndependentElementSet_new_def using add_reads_returns by blast
  then show ?thesis using new_spec(1,2) [OF s] eval_footprint [OF assms(1) s] by blast
qed

text \<open>A table read at a symbolic and at a constant index.\<close>

definition sample_table :: array where
  "sample_table = sample_array\<lparr>arr_id := 2, arr_name := ''t''\<rparr>"

definition table_at_byte :: expr where
  "table_at_byte = BinaryExpr Eq (ConstantExpr_alloc 0 8) (ReadExpr sample_table [] sample_index)"

definition table_at_one :: expr where
  "table_at_one = BinaryExpr Eq (ConstantExpr_alloc 0 8) (ReadExpr sample_table [] (ConstantExpr_alloc 1 32))"

lemma table_wf: "wf_expr table_at_byte" "wf_expr table_at_one"
  by code_simp+

lemma table_sets:
  "IndependentElementSet_new table_at_byte =
     Some \<lparr>elements = [(sample_array, [0])], wholeObjects = [sample_table], exprs = {table_at_byte}\<rparr>"
  "IndependentElementSet_new table_at_one =
     Some \<lparr>elements = [(sample_table, [1])], wholeObjects = [], exprs = {table_at_one}\<rparr>"
  by code_simp+

theorem element_set_covers_reads_witness:
  "eval (\<lambda>a n. if a = sample_array \<and> n = 3 then 5 else 0) table_at_byte = eval (\<lambda>a n. 0) table_at_byte"
proof -
  let ?\<sigma> = "\<lambda>a n. if a = sample_array \<and> n = 3 then 5 else 0 :: int"
  have "\<forall>(a, us, i) \<in> set (findReads table_at_byte True). arr_domain a \<le> 32" by code_simp
  then have "\<forall>a us i. subexpr table_at_byte (ReadExpr a us i) \<longrightarrow> arr_domain a \<le> 32" by (auto simp: findReads_set)
  from element_set_covers_reads [OF table_wf(1) this]
  have c: "\<forall>\<sigma> \<tau>. same_on (footprint \<lparr>elements = [(sample_array, [0])], wholeObjects = [sample_table], exprs = {table_at_byte}\<rparr>) \<sigma> \<tau> \<longrightarrow>
    eval \<sigma> table_at_byte = eval \<tau> table_at_byte"
    unfolding table_sets(1) by simp
  have "sample_table \<noteq> sample_array" "\<not> isConstantArray sample_array" by code_simp+
  then have "same_on (footprint \<lparr>elements = [(sample_array, [0])], wholeObjects = [sample_table], exprs = {table_at_byte}\<rparr>) ?\<sigma> (\<lambda>a n. 0)"
    by (auto simp: same_on_def same_constants_def fun_eq_iff split: if_splits)
  then show ?thesis by (rule c [rule_format])
qed

text \<open>
  C34: adding one factor to another is the union.  The elements, and the constraints, of the
  result are those of both, and the returned flag tells exactly whether the set has got
  new elements; an array read at a symbolic index absorbs its single elements.
\<close>

theorem element_set_add_is_union:
  assumes "factor s" "factor b"
  shows "\<exists>modified s'. IndependentElementSet_add s b = (modified, s') \<and> factor s' \<and> exprs s' = exprs s \<union> exprs b \<and>
    footprint s' = footprint s \<union> footprint b \<and> (modified \<longleftrightarrow> \<not> footprint b \<subseteq> footprint s)"
proof -
  obtain modified s' where r: "IndependentElementSet_add s b = (modified, s')" by (cases "IndependentElementSet_add s b")
  from add_spec [OF factor_inv(1) [OF assms(1)] factor_inv(1) [OF assms(2)] r] factor.union [OF assms r] r
  show ?thesis by (intro exI [of _ modified] exI [of _ s']) blast
qed

theorem element_set_add_is_union_witness:
  "IndependentElementSet_add \<lparr>elements = [(sample_table, [1])], wholeObjects = [], exprs = {table_at_one}\<rparr>
      \<lparr>elements = [(sample_array, [0])], wholeObjects = [sample_table], exprs = {table_at_byte}\<rparr> =
    (True, \<lparr>elements = [(sample_array, [0])], wholeObjects = [sample_table], exprs = {table_at_one, table_at_byte}\<rparr>) \<and>
   factor \<lparr>elements = [(sample_array, [0])], wholeObjects = [sample_table], exprs = {table_at_one, table_at_byte}\<rparr>"
proof -
  have run: "IndependentElementSet_add \<lparr>elements = [(sample_table, [1])], wholeObjects = [], exprs = {table_at_one}\<rparr>
      \<lparr>elements = [(sample_array, [0])], wholeObjects = [sample_table], exprs = {table_at_byte}\<rparr> =
    (True, \<lparr>elements = [(sample_array, [0])], wholeObjects = [sample_table], exprs = {table_at_one, table_at_byte}\<rparr>)"
    by code_simp
  with element_set_add_is_union [OF factor.single [OF table_wf(2) table_sets(2)] factor.single [OF table_wf(1) table_sets(1)]]
  show ?thesis by (simp add: insert_commute)
qed

text \<open>
  C35: factors without a common element can be solved apart.  Solutions of the constraints
  of two factors whose sets have no common element, which agree on constant arrays,
  combine to a solution of the constraints of both.
\<close>

theorem independent_factors:
  assumes "factor s" "factor t" "footprint s \<inter> footprint t = {}" "same_constants \<sigma> \<tau>"
    "sat \<sigma> (exprs s)" "sat \<tau> (exprs t)"
  shows "\<exists>\<rho>. sat \<rho> (exprs s \<union> exprs t)"
  using assms by (rule independent_sat)

text \<open>A constraint on another byte of the array.\<close>

definition byte_one :: expr where
  "byte_one = BinaryExpr Eq (ConstantExpr_alloc 7 8) (sample_byte 1)"

lemma byte_one_set:
  "wf_expr byte_one"
  "IndependentElementSet_new byte_one = Some \<lparr>elements = [(sample_array, [1])], wholeObjects = [], exprs = {byte_one}\<rparr>"
  by code_simp+

theorem independent_factors_witness: "\<exists>\<rho>. sat \<rho> {byte_one, table_at_one}"
proof -
  let ?s = "\<lparr>elements = [(sample_array, [1])], wholeObjects = [], exprs = {byte_one}\<rparr>"
  let ?t = "\<lparr>elements = [(sample_table, [1])], wholeObjects = [], exprs = {table_at_one}\<rparr>"
  let ?\<sigma> = "\<lambda>a n. if isConstantArray a then 0 else 7 :: int"
  have d: "sample_array \<noteq> sample_table" "\<not> isConstantArray sample_array" by code_simp+
  have disj: "footprint ?s \<inter> footprint ?t = {}" using d(1) by (auto simp: footprint_def split: if_splits)
  have c: "same_constants ?\<sigma> (\<lambda>a n. 0)" by (simp add: same_constants_def)
  have s: "sat ?\<sigma> (exprs ?s)" "sat (\<lambda>a n. 0) (exprs ?t)"
    by (simp_all add: sat_def byte_one_def table_at_one_def sample_byte_def ConstantExpr_alloc_def initial_value_def
      sample_table_def sample_array_def isConstantArray_def isSymbolicArray_def bool_val_def)
  from independent_factors [OF factor.single [OF byte_one_set] factor.single [OF table_wf(2) table_sets(2)] disj c s]
  show ?thesis by (simp add: insert_commute)
qed

text \<open>
  C36: what \<^verbatim>\<open>intersects\<close> finds is a common element, and it finds all of them when the set
  with fewer arrays read at symbolic indices is also the one with fewer arrays read at
  constant ones.
\<close>

theorem intersects_exact:
  assumes "factor s" "factor b"
  shows "(intersects s b \<longrightarrow> footprint s \<inter> footprint b \<noteq> {}) \<and>
    ((length (wholeObjects s) < length (wholeObjects b) \<longleftrightarrow> length (elements s) < length (elements b)) \<longrightarrow>
      footprint s \<inter> footprint b \<noteq> {} \<longrightarrow> intersects s b)"
  using overlap_iff [OF factor_inv(1) [OF assms(1)] factor_inv(1) [OF assms(2)]]
    intersects_cases [OF factor_inv(1) [OF assms(1)] factor_inv(1) [OF assms(2)]] by blast

theorem intersects_exact_witness:
  "intersects \<lparr>elements = [(sample_array, [0])], wholeObjects = [sample_table], exprs = {table_at_byte}\<rparr>
     \<lparr>elements = [(sample_table, [1])], wholeObjects = [], exprs = {table_at_one}\<rparr>"
proof -
  let ?s = "\<lparr>elements = [(sample_array, [0])], wholeObjects = [sample_table], exprs = {table_at_byte}\<rparr>"
  let ?b = "\<lparr>elements = [(sample_table, [1])], wholeObjects = [], exprs = {table_at_one}\<rparr>"
  have "(sample_table, 1) \<in> footprint ?s \<inter> footprint ?b" by simp
  then have "footprint ?s \<inter> footprint ?b \<noteq> {}" by blast
  with intersects_exact [OF factor.single [OF table_wf(1) table_sets(1)] factor.single [OF table_wf(2) table_sets(2)]]
  show ?thesis by simp
qed

text \<open>
  C37: \<^verbatim>\<open>intersects\<close> misses common elements.  It compares the arrays that the set with fewer
  whole arrays reads at symbolic indices with the other set, and the single elements of the
  set with fewer of them, but nowhere the whole arrays of the larger set with the elements of
  the larger set: when these are different sets, and share nothing else, they are taken for
  independent although one reads an array at a symbolic index and the other reads elements of it.
\<close>

theorem intersects_misses:
  assumes "factor s" "factor b" "a \<in> set (wholeObjects b)" "map_of (elements s) a = Some I"
    "length (wholeObjects s) < length (wholeObjects b)" "length (elements b) \<le> length (elements s)"
    "set (wholeObjects s) \<inter> set (wholeObjects b) = {}" "set (wholeObjects s) \<inter> fst ` set (elements b) = {}"
    "fst ` set (elements s) \<inter> fst ` set (elements b) = {}"
  shows "footprint s \<inter> footprint b \<noteq> {} \<and> \<not> intersects s b"
proof -
  note wf = factor_inv(1) [OF assms(1)] factor_inv(1) [OF assms(2)]
  have w: "whole_elements b s" using assms(3,4) by (auto simp: whole_elements_def)
  have "\<not> whole_whole s b" using assms(7) by (simp add: whole_whole_def)
  moreover have "\<not> whole_elements s b" using assms(8) by (simp add: whole_elements_def disjoint_iff map_of_eq_None_iff del: not_None_eq)
  moreover have "\<not> elements_elements s b" using assms(9) by (force simp: elements_elements_def)
  ultimately show ?thesis using w overlap_iff [OF wf] intersects_cases [OF wf] assms(5,6) by simp
qed

theorem intersects_misses_witness:
  "\<not> intersects \<lparr>elements = [(sample_table, [1])], wholeObjects = [], exprs = {table_at_one}\<rparr>
     \<lparr>elements = [(sample_array, [0])], wholeObjects = [sample_table], exprs = {table_at_byte}\<rparr>"
proof -
  have "sample_table \<noteq> sample_array" by code_simp
  then show ?thesis
    using intersects_misses [OF factor.single [OF table_wf(2) table_sets(2)] factor.single [OF table_wf(1) table_sets(1)], of sample_table "[1]"]
    by simp
qed

end
